(* ===== verification/Muduo_Prelude.thy ===== *)
theory Muduo_Prelude
  imports Main "HOL-Library.Word"
begin

text \<open>
  Shared ground of the development: the error values of the C++ model and the sequencing of
  fallible code, the arithmetic of \<open>size_t\<close>, the machine types the sources use, generic facts
  on lists, and the locale of transition systems whose invariants every state machine of the
  library instantiates.
\<close>

section \<open>Collections of facts\<close>

named_theorems cpp_res \<open>rules that take fallible C++ code apart\<close>
named_theorems sz_simps \<open>arithmetic of \<open>size_t\<close> where nothing wraps\<close>

section \<open>Failure of C++ code\<close>

text \<open>
  The build does not define \<open>NDEBUG\<close> (Makefile), so a failed \<open>assert\<close> aborts the process:
  \<open>AssertFailed\<close>. The other constructors are the ways the language and its library fail:
  \<open>LengthError\<close> is the exception of \<open>std::vector::resize\<close>, \<open>BadFunctionCall\<close> the one of an
  empty \<open>std::function\<close>; \<open>OutOfBounds\<close>, \<open>NullDeref\<close>, \<open>UseAfterFree\<close>, \<open>Uninitialised\<close> and
  \<open>BadFormat\<close> are undefined behaviour that a memory checker would report, \<open>Overflow\<close> is the one of
  signed arithmetic and of a conversion out of range, \<open>BadAlloc\<close> the exception of \<open>new\<close>.
\<close>

datatype cpp_error =
    AssertFailed
  | LengthError
  | BadFunctionCall
  | OutOfBounds
  | NullDeref
  | UseAfterFree
  | Uninitialised
  | BadFormat
  | BadAlloc
  | Overflow

type_synonym 'a res = "cpp_error + 'a"

definition bindR :: "'a res \<Rightarrow> ('a \<Rightarrow> 'b res) \<Rightarrow> 'b res" where
  "bindR m f = (case m of Inl e \<Rightarrow> Inl e | Inr x \<Rightarrow> f x)"

definition cassert :: "bool \<Rightarrow> 'a res \<Rightarrow> 'a res" where
  "cassert P k = (if P then k else Inl AssertFailed)"

fun foldR :: "('x \<Rightarrow> 'a \<Rightarrow> 'a res) \<Rightarrow> 'x list \<Rightarrow> 'a \<Rightarrow> 'a res" where
  "foldR f [] s = Inr s"
| "foldR f (x # xs) s = bindR (f x s) (foldR f xs)"

lemma bindR_Inr [simp]: "bindR (Inr x) f = f x"
  by (simp add: bindR_def)

lemma bindR_Inl [simp]: "bindR (Inl e) f = Inl e"
  by (simp add: bindR_def)

lemma cassert_True [simp]: "cassert True k = k"
  by (simp add: cassert_def)

lemma cassert_False [simp]: "cassert False k = Inl AssertFailed"
  by (simp add: cassert_def)

lemma bindR_eq_Inr [cpp_res]: "bindR m f = Inr y \<longleftrightarrow> (\<exists>x. m = Inr x \<and> f x = Inr y)"
  by (cases m) auto

lemma bindR_eq_Inl [cpp_res]:
  "bindR m f = Inl e \<longleftrightarrow> m = Inl e \<or> (\<exists>x. m = Inr x \<and> f x = Inl e)"
  by (cases m) auto

lemma cassert_eq_Inr [cpp_res]: "cassert P k = Inr y \<longleftrightarrow> P \<and> k = Inr y"
  by (simp add: cassert_def)

lemma cassert_eq_Inl [cpp_res]:
  "cassert P k = Inl e \<longleftrightarrow> (\<not> P \<and> e = AssertFailed) \<or> (P \<and> k = Inl e)"
  by (auto simp: cassert_def)

lemma bindR_right [simp]: "bindR m Inr = m"
  by (cases m) auto

lemma bindR_assoc: "bindR (bindR m f) g = bindR m (\<lambda>x. bindR (f x) g)"
  by (cases m) auto

lemma foldR_append: "foldR f (xs @ ys) s = bindR (foldR f xs s) (foldR f ys)"
  by (induction xs arbitrary: s) (auto simp: bindR_def split: sum.splits)

text \<open>An invariant that every call keeps is kept by the loop over the calls.\<close>

lemma foldR_invariant:
  assumes "foldR f xs s = Inr t" and "P s"
    and "\<And>x a b. x \<in> set xs \<Longrightarrow> P a \<Longrightarrow> f x a = Inr b \<Longrightarrow> P b"
  shows "P t"
  using assms by (induction xs arbitrary: s) (auto simp: bindR_eq_Inr)

text \<open>A loop whose calls all return, returns.\<close>

lemma foldR_total:
  assumes "P s" and "\<And>x a. x \<in> set xs \<Longrightarrow> P a \<Longrightarrow> \<exists>b. f x a = Inr b \<and> P b"
  shows "\<exists>t. foldR f xs s = Inr t \<and> P t"
  using assms
proof (induction xs arbitrary: s)
  case Nil
  then show ?case by simp
next
  case (Cons x xs)
  from Cons.prems obtain b where b: "f x s = Inr b" "P b" by fastforce
  with Cons.IH [of b] Cons.prems(2) show ?case by auto
qed

section \<open>Machine types\<close>

type_synonym byte = "8 word"
type_synonym int32 = "32 word"
type_synonym fd = int
type_synonym tid = nat
type_synonym addr = nat

definition size_mod :: nat where
  "size_mod = 2 ^ 64"

text \<open>\<open>PTRDIFF_MAX\<close>: no C++ object, hence no \<open>std::vector\<close>, is larger.\<close>

definition max_size :: nat where
  "max_size = 2 ^ 63 - 1"

definition szadd :: "nat \<Rightarrow> nat \<Rightarrow> nat" where
  "szadd a b = (a + b) mod size_mod"

definition szsub :: "nat \<Rightarrow> nat \<Rightarrow> nat" where
  "szsub a b = (a + size_mod - b) mod size_mod"

lemma size_mod_pos [simp]: "0 < size_mod"
  by (simp add: size_mod_def)

lemma max_size_lt [simp]: "max_size < size_mod"
  by (simp add: max_size_def size_mod_def)

lemma max_size_double: "max_size + max_size + 2 = size_mod"
  by (simp add: max_size_def size_mod_def)

lemma szadd_small [sz_simps]: "a + b < size_mod \<Longrightarrow> szadd a b = a + b"
  by (simp add: szadd_def)

lemma szsub_small [sz_simps]: "b \<le> a \<Longrightarrow> a < size_mod \<Longrightarrow> szsub a b = a - b"
  by (simp add: szsub_def mod_if)

lemma szadd_bound [simp]: "szadd a b < size_mod"
  by (simp add: szadd_def)

lemma szsub_bound [simp]: "szsub a b < size_mod"
  by (simp add: szsub_def)

lemma szsub_wraps: "a < b \<Longrightarrow> b \<le> size_mod \<Longrightarrow> szsub a b = size_mod - (b - a)"
  by (simp add: szsub_def)

lemma unat_bound: "unat (w :: 'a::len word) < 2 ^ LENGTH('a)"
  by (rule unsigned_less)

section \<open>Lists\<close>

text \<open>\<open>std::copy\<close> of \<open>src\<close> to position \<open>i\<close> of an array that has room for it.\<close>

definition overwrite :: "nat \<Rightarrow> 'a list \<Rightarrow> 'a list \<Rightarrow> 'a list" where
  "overwrite i src xs = take i xs @ src @ drop (i + length src) xs"

lemma length_overwrite [simp]:
  "i + length src \<le> length xs \<Longrightarrow> length (overwrite i src xs) = length xs"
  by (simp add: overwrite_def)

lemma take_overwrite [simp]: "j \<le> i \<Longrightarrow> i \<le> length xs \<Longrightarrow> take j (overwrite i src xs) = take j xs"
  by (simp add: overwrite_def min_def)

lemma take_upto_overwrite [simp]:
  "i \<le> length xs \<Longrightarrow> n = i + length src \<Longrightarrow> take n (overwrite i src xs) = take i xs @ src"
  by (simp add: overwrite_def)

lemma drop_overwrite [simp]:
  "i \<le> length xs \<Longrightarrow> drop i (overwrite i src xs) = src @ drop (i + length src) xs"
  by (simp add: overwrite_def)

text \<open>\<open>std::search\<close>: the first position at which \<open>pat\<close> occurs, the length when there is none.\<close>

fun cpp_search :: "'a list \<Rightarrow> 'a list \<Rightarrow> nat" where
  "cpp_search pat [] = 0"
| "cpp_search pat (x # xs) =
     (if take (length pat) (x # xs) = pat then 0 else Suc (cpp_search pat xs))"

definition occurs_at :: "'a list \<Rightarrow> 'a list \<Rightarrow> nat \<Rightarrow> bool" where
  "occurs_at pat xs i \<longleftrightarrow> i < length xs \<and> take (length pat) (drop i xs) = pat"

lemma cpp_search_le: "cpp_search pat xs \<le> length xs"
  by (induction xs) auto

lemma cpp_search_first: "i < cpp_search pat xs \<Longrightarrow> \<not> occurs_at pat xs i"
proof (induction xs arbitrary: i)
  case Nil
  then show ?case by (simp add: occurs_at_def)
next
  case (Cons x xs)
  then show ?case by (cases i) (auto simp: occurs_at_def split: if_splits)
qed

lemma cpp_search_found: "cpp_search pat xs < length xs \<Longrightarrow> occurs_at pat xs (cpp_search pat xs)"
  by (induction xs) (auto simp: occurs_at_def)

text \<open>\<open>memchr\<close>: the first position that holds \<open>c\<close>, \<open>None\<close> for the null pointer.\<close>

fun memchr :: "'a \<Rightarrow> 'a list \<Rightarrow> nat option" where
  "memchr c [] = None"
| "memchr c (x # xs) = (if x = c then Some 0 else map_option Suc (memchr c xs))"

lemma memchr_None_iff: "memchr c xs = None \<longleftrightarrow> c \<notin> set xs"
  by (induction xs) auto

lemma memchr_Some_iff:
  "memchr c xs = Some i \<longleftrightarrow> i < length xs \<and> xs ! i = c \<and> c \<notin> set (take i xs)"
proof (induction xs arbitrary: i)
  case Nil
  then show ?case by simp
next
  case (Cons x xs)
  then show ?case by (cases i) auto
qed

section \<open>Decimal numbers\<close>

text \<open>What \<open>%d\<close> and \<open>operator<<\<close> print of an integer.\<close>

definition digit_char :: "nat \<Rightarrow> char" where
  "digit_char d = char_of (48 + d)"

fun show_nat :: "nat \<Rightarrow> string" where
  "show_nat n = (if n < 10 then [digit_char n] else show_nat (n div 10) @ [digit_char (n mod 10)])"

declare show_nat.simps [simp del]

definition show_int :: "int \<Rightarrow> string" where
  "show_int i = (if i < 0 then CHR ''-'' # show_nat (nat (- i)) else show_nat (nat i))"

definition char_digit :: "char \<Rightarrow> nat" where
  "char_digit c = of_char c - 48"

definition read_nat :: "string \<Rightarrow> nat" where
  "read_nat s = foldl (\<lambda>v c. 10 * v + char_digit c) 0 s"

lemma char_digit_digit [simp]: "d < 10 \<Longrightarrow> char_digit (digit_char d) = d"
  by (simp add: char_digit_def digit_char_def)

lemma read_show_nat: "read_nat (show_nat n) = n"
proof (induction n rule: show_nat.induct)
  case (1 n)
  then show ?case
    by (cases "n < 10") (simp_all add: show_nat.simps [of n] read_nat_def)
qed

lemma show_nat_inject [simp]: "show_nat m = show_nat n \<longleftrightarrow> m = n"
  by (metis read_show_nat)

lemma show_nat_nonempty [simp]: "show_nat n \<noteq> []"
  by (subst show_nat.simps) simp

lemma digit_char_inject: "d < 10 \<Longrightarrow> e < 10 \<Longrightarrow> digit_char d = digit_char e \<longleftrightarrow> d = e"
  by (metis char_digit_digit)

lemma set_show_nat: "set (show_nat n) \<subseteq> digit_char ` {0..<10}"
proof (induction n rule: show_nat.induct)
  case (1 n)
  then show ?case
    by (cases "n < 10") (auto simp: show_nat.simps [of n])
qed

lemma length_show_nat: "n < 10 ^ k \<Longrightarrow> 0 < k \<Longrightarrow> length (show_nat n) \<le> k"
proof (induction n arbitrary: k rule: show_nat.induct)
  case (1 n)
  show ?case
  proof (cases "n < 10")
    case True
    with 1 show ?thesis by (simp add: show_nat.simps [of n])
  next
    case False
    with 1(2) obtain j where k: "k = Suc j" "0 < j"
      by (cases k; cases "k - 1") auto
    with 1 False have "length (show_nat (n div 10)) \<le> j" by simp
    with False k show ?thesis by (simp add: show_nat.simps [of n])
  qed
qed

section \<open>Transition systems\<close>

text \<open>
  The contract every state machine of the library fulfils: an invariant that holds at the start
  and that every step keeps. What it gives is the same each time, so it is proved once.
\<close>

locale transition_system =
  fixes init :: "'s \<Rightarrow> bool"
    and step :: "'s \<Rightarrow> 's \<Rightarrow> bool"
    and inv :: "'s \<Rightarrow> bool"
  assumes inv_init: "init s \<Longrightarrow> inv s"
    and inv_step: "inv s \<Longrightarrow> step s t \<Longrightarrow> inv t"
begin

lemma inv_steps: "step\<^sup>*\<^sup>* s t \<Longrightarrow> inv s \<Longrightarrow> inv t"
  by (induction rule: rtranclp_induct) (auto intro: inv_step)

lemma reachable_inv: "init s \<Longrightarrow> step\<^sup>*\<^sup>* s t \<Longrightarrow> inv t"
  by (blast intro: inv_init inv_steps)

end

text \<open>
  Refinement of an abstract system: an abstraction function under which every step of a state of
  the invariant is a step of the specification or leaves the abstract state alone. Every run is
  then a run of the specification.
\<close>

locale refinement = transition_system +
  fixes spec_step :: "'a \<Rightarrow> 'a \<Rightarrow> bool"
    and abstr :: "'s \<Rightarrow> 'a"
  assumes simulates: "inv s \<Longrightarrow> step s t \<Longrightarrow> spec_step (abstr s) (abstr t) \<or> abstr t = abstr s"
begin

lemma refines_from: "step\<^sup>*\<^sup>* s t \<Longrightarrow> inv s \<Longrightarrow> spec_step\<^sup>*\<^sup>* (abstr s) (abstr t)"
proof (induction rule: rtranclp_induct)
  case (step t u)
  then have "spec_step\<^sup>*\<^sup>* (abstr s) (abstr t)" and "inv t" by (auto intro: inv_steps)
  with simulates [OF \<open>inv t\<close> step.hyps(2)] show ?case by (auto intro: rtranclp.rtrancl_into_rtrancl)
qed simp

lemma refines: "init s \<Longrightarrow> step\<^sup>*\<^sup>* s t \<Longrightarrow> spec_step\<^sup>*\<^sup>* (abstr s) (abstr t)"
  by (blast intro: inv_init refines_from)

end

section \<open>The abstract queue\<close>

text \<open>
  What a work queue shared by threads promises: the work accepted and not yet handed out, and the
  work handed out, in order. A bound of \<open>0\<close> means none.
\<close>

inductive fifo_step :: "nat \<Rightarrow> 'f list \<times> 'f list \<Rightarrow> 'f list \<times> 'f list \<Rightarrow> bool" for bound :: nat where
  accept: "bound = 0 \<or> length w < bound \<Longrightarrow> fifo_step bound (w, d) (w @ [f], d)"
| hand_out: "fifo_step bound (f # w, d) (w, d @ [f])"

end
