(* ===== verification/Byte_Buffer.thy ===== *)
theory Byte_Buffer
  imports Muduo_Prelude
begin

text \<open>
  \<open>net/Buffer.h\<close>, \<open>net/Buffer.cpp\<close> and \<open>net/Endian.h\<close>: the byte buffer with its two indices,
  its growth, the integer codecs in network byte order, the line searches and the scatter read
  from a socket. A pointer into the buffer is its offset in \<open>buffer_\<close>. The contract clients use,
  a queue of bytes, is the locale \<open>byte_queue\<close> at the end, interpreted on these definitions.
\<close>

section \<open>The buffer\<close>

record buffer =
  buf_data :: "byte list"
  readerIndex :: nat
  writerIndex :: nat

definition kCheapPrepend :: nat where
  "kCheapPrepend = 8"

definition kInitialSize :: nat where
  "kInitialSize = 1024"

definition readableBytes :: "buffer \<Rightarrow> nat" where
  "readableBytes b = szsub (writerIndex b) (readerIndex b)"

definition writableBytes :: "buffer \<Rightarrow> nat" where
  "writableBytes b = szsub (length (buf_data b)) (writerIndex b)"

definition prependableBytes :: "buffer \<Rightarrow> nat" where
  "prependableBytes b = readerIndex b"

definition peek :: "buffer \<Rightarrow> nat" where
  "peek b = readerIndex b"

definition beginWrite :: "buffer \<Rightarrow> nat" where
  "beginWrite b = writerIndex b"

definition mkBuffer :: "nat \<Rightarrow> buffer res" where
  "mkBuffer initialSize =
     (if szadd kCheapPrepend initialSize > max_size then Inl LengthError
      else let b = \<lparr>buf_data = replicate (szadd kCheapPrepend initialSize) 0,
                    readerIndex = kCheapPrepend, writerIndex = kCheapPrepend\<rparr>
           in cassert (readableBytes b = 0)
               (cassert (writableBytes b = initialSize)
                 (cassert (prependableBytes b = kCheapPrepend) (Inr b))))"

definition buf_swap :: "buffer \<Rightarrow> buffer \<Rightarrow> buffer \<times> buffer" where
  "buf_swap b rhs =
     (b\<lparr>buf_data := buf_data rhs, readerIndex := readerIndex rhs, writerIndex := writerIndex rhs\<rparr>,
      rhs\<lparr>buf_data := buf_data b, readerIndex := readerIndex b, writerIndex := writerIndex b\<rparr>)"

text \<open>The bytes from offset \<open>i\<close> up to offset \<open>j\<close>, and a copy of bytes to offset \<open>i\<close>.\<close>

definition buf_slice :: "nat \<Rightarrow> nat \<Rightarrow> buffer \<Rightarrow> byte list res" where
  "buf_slice i j b =
     (if i \<le> j \<and> j \<le> length (buf_data b) then Inr (take (j - i) (drop i (buf_data b)))
      else Inl OutOfBounds)"

definition buf_copy :: "nat \<Rightarrow> byte list \<Rightarrow> buffer \<Rightarrow> buffer res" where
  "buf_copy i src b =
     (if i + length src \<le> length (buf_data b) then Inr (b\<lparr>buf_data := overwrite i src (buf_data b)\<rparr>)
      else Inl OutOfBounds)"

text \<open>\<open>std::vector::resize\<close>: the new characters are zero.\<close>

definition buf_resize :: "nat \<Rightarrow> buffer \<Rightarrow> buffer res" where
  "buf_resize n b =
     (if n > max_size then Inl LengthError
      else Inr (b\<lparr>buf_data := take n (buf_data b) @ replicate (n - length (buf_data b)) 0\<rparr>))"

section \<open>Taking bytes out\<close>

definition retrieveAll :: "buffer \<Rightarrow> buffer" where
  "retrieveAll b = b\<lparr>readerIndex := kCheapPrepend, writerIndex := kCheapPrepend\<rparr>"

definition retrieve :: "nat \<Rightarrow> buffer \<Rightarrow> buffer res" where
  "retrieve len b =
     cassert (len \<le> readableBytes b)
       (if len < readableBytes b then Inr (b\<lparr>readerIndex := szadd (readerIndex b) len\<rparr>)
        else Inr (retrieveAll b))"

definition retrieveUntil :: "nat \<Rightarrow> buffer \<Rightarrow> buffer res" where
  "retrieveUntil end b =
     cassert (peek b \<le> end) (cassert (end \<le> beginWrite b) (retrieve (end - peek b) b))"

definition retrieveInt64 :: "buffer \<Rightarrow> buffer res" where
  "retrieveInt64 b = retrieve 8 b"

definition retrieveInt32 :: "buffer \<Rightarrow> buffer res" where
  "retrieveInt32 b = retrieve 4 b"

definition retrieveInt16 :: "buffer \<Rightarrow> buffer res" where
  "retrieveInt16 b = retrieve 2 b"

definition retrieveInt8 :: "buffer \<Rightarrow> buffer res" where
  "retrieveInt8 b = retrieve 1 b"

definition retrieveAsString :: "nat \<Rightarrow> buffer \<Rightarrow> (byte list \<times> buffer) res" where
  "retrieveAsString len b =
     cassert (len \<le> readableBytes b)
       (bindR (buf_slice (peek b) (peek b + len) b)
         (\<lambda>result. bindR (retrieve len b) (\<lambda>b'. Inr (result, b'))))"

definition retrieveAllAsString :: "buffer \<Rightarrow> (byte list \<times> buffer) res" where
  "retrieveAllAsString b = retrieveAsString (readableBytes b) b"

section \<open>Putting bytes in\<close>

definition makeSpace :: "nat \<Rightarrow> buffer \<Rightarrow> buffer res" where
  "makeSpace len b =
     (if szadd (writableBytes b) (prependableBytes b) < szadd len kCheapPrepend
      then buf_resize (szadd (writerIndex b) len) b
      else cassert (kCheapPrepend < readerIndex b)
        (let readable = readableBytes b
         in bindR (buf_slice (readerIndex b) (writerIndex b) b)
             (\<lambda>src. bindR (buf_copy kCheapPrepend src b)
               (\<lambda>b1. let b2 = b1\<lparr>readerIndex := kCheapPrepend,
                                  writerIndex := szadd kCheapPrepend readable\<rparr>
                     in cassert (readable = readableBytes b2) (Inr b2)))))"

definition ensureWritableBytes :: "nat \<Rightarrow> buffer \<Rightarrow> buffer res" where
  "ensureWritableBytes len b =
     bindR (if writableBytes b < len then makeSpace len b else Inr b)
       (\<lambda>b'. cassert (writableBytes b' \<ge> len) (Inr b'))"

definition hasWritten :: "nat \<Rightarrow> buffer \<Rightarrow> buffer res" where
  "hasWritten len b =
     cassert (len \<le> writableBytes b) (Inr (b\<lparr>writerIndex := szadd (writerIndex b) len\<rparr>))"

definition unwrite :: "nat \<Rightarrow> buffer \<Rightarrow> buffer res" where
  "unwrite len b =
     cassert (len \<le> readableBytes b) (Inr (b\<lparr>writerIndex := szsub (writerIndex b) len\<rparr>))"

text \<open>
  \<open>append(data, len)\<close>: \<open>mem\<close> is the memory that may be read at \<open>data\<close>. Reading past it is
  undefined behaviour, whatever \<open>len\<close> the caller passed.
\<close>

definition buf_append :: "byte list \<Rightarrow> nat \<Rightarrow> buffer \<Rightarrow> buffer res" where
  "buf_append mem len b =
     bindR (ensureWritableBytes len b)
       (\<lambda>b1. if length mem < len then Inl OutOfBounds
         else bindR (buf_copy (beginWrite b1) (take len mem) b1) (hasWritten len))"

definition prepend :: "byte list \<Rightarrow> nat \<Rightarrow> buffer \<Rightarrow> buffer res" where
  "prepend mem len b =
     cassert (len \<le> prependableBytes b)
       (let b1 = b\<lparr>readerIndex := szsub (readerIndex b) len\<rparr>
        in if length mem < len then Inl OutOfBounds
           else buf_copy (readerIndex b1) (take len mem) b1)"

section \<open>Integers in network byte order\<close>

text \<open>
  \<open>le_bytes n x\<close> is the object representation of an \<open>n\<close>-byte integer on a little-endian host.
  \<open>htobe\<close> and \<open>betoh\<close> are \<open>endian.h\<close>: the identity on a big-endian host, a byte swap on a
  little-endian one. The codecs take the host's byte order as an argument.
\<close>

datatype endianness = LittleEndian | BigEndian

fun le_bytes :: "nat \<Rightarrow> nat \<Rightarrow> byte list" where
  "le_bytes 0 x = []"
| "le_bytes (Suc n) x = word_of_nat x # le_bytes n (x div 256)"

fun le_value :: "byte list \<Rightarrow> nat" where
  "le_value [] = 0"
| "le_value (b # bs) = unat b + 256 * le_value bs"

definition be_bytes :: "nat \<Rightarrow> nat \<Rightarrow> byte list" where
  "be_bytes n x = rev (le_bytes n x)"

definition obj_bytes :: "endianness \<Rightarrow> nat \<Rightarrow> nat \<Rightarrow> byte list" where
  "obj_bytes host n x = (case host of LittleEndian \<Rightarrow> le_bytes n x | BigEndian \<Rightarrow> be_bytes n x)"

definition obj_value :: "endianness \<Rightarrow> byte list \<Rightarrow> nat" where
  "obj_value host bs = (case host of LittleEndian \<Rightarrow> le_value bs | BigEndian \<Rightarrow> le_value (rev bs))"

definition bswap :: "nat \<Rightarrow> nat \<Rightarrow> nat" where
  "bswap n x = le_value (be_bytes n x)"

definition hostToNetwork64 :: "endianness \<Rightarrow> 64 word \<Rightarrow> 64 word" where
  "hostToNetwork64 host x = (case host of LittleEndian \<Rightarrow> word_of_nat (bswap 8 (unat x)) | BigEndian \<Rightarrow> x)"

definition hostToNetwork32 :: "endianness \<Rightarrow> 32 word \<Rightarrow> 32 word" where
  "hostToNetwork32 host x = (case host of LittleEndian \<Rightarrow> word_of_nat (bswap 4 (unat x)) | BigEndian \<Rightarrow> x)"

definition hostToNetwork16 :: "endianness \<Rightarrow> 16 word \<Rightarrow> 16 word" where
  "hostToNetwork16 host x = (case host of LittleEndian \<Rightarrow> word_of_nat (bswap 2 (unat x)) | BigEndian \<Rightarrow> x)"

definition networkToHost64 :: "endianness \<Rightarrow> 64 word \<Rightarrow> 64 word" where
  "networkToHost64 host x = (case host of LittleEndian \<Rightarrow> word_of_nat (bswap 8 (unat x)) | BigEndian \<Rightarrow> x)"

definition networkToHost32 :: "endianness \<Rightarrow> 32 word \<Rightarrow> 32 word" where
  "networkToHost32 host x = (case host of LittleEndian \<Rightarrow> word_of_nat (bswap 4 (unat x)) | BigEndian \<Rightarrow> x)"

definition networkToHost16 :: "endianness \<Rightarrow> 16 word \<Rightarrow> 16 word" where
  "networkToHost16 host x = (case host of LittleEndian \<Rightarrow> word_of_nat (bswap 2 (unat x)) | BigEndian \<Rightarrow> x)"

definition appendInt64 :: "endianness \<Rightarrow> 64 word \<Rightarrow> buffer \<Rightarrow> buffer res" where
  "appendInt64 host x b =
     (let be64 = hostToNetwork64 host x in buf_append (obj_bytes host 8 (unat be64)) 8 b)"

definition appendInt32 :: "endianness \<Rightarrow> 32 word \<Rightarrow> buffer \<Rightarrow> buffer res" where
  "appendInt32 host x b =
     (let be32 = hostToNetwork32 host x in buf_append (obj_bytes host 4 (unat be32)) 4 b)"

definition appendInt16 :: "endianness \<Rightarrow> 16 word \<Rightarrow> buffer \<Rightarrow> buffer res" where
  "appendInt16 host x b =
     (let be16 = hostToNetwork16 host x in buf_append (obj_bytes host 2 (unat be16)) 2 b)"

definition appendInt8 :: "8 word \<Rightarrow> buffer \<Rightarrow> buffer res" where
  "appendInt8 x b = buf_append [x] 1 b"

definition peekInt64 :: "endianness \<Rightarrow> buffer \<Rightarrow> 64 word res" where
  "peekInt64 host b =
     cassert (readableBytes b \<ge> 8)
       (bindR (buf_slice (peek b) (peek b + 8) b)
         (\<lambda>bs. let be64 = word_of_nat (obj_value host bs) in Inr (networkToHost64 host be64)))"

definition peekInt32 :: "endianness \<Rightarrow> buffer \<Rightarrow> 32 word res" where
  "peekInt32 host b =
     cassert (readableBytes b \<ge> 4)
       (bindR (buf_slice (peek b) (peek b + 4) b)
         (\<lambda>bs. let be32 = word_of_nat (obj_value host bs) in Inr (networkToHost32 host be32)))"

definition peekInt16 :: "endianness \<Rightarrow> buffer \<Rightarrow> 16 word res" where
  "peekInt16 host b =
     cassert (readableBytes b \<ge> 2)
       (bindR (buf_slice (peek b) (peek b + 2) b)
         (\<lambda>bs. let be16 = word_of_nat (obj_value host bs) in Inr (networkToHost16 host be16)))"

definition peekInt8 :: "buffer \<Rightarrow> 8 word res" where
  "peekInt8 b =
     cassert (readableBytes b \<ge> 1) (bindR (buf_slice (peek b) (peek b + 1) b) (\<lambda>bs. Inr (hd bs)))"

definition readInt64 :: "endianness \<Rightarrow> buffer \<Rightarrow> (64 word \<times> buffer) res" where
  "readInt64 host b =
     bindR (peekInt64 host b) (\<lambda>result. bindR (retrieveInt64 b) (\<lambda>b'. Inr (result, b')))"

definition readInt32 :: "endianness \<Rightarrow> buffer \<Rightarrow> (32 word \<times> buffer) res" where
  "readInt32 host b =
     bindR (peekInt32 host b) (\<lambda>result. bindR (retrieveInt32 b) (\<lambda>b'. Inr (result, b')))"

definition readInt16 :: "endianness \<Rightarrow> buffer \<Rightarrow> (16 word \<times> buffer) res" where
  "readInt16 host b =
     bindR (peekInt16 host b) (\<lambda>result. bindR (retrieveInt16 b) (\<lambda>b'. Inr (result, b')))"

definition readInt8 :: "buffer \<Rightarrow> (8 word \<times> buffer) res" where
  "readInt8 b =
     bindR (peekInt8 b) (\<lambda>result. bindR (retrieveInt8 b) (\<lambda>b'. Inr (result, b')))"

definition prependInt64 :: "endianness \<Rightarrow> 64 word \<Rightarrow> buffer \<Rightarrow> buffer res" where
  "prependInt64 host x b =
     (let be64 = hostToNetwork64 host x in prepend (obj_bytes host 8 (unat be64)) 8 b)"

definition prependInt32 :: "endianness \<Rightarrow> 32 word \<Rightarrow> buffer \<Rightarrow> buffer res" where
  "prependInt32 host x b =
     (let be32 = hostToNetwork32 host x in prepend (obj_bytes host 4 (unat be32)) 4 b)"

definition prependInt16 :: "endianness \<Rightarrow> 16 word \<Rightarrow> buffer \<Rightarrow> buffer res" where
  "prependInt16 host x b =
     (let be16 = hostToNetwork16 host x in prepend (obj_bytes host 2 (unat be16)) 2 b)"

definition prependInt8 :: "8 word \<Rightarrow> buffer \<Rightarrow> buffer res" where
  "prependInt8 x b = prepend [x] 1 b"

section \<open>Searching for the end of a line\<close>

definition kCRLF :: "byte list" where
  "kCRLF = [13, 10]"

definition findCRLF_from :: "nat \<Rightarrow> buffer \<Rightarrow> nat option res" where
  "findCRLF_from start b =
     cassert (peek b \<le> start) (cassert (start \<le> beginWrite b)
       (bindR (buf_slice start (beginWrite b) b)
         (\<lambda>bs. let crlf = start + cpp_search kCRLF bs
               in Inr (if crlf = beginWrite b then None else Some crlf))))"

definition findCRLF :: "buffer \<Rightarrow> nat option res" where
  "findCRLF b =
     bindR (buf_slice (peek b) (beginWrite b) b)
       (\<lambda>bs. let crlf = peek b + cpp_search kCRLF bs
             in Inr (if crlf = beginWrite b then None else Some crlf))"

definition findEOL :: "buffer \<Rightarrow> nat option res" where
  "findEOL b =
     bindR (buf_slice (peek b) (peek b + readableBytes b) b)
       (\<lambda>bs. Inr (map_option (\<lambda>i. peek b + i) (memchr 10 bs)))"

definition findEOL_from :: "nat \<Rightarrow> buffer \<Rightarrow> nat option res" where
  "findEOL_from start b =
     cassert (peek b \<le> start) (cassert (start \<le> beginWrite b)
       (bindR (buf_slice start (beginWrite b) b)
         (\<lambda>bs. Inr (map_option (\<lambda>i. start + i) (memchr 10 bs)))))"

section \<open>Reading from a descriptor\<close>

text \<open>
  \<open>readFd\<close> hands two areas to \<open>readv\<close>: the writable tail and, when that is shorter than
  64 KiB, a stack buffer. The kernel's answer is a parameter: \<open>readv lens\<close> is an error number
  or the bytes it delivered for areas of these lengths. It fills the first area first.
\<close>

definition extrabuf_size :: nat where
  "extrabuf_size = 65536"

datatype io_result = IoErr int | IoBytes "byte list"

definition readv_fits :: "(nat list \<Rightarrow> io_result) \<Rightarrow> bool" where
  "readv_fits readv \<longleftrightarrow> (\<forall>lens bs. readv lens = IoBytes bs \<longrightarrow> length bs \<le> sum_list lens)"

definition readFd_iov :: "nat \<Rightarrow> nat list" where
  "readFd_iov writable =
     (if writable < extrabuf_size then [writable, extrabuf_size] else [writable])"

definition readFd :: "(nat list \<Rightarrow> io_result) \<Rightarrow> buffer \<Rightarrow> (io_result \<times> buffer) res" where
  "readFd readv b =
     (let writable = writableBytes b
      in case readv (readFd_iov writable) of
           IoErr e \<Rightarrow> Inr (IoErr e, b)
         | IoBytes bs \<Rightarrow>
             if length bs \<le> writable
             then bindR (buf_copy (writerIndex b) bs b)
                   (\<lambda>b1. Inr (IoBytes bs, b1\<lparr>writerIndex := szadd (writerIndex b1) (length bs)\<rparr>))
             else bindR (buf_copy (writerIndex b) (take writable bs) b)
                   (\<lambda>b1. let b2 = b1\<lparr>writerIndex := length (buf_data b1)\<rparr>;
                              extrabuf = drop writable bs
                         in bindR (buf_append extrabuf (szsub (length bs) writable) b2)
                              (\<lambda>b3. Inr (IoBytes bs, b3))))"

section \<open>Invariant and contents\<close>

text \<open>
  \<open>0 <= readerIndex <= writerIndex <= size\<close>, as the class comment draws it, in a vector that
  has its cheap-prepend area and that C++ can allocate.
\<close>

definition buf_inv :: "buffer \<Rightarrow> bool" where
  "buf_inv b \<longleftrightarrow> readerIndex b \<le> writerIndex b \<and> writerIndex b \<le> length (buf_data b)
     \<and> kCheapPrepend \<le> length (buf_data b) \<and> length (buf_data b) \<le> max_size"

definition content :: "buffer \<Rightarrow> byte list" where
  "content b = take (writerIndex b - readerIndex b) (drop (readerIndex b) (buf_data b))"

text \<open>The offset up to which the vector is in use; appending never needs more than this.\<close>

definition used :: "buffer \<Rightarrow> nat" where
  "used b = max kCheapPrepend (writerIndex b)"

lemma buf_invD:
  assumes "buf_inv b"
  shows "readerIndex b \<le> writerIndex b" "writerIndex b \<le> length (buf_data b)"
    "kCheapPrepend \<le> length (buf_data b)" "length (buf_data b) \<le> max_size"
    "writerIndex b < size_mod" "length (buf_data b) < size_mod" "readerIndex b < size_mod"
proof -
  note max_size_lt
  with assms show "readerIndex b \<le> writerIndex b" "writerIndex b \<le> length (buf_data b)"
    "kCheapPrepend \<le> length (buf_data b)" "length (buf_data b) \<le> max_size"
    "writerIndex b < size_mod" "length (buf_data b) < size_mod" "readerIndex b < size_mod"
    unfolding buf_inv_def by linarith+
qed

lemma readableBytes_inv [simp]: "buf_inv b \<Longrightarrow> readableBytes b = writerIndex b - readerIndex b"
  by (simp add: readableBytes_def sz_simps buf_invD)

lemma writableBytes_inv [simp]: "buf_inv b \<Longrightarrow> writableBytes b = length (buf_data b) - writerIndex b"
  by (simp add: writableBytes_def sz_simps buf_invD)

lemma length_content [simp]: "buf_inv b \<Longrightarrow> length (content b) = writerIndex b - readerIndex b"
  using buf_invD(2) [of b] by (simp add: content_def)

lemma readableBytes_content: "buf_inv b \<Longrightarrow> readableBytes b = length (content b)"
  by simp

lemma kCheapPrepend_small [simp]: "kCheapPrepend < size_mod" "kCheapPrepend \<le> max_size"
  by (simp_all add: kCheapPrepend_def size_mod_def max_size_def)

lemma mkBuffer_ok:
  assumes "n + kCheapPrepend \<le> max_size"
  shows "\<exists>b. mkBuffer n = Inr b \<and> buf_inv b \<and> content b = [] \<and> writableBytes b = n
    \<and> used b = kCheapPrepend"
proof -
  have lt: "kCheapPrepend + n < size_mod"
    using assms max_size_lt by linarith
  let ?b = "\<lparr>buf_data = replicate (kCheapPrepend + n) 0, readerIndex = kCheapPrepend,
             writerIndex = kCheapPrepend\<rparr>"
  have inv: "buf_inv ?b" using assms by (simp add: buf_inv_def)
  have "mkBuffer n = Inr ?b"
    using assms lt inv by (simp add: mkBuffer_def Let_def sz_simps prependableBytes_def)
  with inv show ?thesis by (simp add: content_def used_def)
qed

section \<open>Taking bytes out is correct\<close>

lemma retrieveAll_inv [simp]: "buf_inv b \<Longrightarrow> buf_inv (retrieveAll b)"
  by (simp add: buf_inv_def retrieveAll_def)

lemma content_retrieveAll [simp]: "content (retrieveAll b) = []"
  by (simp add: content_def retrieveAll_def)

lemma used_retrieveAll [simp]: "used (retrieveAll b) = kCheapPrepend"
  by (simp add: used_def retrieveAll_def)

lemma content_advance:
  assumes "buf_inv b" and "n \<le> writerIndex b - readerIndex b"
  shows "content (b\<lparr>readerIndex := readerIndex b + n\<rparr>) = drop n (content b)"
  by (simp add: content_def drop_take add.commute)

lemma retrieve_ok:
  assumes inv: "buf_inv b" and n: "n \<le> length (content b)"
  shows "\<exists>b'. retrieve n b = Inr b' \<and> buf_inv b' \<and> content b' = drop n (content b)
    \<and> used b' \<le> used b"
proof (cases "n < length (content b)")
  case True
  then have "readerIndex b + n < size_mod"
    using inv buf_invD(5) [OF inv] by simp
  with True inv have "retrieve n b = Inr (b\<lparr>readerIndex := readerIndex b + n\<rparr>)"
    by (simp add: retrieve_def sz_simps)
  moreover have "buf_inv (b\<lparr>readerIndex := readerIndex b + n\<rparr>)"
    using inv True by (simp add: buf_inv_def)
  ultimately show ?thesis
    using content_advance [OF inv, of n] True inv by (simp add: used_def)
next
  case False
  then have "retrieve n b = Inr (retrieveAll b)"
    using n inv by (simp add: retrieve_def)
  moreover have "used (retrieveAll b) \<le> used b" by (simp add: used_def retrieveAll_def)
  ultimately show ?thesis using False n inv by simp
qed

lemma retrieve_fails: "buf_inv b \<Longrightarrow> length (content b) < n \<Longrightarrow> retrieve n b = Inl AssertFailed"
  by (simp add: retrieve_def)

lemma buf_slice_peek:
  assumes "buf_inv b" and "n \<le> length (content b)"
  shows "buf_slice (peek b) (peek b + n) b = Inr (take n (content b))"
proof -
  have n: "n \<le> writerIndex b - readerIndex b" using assms by simp
  moreover have "readerIndex b + n \<le> length (buf_data b)"
    using n buf_invD(1,2) [OF assms(1)] by linarith
  ultimately show ?thesis
    by (simp add: buf_slice_def peek_def content_def min_absorb1)
qed

lemma retrieveAsString_ok:
  assumes "buf_inv b" and "n \<le> length (content b)"
  shows "\<exists>b'. retrieveAsString n b = Inr (take n (content b), b') \<and> buf_inv b'
    \<and> content b' = drop n (content b) \<and> used b' \<le> used b"
proof -
  from retrieve_ok [OF assms] obtain b' where
    "retrieve n b = Inr b'" "buf_inv b'" "content b' = drop n (content b)" "used b' \<le> used b"
    by blast
  with assms show ?thesis
    by (simp add: retrieveAsString_def buf_slice_peek)
qed

lemma retrieveUntil_ok:
  assumes "buf_inv b" and "readerIndex b \<le> e" and "e \<le> writerIndex b"
  shows "\<exists>b'. retrieveUntil e b = Inr b' \<and> buf_inv b'
    \<and> content b' = drop (e - readerIndex b) (content b)"
proof -
  have "e - readerIndex b \<le> length (content b)"
    using assms by (simp add: diff_le_mono)
  from retrieve_ok [OF assms(1) this] assms show ?thesis
    by (auto simp: retrieveUntil_def peek_def beginWrite_def)
qed

lemma unwrite_ok:
  assumes inv: "buf_inv b" and n: "n \<le> length (content b)"
  shows "\<exists>b'. unwrite n b = Inr b' \<and> buf_inv b'
    \<and> content b' = take (length (content b) - n) (content b)"
proof -
  let ?b = "b\<lparr>writerIndex := writerIndex b - n\<rparr>"
  have "unwrite n b = Inr ?b"
    using assms buf_invD(1,5) [OF inv] by (simp add: unwrite_def sz_simps)
  moreover have "buf_inv ?b"
    using n inv buf_invD [OF inv] unfolding buf_inv_def [of ?b] by auto
  moreover have "content ?b = take (length (content b) - n) (content b)"
    unfolding length_content [OF inv] by (simp add: content_def min_absorb1 add.commute)
  ultimately show ?thesis by blast
qed

section \<open>Putting bytes in is correct\<close>

lemma makeSpace_resize:
  assumes inv: "buf_inv b" and len: "len \<le> max_size" and short: "writableBytes b < len"
    and grow: "writableBytes b + prependableBytes b < len + kCheapPrepend"
    and fits: "writerIndex b + len \<le> max_size"
  shows "\<exists>b'. makeSpace len b = Inr b' \<and> buf_inv b' \<and> content b' = content b
    \<and> writerIndex b' = writerIndex b \<and> length (buf_data b') = writerIndex b + len"
proof -
  note D = buf_invD [OF inv]
  let ?b = "b\<lparr>buf_data := take (writerIndex b + len) (buf_data b)
              @ replicate (writerIndex b + len - length (buf_data b)) 0\<rparr>"
  have lt: "writerIndex b + len < size_mod" "len + kCheapPrepend < size_mod"
    "writableBytes b + prependableBytes b < size_mod"
    using fits len D inv grow max_size_double kCheapPrepend_def by simp_all
  have "makeSpace len b = buf_resize (writerIndex b + len) b"
    using grow lt by (simp add: makeSpace_def sz_simps)
  then have "makeSpace len b = Inr ?b"
    using fits by (simp add: buf_resize_def)
  moreover have gt: "length (buf_data b) < writerIndex b + len"
    using short inv by simp
  moreover from gt have l: "length (buf_data ?b) = writerIndex b + len"
    by simp
  moreover have "buf_inv ?b"
    using l D fits gt unfolding buf_inv_def by auto
  moreover have "content ?b = content b"
    using short inv D by (simp add: content_def)
  ultimately show ?thesis by auto
qed

lemma makeSpace_move:
  assumes inv: "buf_inv b" and len: "len \<le> max_size" and short: "writableBytes b < len"
    and room: "len + kCheapPrepend \<le> writableBytes b + prependableBytes b"
  shows "\<exists>b'. makeSpace len b = Inr b' \<and> buf_inv b' \<and> content b' = content b
    \<and> writerIndex b' = kCheapPrepend + length (content b)
    \<and> length (buf_data b') = length (buf_data b)"
proof -
  note D = buf_invD [OF inv]
  have r: "kCheapPrepend < readerIndex b"
    using short room by (simp add: prependableBytes_def)
  have lt: "len + kCheapPrepend < size_mod"
    "writableBytes b + prependableBytes b < size_mod" "kCheapPrepend + length (content b) < size_mod"
    using len D inv r max_size_double
    by (simp_all add: kCheapPrepend_def prependableBytes_def)
  let ?b1 = "b\<lparr>buf_data := overwrite kCheapPrepend (content b) (buf_data b)\<rparr>"
  let ?b2 = "?b1\<lparr>readerIndex := kCheapPrepend, writerIndex := kCheapPrepend + length (content b)\<rparr>"
  have fit: "kCheapPrepend + length (content b) \<le> length (buf_data b)"
    using r D inv by simp
  have slice: "buf_slice (readerIndex b) (writerIndex b) b = Inr (content b)"
    using D by (simp add: buf_slice_def content_def)
  have inv2: "buf_inv ?b2"
    using fit D unfolding buf_inv_def by simp
  have "makeSpace len b = Inr ?b2"
    using room lt r slice fit inv inv2
    by (simp add: makeSpace_def sz_simps buf_copy_def Let_def)
  moreover have "content ?b2 = content b"
    using fit by (simp add: content_def [of ?b2])
  ultimately show ?thesis using inv2 fit by auto
qed

lemma ensureWritableBytes_cases:
  assumes inv: "buf_inv b" and len: "len \<le> max_size"
  obtains (ok) c where "ensureWritableBytes len b = Inr c" "buf_inv c" "content c = content b"
      "len \<le> writableBytes c" "used c \<le> used b"
    | (full) "ensureWritableBytes len b = Inl LengthError" "max_size < writerIndex b + len"
proof -
  note D = buf_invD [OF inv]
  consider "len \<le> writableBytes b"
    | "writableBytes b < len" "writableBytes b + prependableBytes b < len + kCheapPrepend"
      "writerIndex b + len \<le> max_size"
    | "writableBytes b < len" "writableBytes b + prependableBytes b < len + kCheapPrepend"
      "max_size < writerIndex b + len"
    | "writableBytes b < len" "len + kCheapPrepend \<le> writableBytes b + prependableBytes b"
    by linarith
  then show thesis
  proof cases
    case 1
    then show thesis using inv ok by (simp add: ensureWritableBytes_def)
  next
    case 2
    from makeSpace_resize [OF inv len 2] obtain c where
      c: "makeSpace len b = Inr c" "buf_inv c" "content c = content b"
      "writerIndex c = writerIndex b" "length (buf_data c) = writerIndex b + len" by blast
    show thesis
      by (rule ok [of c]) (use c 2 in \<open>simp_all add: ensureWritableBytes_def used_def\<close>)
  next
    case 3
    have "len + kCheapPrepend < size_mod" "writerIndex b + len < size_mod"
      "writableBytes b + prependableBytes b < size_mod"
      using len D inv max_size_double by (simp_all add: kCheapPrepend_def prependableBytes_def)
    with 3 have "ensureWritableBytes len b = Inl LengthError"
      by (simp add: ensureWritableBytes_def makeSpace_def buf_resize_def szadd_small)
    then show thesis using full 3(3) by simp
  next
    case 4
    from makeSpace_move [OF inv len 4] obtain c where
      c: "makeSpace len b = Inr c" "buf_inv c" "content c = content b"
      "writerIndex c = kCheapPrepend + length (content b)"
      "length (buf_data c) = length (buf_data b)" by blast
    have "len \<le> writableBytes c" and "used c \<le> used b"
      using c 4 inv D(1,2) by (simp_all add: prependableBytes_def used_def)
    then show thesis using c 4 ok by (simp add: ensureWritableBytes_def)
  qed
qed

lemma buf_append_in_place:
  assumes ens: "ensureWritableBytes len b = Inr c" and inv: "buf_inv c"
    and room: "len \<le> writableBytes c" and mem: "len \<le> length mem"
  shows "\<exists>b'. buf_append mem len b = Inr b' \<and> buf_inv b' \<and> content b' = content c @ take len mem
    \<and> used b' \<le> used c + len"
proof -
  note D = buf_invD [OF inv]
  let ?d = "c\<lparr>buf_data := overwrite (writerIndex c) (take len mem) (buf_data c)\<rparr>"
  let ?e = "?d\<lparr>writerIndex := writerIndex c + len\<rparr>"
  have fit: "writerIndex c + len \<le> length (buf_data c)"
    using room inv D by auto
  have invd: "buf_inv ?d" using fit mem D unfolding buf_inv_def by simp
  have "hasWritten len ?d = Inr ?e"
    using invd fit mem D room inv by (simp add: hasWritten_def sz_simps)
  then have "buf_append mem len b = Inr ?e"
    using ens mem fit by (simp add: buf_append_def buf_copy_def beginWrite_def)
  moreover have "buf_inv ?e" using fit mem D unfolding buf_inv_def by simp
  moreover have "content ?e = content c @ take len mem"
  proof -
    have "take (writerIndex c + len) (overwrite (writerIndex c) (take len mem) (buf_data c))
      = take (writerIndex c) (buf_data c) @ take len mem"
      using fit mem by simp
    then show ?thesis
      using D(1,2) by (simp add: content_def take_drop)
  qed
  moreover have "used ?e \<le> used c + len" by (simp add: used_def)
  ultimately show ?thesis by blast
qed

lemma buf_append_ok:
  assumes inv: "buf_inv b" and mem: "len \<le> length mem" and fits: "writerIndex b + len \<le> max_size"
  shows "\<exists>b'. buf_append mem len b = Inr b' \<and> buf_inv b' \<and> content b' = content b @ take len mem
    \<and> used b' \<le> used b + len"
proof -
  have len: "len \<le> max_size" using fits by simp
  obtain c where c: "ensureWritableBytes len b = Inr c" "buf_inv c"
    "content c = content b" "len \<le> writableBytes c" "used c \<le> used b"
    using fits by (auto intro: ensureWritableBytes_cases [OF inv len])
  from buf_append_in_place [OF c(1,2,4) mem] c(3,5) show ?thesis by fastforce
qed

text \<open>Appending fails only where \<open>std::vector\<close> cannot grow, or where the caller's memory ends.\<close>

lemma buf_append_error:
  assumes inv: "buf_inv b" and len: "len \<le> max_size" and err: "buf_append mem len b = Inl e"
  shows "e = LengthError \<and> max_size < writerIndex b + len \<or> e = OutOfBounds \<and> length mem < len"
  using inv len
proof (cases rule: ensureWritableBytes_cases [of b len])
  case (ok c)
  then show ?thesis
    using buf_append_in_place [OF ok(1,2,4), of mem] err
    by (cases "length mem < len") (auto simp: buf_append_def)
next
  case full
  with err show ?thesis by (simp add: buf_append_def)
qed

lemma buf_append_success:
  assumes inv: "buf_inv b" and len: "len \<le> max_size" and app: "buf_append mem len b = Inr b'"
  shows "len \<le> length mem \<and> buf_inv b' \<and> content b' = content b @ take len mem"
proof -
  from app have mem: "len \<le> length mem"
    by (auto simp: buf_append_def bindR_eq_Inr split: if_splits)
  from app obtain c where c: "ensureWritableBytes len b = Inr c"
    by (auto simp: buf_append_def bindR_eq_Inr)
  from inv len have "buf_inv c \<and> content c = content b \<and> len \<le> writableBytes c"
    by (cases rule: ensureWritableBytes_cases [of b len]) (use c in auto)
  with buf_append_in_place [OF c _ _ mem] app mem show ?thesis by auto
qed

lemma prepend_ok:
  assumes inv: "buf_inv b" and mem: "len \<le> length mem" and len: "len \<le> readerIndex b"
  shows "\<exists>b'. prepend mem len b = Inr b' \<and> buf_inv b' \<and> content b' = take len mem @ content b"
proof -
  note D = buf_invD [OF inv]
  let ?c = "b\<lparr>readerIndex := readerIndex b - len,
             buf_data := overwrite (readerIndex b - len) (take len mem) (buf_data b)\<rparr>"
  have fit: "readerIndex b - len + len \<le> length (buf_data b)" using len D by simp
  have "prepend mem len b = Inr ?c"
    using mem len fit D by (simp add: prepend_def prependableBytes_def sz_simps buf_copy_def)
  moreover have "buf_inv ?c"
    using fit mem len D unfolding buf_inv_def by simp
  moreover have "content ?c = take len mem @ content b"
    using len mem fit D by (simp add: content_def)
  ultimately show ?thesis by blast
qed

lemma prepend_fails: "readerIndex b < len \<Longrightarrow> prepend mem len b = Inl AssertFailed"
  by (simp add: prepend_def prependableBytes_def)

section \<open>The integer codecs\<close>

lemma length_le_bytes [simp]: "length (le_bytes n x) = n"
  by (induction n arbitrary: x) auto

lemma length_be_bytes [simp]: "length (be_bytes n x) = n"
  by (simp add: be_bytes_def)

lemma length_obj_bytes [simp]: "length (obj_bytes host n x) = n"
  by (simp add: obj_bytes_def split: endianness.splits)

lemma le_value_bound: "le_value bs < 256 ^ length bs"
proof (induction bs)
  case Nil
  then show ?case by simp
next
  case (Cons b bs)
  have "unat b < 256" using unat_bound [of b] by simp
  with Cons show ?case by simp
qed

lemma le_value_le_bytes: "le_value (le_bytes n x) = x mod 256 ^ n"
proof (induction n arbitrary: x)
  case 0
  then show ?case by simp
next
  case (Suc n)
  have "unat (word_of_nat x :: byte) = x mod 256"
    by (simp add: unat_of_nat)
  with Suc show ?case by (simp add: mod_mult2_eq mult.commute)
qed

lemma le_bytes_le_value: "length bs = n \<Longrightarrow> le_bytes n (le_value bs) = bs"
proof (induction n arbitrary: bs)
  case 0
  then show ?case by simp
next
  case (Suc n)
  then obtain b cs where bs: "bs = b # cs" "length cs = n" by (cases bs) auto
  have "unat b < 256" using unat_bound [of b] by simp
  moreover have "word_of_nat (unat b + 256 * le_value cs) = b"
  proof -
    have "(word_of_nat (256 * le_value cs) :: byte) = word_of_nat (le_value cs) * word_of_nat 256"
      by simp
    also have "(word_of_nat 256 :: byte) = 0" by simp
    finally show ?thesis by simp
  qed
  ultimately show ?case using Suc.IH [OF bs(2)] bs by simp
qed

lemma unat_word_of_le_value:
  assumes "LENGTH('a::len) = 8 * length bs"
  shows "unat (word_of_nat (le_value bs) :: 'a word) = le_value bs"
proof -
  have "le_value bs < 2 ^ LENGTH('a)"
    using le_value_bound [of bs] assms by (simp add: power_mult)
  then show ?thesis by (simp add: unat_of_nat)
qed

lemma swapped_object:
  assumes "LENGTH('a::len) = 8 * n"
  shows "le_bytes n (unat (word_of_nat (bswap n v) :: 'a word)) = be_bytes n v"
  using assms by (simp add: bswap_def unat_word_of_le_value le_bytes_le_value)

lemma swapped_back:
  assumes "LENGTH('a::len) = 8 * n"
  shows "(word_of_nat (bswap n (unat (word_of_nat (le_value (be_bytes n (unat x))) :: 'a word)))
    :: 'a word) = x"
proof -
  have "unat x < 256 ^ n"
    using unat_bound [of x] assms by (simp add: power_mult)
  then show ?thesis
    using assms by (simp add: unat_word_of_le_value bswap_def be_bytes_def le_bytes_le_value
      le_value_le_bytes)
qed

lemma unswapped_back:
  assumes "LENGTH('a::len) = 8 * n"
  shows "(word_of_nat (le_value (rev (be_bytes n (unat x)))) :: 'a word) = x"
proof -
  have "unat x < 256 ^ n"
    using unat_bound [of x] assms by (simp add: power_mult)
  then show ?thesis by (simp add: be_bytes_def le_value_le_bytes)
qed

text \<open>On either kind of host the bytes on the wire are big-endian, and they read back.\<close>

lemmas endian_defs = obj_bytes_def obj_value_def hostToNetwork64_def hostToNetwork32_def
  hostToNetwork16_def networkToHost64_def networkToHost32_def networkToHost16_def

lemma network_bytes [simp]:
  "obj_bytes host 8 (unat (hostToNetwork64 host x)) = be_bytes 8 (unat x)"
  "obj_bytes host 4 (unat (hostToNetwork32 host y)) = be_bytes 4 (unat y)"
  "obj_bytes host 2 (unat (hostToNetwork16 host z)) = be_bytes 2 (unat z)"
  by (simp_all add: endian_defs swapped_object split: endianness.splits)

lemma network_value [simp]:
  "networkToHost64 host (word_of_nat (obj_value host (be_bytes 8 (unat x)))) = x"
  "networkToHost32 host (word_of_nat (obj_value host (be_bytes 4 (unat y)))) = y"
  "networkToHost16 host (word_of_nat (obj_value host (be_bytes 2 (unat z)))) = z"
  by (simp_all add: endian_defs swapped_back unswapped_back split: endianness.splits)

text \<open>Reading an integer that stands at the front of the contents takes exactly its bytes.\<close>

lemma read_front:
  assumes inv: "buf_inv b" and front: "content b = bs @ rest"
  shows "buf_slice (peek b) (peek b + length bs) b = Inr bs"
    and "length bs \<le> readableBytes b"
    and "\<exists>d. retrieve (length bs) b = Inr d \<and> buf_inv d \<and> content d = rest"
proof -
  have n: "length bs \<le> length (content b)" using front by simp
  show "buf_slice (peek b) (peek b + length bs) b = Inr bs"
    using buf_slice_peek [OF inv n] front by simp
  show "length bs \<le> readableBytes b"
    using n readableBytes_content [OF inv] by simp
  show "\<exists>d. retrieve (length bs) b = Inr d \<and> buf_inv d \<and> content d = rest"
    using retrieve_ok [OF inv n] front by auto
qed

lemma readInt64_front:
  assumes "buf_inv b" and "content b = be_bytes 8 (unat x) @ rest"
  shows "\<exists>d. readInt64 host b = Inr (x, d) \<and> buf_inv d \<and> content d = rest"
  using read_front [OF assms]
  by (auto simp: readInt64_def peekInt64_def retrieveInt64_def simp del: readableBytes_inv)

lemma readInt32_front:
  assumes "buf_inv b" and "content b = be_bytes 4 (unat x) @ rest"
  shows "\<exists>d. readInt32 host b = Inr (x, d) \<and> buf_inv d \<and> content d = rest"
  using read_front [OF assms]
  by (auto simp: readInt32_def peekInt32_def retrieveInt32_def simp del: readableBytes_inv)

lemma readInt16_front:
  assumes "buf_inv b" and "content b = be_bytes 2 (unat x) @ rest"
  shows "\<exists>d. readInt16 host b = Inr (x, d) \<and> buf_inv d \<and> content d = rest"
  using read_front [OF assms]
  by (auto simp: readInt16_def peekInt16_def retrieveInt16_def simp del: readableBytes_inv)

lemma readInt8_front:
  assumes "buf_inv b" and "content b = x # rest"
  shows "\<exists>d. readInt8 b = Inr (x, d) \<and> buf_inv d \<and> content d = rest"
  using read_front [OF assms(1), of "[x]" rest] assms(2)
  by (auto simp: readInt8_def peekInt8_def retrieveInt8_def simp del: readableBytes_inv)

section \<open>Line searches\<close>

lemma buf_slice_from:
  assumes inv: "buf_inv b" and "readerIndex b \<le> s" and "s \<le> writerIndex b"
  shows "buf_slice s (writerIndex b) b = Inr (drop (s - readerIndex b) (content b))"
  using assms buf_invD(2) [OF inv] by (simp add: buf_slice_def content_def drop_take)

lemma findCRLF_from_ok:
  assumes inv: "buf_inv b" and s: "readerIndex b \<le> s" "s \<le> writerIndex b"
  defines "bs \<equiv> drop (s - readerIndex b) (content b)"
  shows "findCRLF_from s b =
    Inr (if cpp_search kCRLF bs = length bs then None else Some (s + cpp_search kCRLF bs))"
proof -
  have "length bs = writerIndex b - s" using inv s by (simp add: bs_def)
  then show ?thesis
    using s buf_slice_from [OF inv s]
    by (auto simp: findCRLF_from_def peek_def beginWrite_def Let_def bs_def [symmetric])
qed

lemma findCRLF_eq_from: "buf_inv b \<Longrightarrow> findCRLF b = findCRLF_from (readerIndex b) b"
  using buf_invD(1) [of b] by (simp add: findCRLF_def findCRLF_from_def peek_def beginWrite_def)

lemma findEOL_from_ok:
  assumes inv: "buf_inv b" and s: "readerIndex b \<le> s" "s \<le> writerIndex b"
  shows "findEOL_from s b =
    Inr (map_option (\<lambda>i. s + i) (memchr 10 (drop (s - readerIndex b) (content b))))"
  using s buf_slice_from [OF inv s] by (simp add: findEOL_from_def peek_def beginWrite_def)

lemma findEOL_eq_from: "buf_inv b \<Longrightarrow> findEOL b = findEOL_from (readerIndex b) b"
  using buf_invD(1) [of b] by (simp add: findEOL_def findEOL_from_def peek_def beginWrite_def)

section \<open>The scatter read\<close>

lemma readFd_bytes_short:
  assumes inv: "buf_inv b" and fit: "length bs \<le> writableBytes b"
    and rd: "readv (readFd_iov (writableBytes b)) = IoBytes bs"
  shows "\<exists>b'. readFd readv b = Inr (IoBytes bs, b') \<and> buf_inv b' \<and> content b' = content b @ bs"
proof -
  have ens: "ensureWritableBytes (length bs) b = Inr b"
    using fit by (simp add: ensureWritableBytes_def)
  from buf_append_in_place [OF ens inv fit, of bs] obtain b' where
    b': "buf_append bs (length bs) b = Inr b'" "buf_inv b'" "content b' = content b @ bs" by auto
  have fits: "writerIndex b + length bs \<le> length (buf_data b)"
    using fit inv buf_invD(2) [OF inv] by auto
  let ?d = "b\<lparr>buf_data := overwrite (writerIndex b) bs (buf_data b)\<rparr>"
  have "b' = ?d\<lparr>writerIndex := szadd (writerIndex b) (length bs)\<rparr>"
    using b'(1) ens fits
    by (simp add: buf_append_def buf_copy_def beginWrite_def hasWritten_def cassert_eq_Inr)
  with b'(2,3) fits fit rd show ?thesis by (simp add: readFd_def Let_def buf_copy_def)
qed

lemma readFd_bytes_long:
  assumes inv: "buf_inv b" and long: "writableBytes b < length bs" and small: "length bs \<le> max_size"
    and fits: "writerIndex b + length bs \<le> max_size"
    and rd: "readv (readFd_iov (writableBytes b)) = IoBytes bs"
  shows "\<exists>b'. readFd readv b = Inr (IoBytes bs, b') \<and> buf_inv b' \<and> content b' = content b @ bs"
proof -
  note D = buf_invD [OF inv]
  let ?w = "writableBytes b"
  have w: "?w = length (buf_data b) - writerIndex b" using inv by simp
  let ?c = "b\<lparr>buf_data := overwrite (writerIndex b) (take ?w bs) (buf_data b)\<rparr>"
  let ?d = "?c\<lparr>writerIndex := length (buf_data ?c)\<rparr>"
  have len: "length (buf_data ?c) = length (buf_data b)" using long D w by simp
  have invd: "buf_inv ?d" using D len unfolding buf_inv_def by simp
  have "overwrite (writerIndex b) (take ?w bs) (buf_data b)
      = take (writerIndex b) (buf_data b) @ take ?w bs"
    using long w D by (simp add: overwrite_def)
  then have cd: "content ?d = content b @ take ?w bs"
    using D len w by (simp add: content_def take_drop)
  have "writerIndex ?d + (length bs - ?w) \<le> max_size"
    using len fits long w D by simp
  from buf_append_ok [OF invd _ this, of "drop ?w bs"] obtain b' where
    b': "buf_append (drop ?w bs) (length bs - ?w) ?d = Inr b'" "buf_inv b'"
    "content b' = content ?d @ drop ?w bs" by auto
  have sub: "szsub (length bs) ?w = length bs - ?w"
    using long small max_size_lt by (intro szsub_small) linarith+
  have "readFd readv b = Inr (IoBytes bs, b')"
    using rd long b'(1) w D by (simp add: readFd_def Let_def buf_copy_def sub [unfolded w])
  with b' cd show ?thesis by auto
qed

lemma readFd_room:
  assumes inv: "buf_inv b" and fits: "readv_fits readv" and room: "length (buf_data b) + extrabuf_size \<le> max_size"
    and rd: "readv (readFd_iov (writableBytes b)) = IoBytes bs"
  shows "\<exists>b'. readFd readv b = Inr (IoBytes bs, b') \<and> buf_inv b' \<and> content b' = content b @ bs"
proof -
  note D = buf_invD [OF inv]
  have "length bs \<le> sum_list (readFd_iov (writableBytes b))"
    using fits rd unfolding readv_fits_def by blast
  then have le: "writerIndex b + length bs \<le> length (buf_data b) + extrabuf_size"
    using D inv by (auto simp: readFd_iov_def split: if_splits)
  show ?thesis
  proof (cases "length bs \<le> writableBytes b")
    case True
    show ?thesis by (rule readFd_bytes_short [where readv = readv, OF inv True rd])
  next
    case False
    show ?thesis
      by (rule readFd_bytes_long [where readv = readv, OF inv _ _ _ rd]) (use False le room in auto)
  qed
qed

section \<open>Every operation keeps a buffer well formed\<close>

text \<open>
  What the users of a buffer may do to it, as far as it returns. The lengths they pass are those of
  objects in memory.
\<close>

inductive buf_step :: "buffer \<Rightarrow> buffer \<Rightarrow> bool" where
  swap: "buf_inv rhs \<Longrightarrow> buf_step b (fst (buf_swap b rhs))"
| retrieve_all: "buf_step b (retrieveAll b)"
| retrieves: "retrieve len b = Inr b' \<Longrightarrow> buf_step b b'"
| until: "retrieveUntil end b = Inr b' \<Longrightarrow> buf_step b b'"
| retrieve_int: "b' \<in> {c. retrieveInt64 b = Inr c \<or> retrieveInt32 b = Inr c \<or> retrieveInt16 b = Inr c \<or> retrieveInt8 b = Inr c} \<Longrightarrow>
    buf_step b b'"
| as_string: "retrieveAsString len b = Inr (bs, b') \<or> retrieveAllAsString b = Inr (bs, b') \<Longrightarrow> buf_step b b'"
| writable: "len \<le> max_size \<Longrightarrow> ensureWritableBytes len b = Inr b' \<Longrightarrow> buf_step b b'"
| has_written: "hasWritten len b = Inr b' \<Longrightarrow> buf_step b b'"
| unwrites: "unwrite len b = Inr b' \<Longrightarrow> buf_step b b'"
| append: "len \<le> max_size \<Longrightarrow> buf_append mem len b = Inr b' \<Longrightarrow> buf_step b b'"
| append_int: "appendInt64 host x64 b = Inr b' \<or> appendInt32 host x32 b = Inr b' \<or> appendInt16 host x16 b = Inr b' \<or> appendInt8 x8 b = Inr b' \<Longrightarrow>
    buf_step b b'"
| prepends: "prepend mem len b = Inr b' \<Longrightarrow> buf_step b b'"
| prepend_int: "prependInt64 host x64 b = Inr b' \<or> prependInt32 host x32 b = Inr b' \<or> prependInt16 host x16 b = Inr b' \<or> prependInt8 x8 b = Inr b' \<Longrightarrow>
    buf_step b b'"
| read_int: "readInt64 host b = Inr (x64, b') \<or> readInt32 host b = Inr (x32, b') \<or> readInt16 host b = Inr (x16, b') \<or> readInt8 b = Inr (x8, b') \<Longrightarrow>
    buf_step b b'"
| read_fd: "readv_fits readv \<Longrightarrow> readFd readv b = Inr (answer, b') \<Longrightarrow> buf_step b b'"

lemma retrieve_inv: "buf_inv b \<Longrightarrow> retrieve n b = Inr b' \<Longrightarrow> buf_inv b'"
  using retrieve_ok [of b n] retrieve_fails [of b n] by (cases "n \<le> length (content b)") auto

lemma append_inv: "buf_inv b \<Longrightarrow> len \<le> max_size \<Longrightarrow> buf_append mem len b = Inr b' \<Longrightarrow> buf_inv b'"
  by (simp add: buf_append_success)

lemma append_small_inv:
  assumes "buf_inv b"
  shows "buf_append mem 8 b = Inr b' \<Longrightarrow> buf_inv b'" "buf_append mem 4 b = Inr b' \<Longrightarrow> buf_inv b'"
    "buf_append mem 2 b = Inr b' \<Longrightarrow> buf_inv b'" "buf_append mem (Suc 0) b = Inr b' \<Longrightarrow> buf_inv b'"
  using assms by (auto simp: max_size_def elim!: append_inv [rotated 2])

lemma prepend_inv: "buf_inv b \<Longrightarrow> prepend mem len b = Inr b' \<Longrightarrow> buf_inv b'"
  using prepend_ok [of b len mem] by (fastforce simp: prepend_def prependableBytes_def cassert_eq_Inr Let_def split: if_splits)

lemma written_inv:
  assumes inv: "buf_inv b" and run: "hasWritten n b = Inr b'"
  shows "buf_inv b'"
proof -
  note D = buf_invD [OF inv]
  have fit: "writerIndex b + n \<le> length (buf_data b)" using run inv D(2) by (auto simp: hasWritten_def cassert_eq_Inr)
  then have "szadd (writerIndex b) n = writerIndex b + n" using D(6) by (intro szadd_small) linarith
  with run have "b' = b\<lparr>writerIndex := writerIndex b + n\<rparr>" by (simp add: hasWritten_def cassert_eq_Inr)
  with fit D(1,3,4) show ?thesis by (simp add: buf_inv_def)
qed

lemma readFd_inv:
  assumes inv: "buf_inv b" and fits: "readv_fits readv" and run: "readFd readv b = Inr (answer, b')"
  shows "buf_inv b'"
proof (cases "readv (readFd_iov (writableBytes b))")
  case (IoErr e)
  with run inv show ?thesis by (simp add: readFd_def)
next
  case (IoBytes bs)
  show ?thesis
  proof (cases "length bs \<le> writableBytes b")
    case True
    from readFd_bytes_short [where readv = readv, OF inv True IoBytes] run show ?thesis by auto
  next
    case False
    let ?w = "writableBytes b"
    have "length bs \<le> sum_list (readFd_iov ?w)" using fits IoBytes unfolding readv_fits_def by blast
    then have small: "length bs \<le> max_size" using inv buf_invD(2,4) [OF inv]
      by (auto simp: readFd_iov_def extrabuf_size_def max_size_def split: if_splits)
    with False have sub: "szsub (length bs) ?w = length bs - ?w" using max_size_lt by (intro szsub_small) linarith+
    let ?c = "b\<lparr>buf_data := overwrite (writerIndex b) (take ?w bs) (buf_data b)\<rparr>"
    let ?d = "?c\<lparr>writerIndex := length (buf_data ?c)\<rparr>"
    have app: "buf_append (drop ?w bs) (szsub (length bs) ?w) ?d = Inr b'"
      using run IoBytes False by (auto simp: readFd_def Let_def bindR_eq_Inr buf_copy_def split: if_splits)
    have w: "?w = length (buf_data b) - writerIndex b" using inv by simp
    have "buf_inv ?d" unfolding w using False w buf_invD(1-4) [OF inv] by (simp add: buf_inv_def)
    then show ?thesis by (rule append_inv [OF _ _ app [unfolded sub]]) (use small in linarith)
  qed
qed

lemma buf_step_inv:
  assumes "buf_inv b" and "buf_step b b'"
  shows "buf_inv b'"
  using assms(2)
proof cases
  case (swap rhs)
  then show ?thesis by (simp add: buf_swap_def buf_inv_def)
next
  case (writable len)
  with assms(1) show ?thesis by (cases rule: ensureWritableBytes_cases [of b len]) auto
next
  case (unwrites len)
  with assms(1) unwrite_ok [of b len] show ?thesis
    by (auto simp: unwrite_def cassert_eq_Inr)
next
  case (read_fd readv answer)
  with readFd_inv [OF assms(1)] show ?thesis by blast
qed (use assms(1) in \<open>auto simp: retrieveUntil_def retrieveInt64_def retrieveInt32_def retrieveInt16_def retrieveInt8_def
  retrieveAsString_def retrieveAllAsString_def appendInt64_def appendInt32_def appendInt16_def appendInt8_def
  prependInt64_def prependInt32_def prependInt16_def prependInt8_def readInt64_def readInt32_def readInt16_def readInt8_def
  cassert_eq_Inr bindR_eq_Inr Let_def dest: retrieve_inv append_inv append_small_inv prepend_inv written_inv\<close>)

interpretation buffers: transition_system "\<lambda>b. \<exists>n \<le> max_size. mkBuffer n = Inr b" buf_step buf_inv
proof unfold_locales
  fix b
  assume "\<exists>n \<le> max_size. mkBuffer n = Inr b"
  then obtain n where n: "n \<le> max_size" "mkBuffer n = Inr b" by blast
  have "kCheapPrepend + n < size_mod" using n(1) by (simp add: kCheapPrepend_def max_size_def size_mod_def)
  with n(2) have "n + kCheapPrepend \<le> max_size" by (auto simp: mkBuffer_def szadd_small split: if_splits)
  with mkBuffer_ok [of n] n(2) show "buf_inv b" by auto
qed (rule buf_step_inv)

text \<open>A length that is no object's wraps around: the vector is cut short and the assertion is satisfied.\<close>

lemma ensureWritable_wraps:
  assumes inv: "buf_inv b" and w: "9 \<le> writerIndex b"
  shows "\<exists>b'. ensureWritableBytes (size_mod - 9) b = Inr b' \<and> length (buf_data b') < writerIndex b'"
proof -
  note D = buf_invD [OF inv]
  let ?b = "b\<lparr>buf_data := take (writerIndex b - 9) (buf_data b)\<rparr>"
  have turn: "writerIndex b + (size_mod - 9) = (writerIndex b - 9) + size_mod" using w by (simp add: size_mod_def)
  have "szadd (writableBytes b) (prependableBytes b) \<le> length (buf_data b)"
    "szadd (size_mod - 9) kCheapPrepend = size_mod - 1"
    using D inv w by (simp_all add: szadd_def prependableBytes_def kCheapPrepend_def size_mod_def max_size_def)
  moreover have "szadd (writerIndex b) (size_mod - 9) = writerIndex b - 9"
    unfolding szadd_def turn mod_add_self2 using D by (intro mod_less) linarith
  note sums = calculation this
  have "makeSpace (size_mod - 9) b = Inr ?b"
  proof -
    have "szadd (writableBytes b) (prependableBytes b) < szadd (size_mod - 9) kCheapPrepend"
      using sums(1) D(4) unfolding sums(2) by (simp add: size_mod_def max_size_def)
    moreover have "\<not> max_size < writerIndex b - 9" "writerIndex b - 9 - length (buf_data b) = 0" using D(2,4) by linarith+
    ultimately show ?thesis unfolding makeSpace_def buf_resize_def sums(3) by simp
  qed
  moreover have "writableBytes ?b = size_mod - 9"
    using D w by (simp add: writableBytes_def szsub_def size_mod_def max_size_def)
  moreover have "writableBytes b < size_mod - 9" using D inv by (simp add: size_mod_def max_size_def)
  ultimately have "ensureWritableBytes (size_mod - 9) b = Inr ?b" by (simp add: ensureWritableBytes_def)
  then show ?thesis using D w by (intro exI [of _ ?b]) simp
qed

section \<open>The contract: a queue of bytes\<close>

text \<open>
  What the users of a buffer rely on: bytes leave it in the order they came in. \<open>put\<close> takes the
  memory behind a pointer and a length; \<open>used\<close> bounds what the next \<open>put\<close> needs.
\<close>

datatype qop = Put "byte list" | Take nat

fun run_queue ::
  "(byte list \<Rightarrow> nat \<Rightarrow> 'b \<Rightarrow> 'b res) \<Rightarrow> (nat \<Rightarrow> 'b \<Rightarrow> (byte list \<times> 'b) res)
    \<Rightarrow> qop list \<Rightarrow> 'b \<Rightarrow> (byte list \<times> 'b) res" where
  "run_queue put take_out [] b = Inr ([], b)"
| "run_queue put take_out (Put bs # ops) b =
     bindR (put bs (length bs) b) (run_queue put take_out ops)"
| "run_queue put take_out (Take n # ops) b =
     bindR (take_out n b) (\<lambda>(out, b'). bindR (run_queue put take_out ops b')
       (\<lambda>(outs, b''). Inr (out @ outs, b'')))"

text \<open>The specification: the same script on a plain list; it fails where too much is taken.\<close>

fun spec_queue :: "qop list \<Rightarrow> byte list \<Rightarrow> (byte list \<times> byte list) option" where
  "spec_queue [] xs = Some ([], xs)"
| "spec_queue (Put bs # ops) xs = spec_queue ops (xs @ bs)"
| "spec_queue (Take n # ops) xs =
     (if n \<le> length xs
      then map_option (\<lambda>(outs, r). (take n xs @ outs, r)) (spec_queue ops (drop n xs)) else None)"

fun put_bytes :: "qop list \<Rightarrow> byte list" where
  "put_bytes [] = []"
| "put_bytes (Put bs # ops) = bs @ put_bytes ops"
| "put_bytes (Take n # ops) = put_bytes ops"

lemma spec_queue_fifo: "spec_queue ops xs = Some (out, r) \<Longrightarrow> out @ r = xs @ put_bytes ops"
  by (induction ops xs arbitrary: out rule: spec_queue.induct) (fastforce split: if_splits)+

locale byte_queue =
  fixes wf :: "'b \<Rightarrow> bool"
    and bytes :: "'b \<Rightarrow> byte list"
    and extent :: "'b \<Rightarrow> nat"
    and put :: "byte list \<Rightarrow> nat \<Rightarrow> 'b \<Rightarrow> 'b res"
    and take_out :: "nat \<Rightarrow> 'b \<Rightarrow> (byte list \<times> 'b) res"
  assumes put_law: "wf b \<Longrightarrow> len \<le> length mem \<Longrightarrow> extent b + len \<le> max_size \<Longrightarrow>
      \<exists>b'. put mem len b = Inr b' \<and> wf b' \<and> bytes b' = bytes b @ take len mem
        \<and> extent b' \<le> extent b + len"
    and take_law: "wf b \<Longrightarrow> n \<le> length (bytes b) \<Longrightarrow>
      \<exists>b'. take_out n b = Inr (take n (bytes b), b') \<and> wf b' \<and> bytes b' = drop n (bytes b)
        \<and> extent b' \<le> extent b"
begin

lemma script_refines:
  assumes "spec_queue ops (bytes b) = Some (out, r)" and "wf b"
    and "extent b + length (put_bytes ops) \<le> max_size"
  shows "\<exists>b'. run_queue put take_out ops b = Inr (out, b') \<and> wf b' \<and> bytes b' = r"
  using assms
proof (induction ops arbitrary: b out)
  case Nil
  then show ?case by simp
next
  case (Cons op ops)
  show ?case
  proof (cases op)
    case (Put bs)
    with Cons.prems put_law [of b "length bs" bs] obtain b' where
      b': "put bs (length bs) b = Inr b'" "wf b'" "bytes b' = bytes b @ bs"
      "extent b' \<le> extent b + length bs" by fastforce
    with Cons.IH [of b' out] Cons.prems Put show ?thesis by simp
  next
    case (Take n)
    with Cons.prems(1) have n: "n \<le> length (bytes b)" by (simp split: if_splits)
    with take_law [OF Cons.prems(2) n] obtain b' where
      b': "take_out n b = Inr (take n (bytes b), b')" "wf b'" "bytes b' = drop n (bytes b)"
      "extent b' \<le> extent b" by blast
    from Cons.prems(1) Take n obtain outs where
      o: "spec_queue ops (drop n (bytes b)) = Some (outs, r)" "out = take n (bytes b) @ outs" by auto
    with Cons.IH [of b' outs] Cons.prems b' Take show ?thesis by fastforce
  qed
qed

end

interpretation bq: byte_queue buf_inv content used buf_append retrieveAsString
proof unfold_locales
  fix b :: buffer and len and mem :: "byte list"
  assume "buf_inv b" "len \<le> length mem" "used b + len \<le> max_size"
  then show "\<exists>b'. buf_append mem len b = Inr b' \<and> buf_inv b'
    \<and> content b' = content b @ take len mem \<and> used b' \<le> used b + len"
    using buf_append_ok [of b len mem] by (simp add: used_def)
qed (rule retrieveAsString_ok)

section \<open>Properties\<close>

abbreviation mk_buf :: "byte list \<Rightarrow> nat \<Rightarrow> nat \<Rightarrow> buffer" where
  "mk_buf d r w \<equiv> \<lparr>buf_data = d, readerIndex = r, writerIndex = w\<rparr>"

text \<open>
  C1. Refinement of the byte queue: any script of \<open>append\<close> and \<open>retrieveAsString\<close> that a plain
  list of bytes can perform, a \<open>Buffer\<close> performs without a failed assertion and without an
  out-of-range access, returns the same bytes, and ends with the same contents, as long as what is
  put in fits an addressable vector.
\<close>

theorem buffer_refines_queue:
  assumes "buf_inv b" and "spec_queue ops (content b) = Some (out, r)"
    and "used b + length (put_bytes ops) \<le> max_size"
  shows "\<exists>b'. run_queue buf_append retrieveAsString ops b = Inr (out, b')
    \<and> buf_inv b' \<and> content b' = r \<and> out @ r = content b @ put_bytes ops"
  using bq.script_refines [OF assms(2,1,3)] spec_queue_fifo [OF assms(2)] by blast

theorem buffer_refines_queue_witness:
  "\<exists>b'. run_queue buf_append retrieveAsString [Put [1, 2, 3], Take 2, Put [4], Take 1]
      (mk_buf (replicate 10 0) 8 8) = Inr ([1, 2, 3], b')
    \<and> buf_inv b' \<and> content b' = [4]
    \<and> [1, 2, 3] @ [4] = content (mk_buf (replicate 10 0) 8 8)
       @ put_bytes [Put [1, 2, 3], Take 2, Put [4], Take 1]"
  by (rule buffer_refines_queue)
    (simp_all add: buf_inv_def content_def used_def kCheapPrepend_def max_size_def)

text \<open>
  C2. Buffers are well formed. Whatever is done to a buffer after its construction (all its
  operations, with lengths of objects in memory): reader and writer index stay in order within the
  vector, and appending is total up to the limits of the language. \<open>append\<close> of \<open>len\<close> bytes either
  succeeds and adds exactly these bytes behind the contents, or throws \<open>length_error\<close> because the
  vector would exceed its maximal size, or reads past the caller's memory: no assertion of
  \<open>makeSpace\<close>, \<open>ensureWritableBytes\<close> or \<open>hasWritten\<close> can fail, on either branch of \<open>makeSpace\<close>. But a
  length close to the largest \<open>size_t\<close> wraps around, passes every assertion and leaves the writer
  index outside of the vector.
\<close>

theorem buffer_wellformed:
  assumes "n \<le> max_size" and "mkBuffer n = Inr b0" and "buf_step\<^sup>*\<^sup>* b0 b"
  shows "readerIndex b \<le> writerIndex b \<and> writerIndex b \<le> length (buf_data b) \<and> length (buf_data b) \<le> max_size
    \<and> (\<forall>mem len. len \<le> max_size \<longrightarrow>
        (case buf_append mem len b of
           Inr b' \<Rightarrow> len \<le> length mem \<and> content b' = content b @ take len mem
         | Inl e \<Rightarrow> e = LengthError \<and> max_size < writerIndex b + len \<or> e = OutOfBounds \<and> length mem < len))
    \<and> (9 \<le> writerIndex b \<longrightarrow>
        (\<exists>b'. ensureWritableBytes (size_mod - 9) b = Inr b' \<and> length (buf_data b') < writerIndex b'))"
proof -
  have inv: "buf_inv b" using buffers.reachable_inv [OF _ assms(3)] assms(1,2) by blast
  have "case buf_append mem len b of
      Inr b' \<Rightarrow> len \<le> length mem \<and> content b' = content b @ take len mem
    | Inl e \<Rightarrow> e = LengthError \<and> max_size < writerIndex b + len \<or> e = OutOfBounds \<and> length mem < len"
    if "len \<le> max_size" for mem len
    using buf_append_error [OF inv that, of mem] buf_append_success [OF inv that, of mem]
    by (cases "buf_append mem len b") simp_all
  with buf_invD(1,2,4) [OF inv] ensureWritable_wraps [OF inv] show ?thesis by blast
qed

theorem buffer_wellformed_witness:
  "\<exists>b0 b1 b2. mkBuffer 2 = Inr b0 \<and> buf_append [7, 8, 9] 3 b0 = Inr b1 \<and> retrieve 1 b1 = Inr b2
    \<and> readerIndex b2 \<le> writerIndex b2 \<and> writerIndex b2 \<le> length (buf_data b2)
    \<and> (case buf_append [7, 8] 2 b2 of Inr b' \<Rightarrow> content b' = content b2 @ [7, 8] | Inl e \<Rightarrow> e = LengthError)"
proof -
  from mkBuffer_ok [of 2] obtain b0 where b0: "mkBuffer 2 = Inr b0" "buf_inv b0" "content b0 = []" "used b0 = kCheapPrepend"
    by (auto simp: kCheapPrepend_def max_size_def)
  have "writerIndex b0 + 3 \<le> max_size" using b0(4) by (auto simp: used_def kCheapPrepend_def max_size_def max_def split: if_splits)
  from buf_append_ok [OF b0(2) _ this, of "[7, 8, 9]"] b0(3) obtain b1 where
    b1: "buf_append [7, 8, 9] 3 b0 = Inr b1" "buf_inv b1" "content b1 = [7, 8, 9]" by auto
  from retrieve_ok [OF b1(2), of 1] obtain b2 where b2: "retrieve 1 b1 = Inr b2" by (auto simp: b1(3))
  have "buf_step b0 b1" using b1(1) by (intro buf_step.append [of 3]) (simp_all add: max_size_def)
  moreover have "buf_step b1 b2" using b2 by (rule buf_step.retrieves)
  ultimately have reach: "buf_step\<^sup>*\<^sup>* b0 b2" by (meson converse_rtranclp_into_rtranclp r_into_rtranclp)
  have "(2 :: nat) \<le> max_size" by (simp add: max_size_def)
  from buffer_wellformed [OF this b0(1) reach] this b0(1) b1(1) b2 show ?thesis
    by (intro exI [of _ b0] exI [of _ b1] exI [of _ b2]) (auto split: sum.splits dest!: spec [of _ "[7, 8]"] spec [of _ 2])
qed

text \<open>
  C3. Round trip of the integer codecs: an integer appended to an empty buffer in network byte
  order is read back unchanged and leaves the buffer empty, for every width, on hosts of either
  byte order; the bytes in between are the big-endian ones.
\<close>

theorem int_codec_roundtrip:
  assumes "buf_inv b" and "content b = []" and "writerIndex b + 8 \<le> max_size"
  shows "(\<exists>c. appendInt64 host x b = Inr c \<and> content c = be_bytes 8 (unat x)
      \<and> (\<exists>d. readInt64 host c = Inr (x, d) \<and> buf_inv d \<and> content d = []))
    \<and> (\<exists>c. appendInt32 host y b = Inr c \<and> content c = be_bytes 4 (unat y)
      \<and> (\<exists>d. readInt32 host c = Inr (y, d) \<and> buf_inv d \<and> content d = []))
    \<and> (\<exists>c. appendInt16 host z b = Inr c \<and> content c = be_bytes 2 (unat z)
      \<and> (\<exists>d. readInt16 host c = Inr (z, d) \<and> buf_inv d \<and> content d = []))
    \<and> (\<exists>c. appendInt8 w b = Inr c \<and> content c = [w]
      \<and> (\<exists>d. readInt8 c = Inr (w, d) \<and> buf_inv d \<and> content d = []))"
proof -
  have app: "\<exists>c. buf_append bs n b = Inr c \<and> buf_inv c \<and> content c = bs"
    if "length bs = n" "n \<le> 8" for bs n
    using buf_append_ok [of b n bs] assms that by auto
  from app [of "be_bytes 8 (unat x)" 8] obtain c8 where
    c8: "buf_append (be_bytes 8 (unat x)) 8 b = Inr c8" "buf_inv c8" "content c8 = be_bytes 8 (unat x)"
    by auto
  from app [of "be_bytes 4 (unat y)" 4] obtain c4 where
    c4: "buf_append (be_bytes 4 (unat y)) 4 b = Inr c4" "buf_inv c4" "content c4 = be_bytes 4 (unat y)"
    by auto
  from app [of "be_bytes 2 (unat z)" 2] obtain c2 where
    c2: "buf_append (be_bytes 2 (unat z)) 2 b = Inr c2" "buf_inv c2" "content c2 = be_bytes 2 (unat z)"
    by auto
  from app [of "[w]" 1] obtain c1 where
    c1: "buf_append [w] 1 b = Inr c1" "buf_inv c1" "content c1 = [w]"
    by auto
  show ?thesis
    using c8 c4 c2 c1 readInt64_front [OF c8(2), of x "[]" host] readInt32_front [OF c4(2), of y "[]" host]
      readInt16_front [OF c2(2), of z "[]" host] readInt8_front [OF c1(2), of w "[]"]
    by (simp add: appendInt64_def appendInt32_def appendInt16_def appendInt8_def Let_def)
qed

theorem int_codec_roundtrip_witness:
  "(\<exists>c. appendInt64 LittleEndian (-2) (mk_buf (replicate 9 0) 8 8) = Inr c
      \<and> content c = be_bytes 8 (unat (-2 :: 64 word))
      \<and> (\<exists>d. readInt64 LittleEndian c = Inr (-2, d) \<and> buf_inv d \<and> content d = []))
    \<and> (\<exists>c. appendInt32 LittleEndian 258 (mk_buf (replicate 9 0) 8 8) = Inr c
      \<and> content c = be_bytes 4 (unat (258 :: 32 word))
      \<and> (\<exists>d. readInt32 LittleEndian c = Inr (258, d) \<and> buf_inv d \<and> content d = []))
    \<and> (\<exists>c. appendInt16 LittleEndian 7 (mk_buf (replicate 9 0) 8 8) = Inr c
      \<and> content c = be_bytes 2 (unat (7 :: 16 word))
      \<and> (\<exists>d. readInt16 LittleEndian c = Inr (7, d) \<and> buf_inv d \<and> content d = []))
    \<and> (\<exists>c. appendInt8 200 (mk_buf (replicate 9 0) 8 8) = Inr c
      \<and> content c = [200] \<and> (\<exists>d. readInt8 c = Inr (200, d) \<and> buf_inv d \<and> content d = []))"
  by (rule int_codec_roundtrip)
    (simp_all add: buf_inv_def content_def kCheapPrepend_def max_size_def)

text \<open>
  C4. \<open>findCRLF\<close> returns the first line end of the readable bytes: a returned pointer lies in the
  readable part, carriage return and line feed are the two bytes there, and no earlier position
  has them; the null pointer means that they occur nowhere.
\<close>

theorem findCRLF_first:
  assumes "buf_inv b"
  shows "case findCRLF b of
      Inr (Some p) \<Rightarrow> readerIndex b \<le> p \<and> occurs_at kCRLF (content b) (p - readerIndex b)
        \<and> (\<forall>i < p - readerIndex b. \<not> occurs_at kCRLF (content b) i)
    | Inr None \<Rightarrow> (\<forall>i. \<not> occurs_at kCRLF (content b) i)
    | Inl e \<Rightarrow> False"
proof -
  let ?k = "cpp_search kCRLF (content b)"
  have eq: "findCRLF b = Inr (if ?k = length (content b) then None else Some (readerIndex b + ?k))"
    using findCRLF_eq_from [OF assms] findCRLF_from_ok [OF assms order_refl buf_invD(1) [OF assms]]
    by simp
  have first: "\<not> occurs_at kCRLF (content b) i" if "i < ?k" for i
    using that by (rule cpp_search_first)
  show ?thesis
  proof (cases "?k = length (content b)")
    case True
    have "\<not> occurs_at kCRLF (content b) i" for i
      using first [of i] True by (cases "i < ?k") (auto simp: occurs_at_def)
    with eq True show ?thesis by simp
  next
    case False
    then have "?k < length (content b)" using cpp_search_le [of kCRLF "content b"] by simp
    then have "occurs_at kCRLF (content b) ?k" by (rule cpp_search_found)
    with eq False first show ?thesis by simp
  qed
qed

theorem findCRLF_first_witness:
  "case findCRLF (mk_buf (replicate 8 0 @ [65, 13, 10, 66]) 8 12) of
      Inr (Some p) \<Rightarrow>
        readerIndex (mk_buf (replicate 8 0 @ [65, 13, 10, 66]) 8 12) \<le> p
        \<and> occurs_at kCRLF
            (content (mk_buf (replicate 8 0 @ [65, 13, 10, 66]) 8 12))
            (p - readerIndex (mk_buf (replicate 8 0 @ [65, 13, 10, 66]) 8 12))
        \<and> (\<forall>i < p - readerIndex (mk_buf (replicate 8 0 @ [65, 13, 10, 66]) 8 12).
            \<not> occurs_at kCRLF
              (content (mk_buf (replicate 8 0 @ [65, 13, 10, 66]) 8 12)) i)
    | Inr None \<Rightarrow> (\<forall>i. \<not> occurs_at kCRLF
        (content (mk_buf (replicate 8 0 @ [65, 13, 10, 66]) 8 12)) i)
    | Inl e \<Rightarrow> False"
  by (rule findCRLF_first) (simp add: buf_inv_def kCheapPrepend_def max_size_def)

text \<open>
  C5. The scatter read: whatever bytes \<open>readv\<close> delivers, split between the writable tail and
  the stack buffer, end up behind the contents in their order, the invariant is kept, and at most
  128k - 1 bytes arrive when the stack buffer is used; an error leaves the buffer as it was.
\<close>

theorem readFd_appends:
  assumes "buf_inv b" and "readv_fits readv" and "length (buf_data b) + extrabuf_size \<le> max_size"
  shows "case readv (readFd_iov (writableBytes b)) of
      IoBytes bs \<Rightarrow> (\<exists>b'. readFd readv b = Inr (IoBytes bs, b') \<and> buf_inv b'
        \<and> content b' = content b @ bs
        \<and> (writableBytes b < extrabuf_size \<longrightarrow> length bs \<le> 128 * 1024 - 1))
    | IoErr e \<Rightarrow> readFd readv b = Inr (IoErr e, b)"
proof (cases "readv (readFd_iov (writableBytes b))")
  case (IoErr e)
  then show ?thesis by (simp add: readFd_def Let_def)
next
  case (IoBytes bs)
  have "length bs \<le> sum_list (readFd_iov (writableBytes b))"
    using assms(2) IoBytes unfolding readv_fits_def by blast
  then have "writableBytes b < extrabuf_size \<longrightarrow> length bs \<le> 128 * 1024 - 1"
    by (auto simp: readFd_iov_def extrabuf_size_def split: if_splits)
  with readFd_room [OF assms IoBytes] IoBytes show ?thesis by auto
qed

theorem readFd_appends_witness:
  "case (\<lambda>lens. if lens = [2, 65536] then IoBytes [1, 2, 3] else IoErr 11)
        (readFd_iov (writableBytes (mk_buf (replicate 10 0) 8 8))) of
      IoBytes bs \<Rightarrow> (\<exists>b'. readFd (\<lambda>lens. if lens = [2, 65536] then IoBytes [1, 2, 3] else IoErr 11)
          (mk_buf (replicate 10 0) 8 8) = Inr (IoBytes bs, b') \<and> buf_inv b'
        \<and> content b' = content (mk_buf (replicate 10 0) 8 8) @ bs
        \<and> (writableBytes (mk_buf (replicate 10 0) 8 8) < extrabuf_size
            \<longrightarrow> length bs \<le> 128 * 1024 - 1))
    | IoErr e \<Rightarrow> readFd (\<lambda>lens. if lens = [2, 65536] then IoBytes [1, 2, 3] else IoErr 11)
          (mk_buf (replicate 10 0) 8 8)
        = Inr (IoErr e, (mk_buf (replicate 10 0) 8 8))"
  by (rule readFd_appends)
    (simp_all add: buf_inv_def kCheapPrepend_def max_size_def readv_fits_def extrabuf_size_def)

end
