(* ===== verification/Inet_Address.thy ===== *)
theory Inet_Address
  imports Byte_Buffer
begin

text \<open>
  \<open>net/InetAddress\<close> and the address functions of \<open>net/SocketOps\<close>. A socket address is the common
  layout of \<open>sockaddr_in\<close> and \<open>sockaddr_in6\<close>: family, port in network order, the four bytes that
  are \<open>sin_addr\<close> (or \<open>sin6_flowinfo\<close>) and the sixteen of \<open>sin6_addr\<close>. The class has both members
  and each constructor fills one of them: \<open>None\<close> is a member nobody has written. The byte order
  of the host is the argument \<open>host\<close>; \<open>inet_pton\<close> and \<open>inet_ntop\<close> are arguments.
\<close>

section \<open>Data\<close>

definition AF_INET :: int where "AF_INET = 2"
definition AF_INET6 :: int where "AF_INET6 = 10"

record saddr =
  sa_family :: int
  sa_port :: "16 word"
  sa_addr4 :: "byte list"
  sa_addr6 :: "byte list"

definition zero_saddr :: saddr where
  "zero_saddr = \<lparr>sa_family = 0, sa_port = 0, sa_addr4 = replicate 4 0, sa_addr6 = replicate 16 0\<rparr>"

record inet_address =
  ia_addr :: "saddr option"
  ia_addr6 :: "saddr option"

type_synonym pton = "int \<Rightarrow> string \<Rightarrow> byte list option"
type_synonym ntop = "int \<Rightarrow> byte list \<Rightarrow> string"

section \<open>Operations\<close>

definition in6addr_loopback :: "byte list" where
  "in6addr_loopback = replicate 15 0 @ [1]"

definition in6addr_any :: "byte list" where
  "in6addr_any = replicate 16 0"

definition InetAddress_port :: "endianness \<Rightarrow> 16 word \<Rightarrow> bool \<Rightarrow> bool \<Rightarrow> inet_address" where
  "InetAddress_port host port loopbackOnly ipv6 =
     (if ipv6
      then \<lparr>ia_addr = None,
            ia_addr6 = Some (zero_saddr\<lparr>sa_family := AF_INET6,
              sa_addr6 := (if loopbackOnly then in6addr_loopback else in6addr_any),
              sa_port := hostToNetwork16 host port\<rparr>)\<rparr>
      else let ip = (if loopbackOnly then 2130706433 else 0 :: 32 word)
        in \<lparr>ia_addr = Some (zero_saddr\<lparr>sa_family := AF_INET,
              sa_addr4 := obj_bytes host 4 (unat (hostToNetwork32 host ip)),
              sa_port := hostToNetwork16 host port\<rparr>),
            ia_addr6 = None\<rparr>)"

definition fromIpPort6 :: "endianness \<Rightarrow> pton \<Rightarrow> string \<Rightarrow> 16 word \<Rightarrow> saddr \<Rightarrow> saddr" where
  "fromIpPort6 host inet_pton ip port a =
     (let a1 = a\<lparr>sa_family := AF_INET6, sa_port := hostToNetwork16 host port\<rparr>
      in case inet_pton AF_INET6 ip of None \<Rightarrow> a1 | Some bs \<Rightarrow> a1\<lparr>sa_addr6 := bs\<rparr>)"

definition fromIpPort4 :: "endianness \<Rightarrow> pton \<Rightarrow> string \<Rightarrow> 16 word \<Rightarrow> saddr \<Rightarrow> saddr" where
  "fromIpPort4 host inet_pton ip port a =
     (let a1 = a\<lparr>sa_family := AF_INET, sa_port := hostToNetwork16 host port\<rparr>
      in case inet_pton AF_INET ip of None \<Rightarrow> a1 | Some bs \<Rightarrow> a1\<lparr>sa_addr4 := bs\<rparr>)"

definition InetAddress_ip :: "endianness \<Rightarrow> pton \<Rightarrow> string \<Rightarrow> 16 word \<Rightarrow> bool \<Rightarrow> inet_address" where
  "InetAddress_ip host inet_pton ip port ipv6 =
     (if ipv6
      then \<lparr>ia_addr = None, ia_addr6 = Some (fromIpPort6 host inet_pton ip port zero_saddr)\<rparr>
      else \<lparr>ia_addr = Some (fromIpPort4 host inet_pton ip port zero_saddr), ia_addr6 = None\<rparr>)"

definition InetAddress_of4 :: "saddr \<Rightarrow> inet_address" where
  "InetAddress_of4 a = \<lparr>ia_addr = Some a, ia_addr6 = None\<rparr>"

definition InetAddress_of6 :: "saddr \<Rightarrow> inet_address" where
  "InetAddress_of6 a = \<lparr>ia_addr = None, ia_addr6 = Some a\<rparr>"

definition read_member :: "saddr option \<Rightarrow> saddr res" where
  "read_member m = (case m of None \<Rightarrow> Inl Uninitialised | Some a \<Rightarrow> Inr a)"

definition ia_family :: "inet_address \<Rightarrow> int res" where
  "ia_family ia = bindR (read_member (ia_addr ia)) (\<lambda>a. Inr (sa_family a))"

text \<open>\<open>getSockAddr\<close> points to \<open>addr6_\<close>; this is what its users read there.\<close>

definition getSockAddr :: "inet_address \<Rightarrow> saddr res" where
  "getSockAddr ia = read_member (ia_addr6 ia)"

definition setSockAddrInet6 :: "saddr \<Rightarrow> inet_address \<Rightarrow> inet_address" where
  "setSockAddrInet6 a ia = ia\<lparr>ia_addr6 := Some a\<rparr>"

definition sockets_toIp :: "ntop \<Rightarrow> nat \<Rightarrow> saddr \<Rightarrow> string res" where
  "sockets_toIp inet_ntop sz a =
     (if sa_family a = AF_INET then cassert (sz \<ge> 16) (Inr (inet_ntop AF_INET (sa_addr4 a)))
      else if sa_family a = AF_INET6 then cassert (sz \<ge> 46) (Inr (inet_ntop AF_INET6 (sa_addr6 a)))
      else Inr [])"

definition sockets_toIpPort :: "endianness \<Rightarrow> ntop \<Rightarrow> nat \<Rightarrow> saddr \<Rightarrow> string res" where
  "sockets_toIpPort host inet_ntop sz a =
     bindR (sockets_toIp inet_ntop sz a) (\<lambda>ip.
       let end = length ip; port = networkToHost16 host (sa_port a)
       in cassert (sz > end) (Inr (ip @ take (sz - end - 1) ('':'' @ show_nat (unat port)))))"

definition InetAddress_toIp :: "ntop \<Rightarrow> inet_address \<Rightarrow> string res" where
  "InetAddress_toIp inet_ntop ia = bindR (getSockAddr ia) (sockets_toIp inet_ntop 64)"

definition tpIPPort :: "endianness \<Rightarrow> ntop \<Rightarrow> inet_address \<Rightarrow> string res" where
  "tpIPPort host inet_ntop ia = bindR (getSockAddr ia) (sockets_toIpPort host inet_ntop 64)"

definition tpIP :: "ntop \<Rightarrow> inet_address \<Rightarrow> string res" where
  "tpIP inet_ntop ia = bindR (getSockAddr ia) (sockets_toIp inet_ntop 64)"

text \<open>\<open>resolve\<close> writes the address of \<open>addr_\<close> only; the answer of \<open>gethostbyname_r\<close> is an argument.\<close>

definition InetAddress_resolve :: "(int \<times> nat \<times> byte list) option \<Rightarrow> inet_address
    \<Rightarrow> (bool \<times> inet_address) res" where
  "InetAddress_resolve answer out =
     (case answer of
        None \<Rightarrow> Inr (False, out)
      | Some (h_addrtype, h_length, h_addr) \<Rightarrow>
          cassert (h_addrtype = AF_INET \<and> h_length = 4)
            (Inr (True, out\<lparr>ia_addr := (case ia_addr out of None \<Rightarrow> None
               | Some a \<Rightarrow> Some (a\<lparr>sa_addr4 := h_addr\<rparr>))\<rparr>)))"

text \<open>
  The two ends of a socket: the answers of \<open>getsockname\<close> and \<open>getpeername\<close> are arguments, and the
  zeroed structure stays when a call fails.
\<close>

definition getLocalAddr :: "saddr option \<Rightarrow> saddr" where
  "getLocalAddr answer = (case answer of None \<Rightarrow> zero_saddr | Some a \<Rightarrow> a)"

definition getPeerAddr :: "saddr option \<Rightarrow> saddr" where
  "getPeerAddr answer = (case answer of None \<Rightarrow> zero_saddr | Some a \<Rightarrow> a)"

definition isSelfConnect :: "saddr option \<Rightarrow> saddr option \<Rightarrow> bool" where
  "isSelfConnect sockname peername =
     (let localaddr = getLocalAddr sockname; peeraddr = getPeerAddr peername in
      if sa_family localaddr = AF_INET
      then sa_port localaddr = sa_port peeraddr \<and> sa_addr4 localaddr = sa_addr4 peeraddr
      else if sa_family localaddr = AF_INET6
      then sa_port localaddr = sa_port peeraddr \<and> sa_addr6 localaddr = sa_addr6 peeraddr
      else False)"

text \<open>\<open>getsockopt(SO_ERROR)\<close>: the call's own error (\<open>Inl\<close>) or the pending one.\<close>

definition getSocketError :: "int + int \<Rightarrow> int" where
  "getSocketError answer = (case answer of Inl errno \<Rightarrow> errno | Inr optval \<Rightarrow> optval)"

section \<open>Properties\<close>

text \<open>The contract of \<open>inet_ntop\<close>: the text fits the buffer sizes the standard names.\<close>

definition ntop_fits :: "ntop \<Rightarrow> bool" where
  "ntop_fits inet_ntop \<longleftrightarrow> (\<forall>bs. length (inet_ntop AF_INET bs) < 16 \<and> length (inet_ntop AF_INET6 bs) < 46)"

lemma host_network16: "networkToHost16 host (hostToNetwork16 host x) = x"
  using swapped_back [where n = 2 and x = x]
  by (cases host) (simp_all add: networkToHost16_def hostToNetwork16_def bswap_def)

lemma port_text: "length (show_nat (unat (p :: 16 word))) \<le> 5"
  using unat_bound [of p] by (intro length_show_nat) simp_all

lemma toIp_family:
  "sa_family a = AF_INET \<or> sa_family a = AF_INET6 \<Longrightarrow> ntop_fits inet_ntop \<Longrightarrow>
    \<exists>ip. sockets_toIp inet_ntop 64 a = Inr ip \<and> length ip < 46
      \<and> ip = inet_ntop (sa_family a) (if sa_family a = AF_INET then sa_addr4 a else sa_addr6 a)"
  by (auto simp: sockets_toIp_def ntop_fits_def AF_INET_def AF_INET6_def intro: less_trans [of _ 16])

text \<open>
  C27. The text of an address. What \<open>accept\<close> or \<open>getpeername\<close> stored with \<open>setSockAddrInet6\<close>, of
  either family, prints as address, colon and port in host order, complete within the buffer of 64
  bytes and without failing an assertion. But no address built by a constructor can be used both
  to create its socket and to bind or print it: one of the two members it needs was never written.
\<close>

theorem address_text:
  assumes "ntop_fits inet_ntop" and "sa_family a = AF_INET \<or> sa_family a = AF_INET6"
  shows "tpIPPort host inet_ntop (setSockAddrInet6 a ia) = Inr
      (inet_ntop (sa_family a) (if sa_family a = AF_INET then sa_addr4 a else sa_addr6 a)
        @ '':'' @ show_nat (unat (networkToHost16 host (sa_port a))))
    \<and> length (inet_ntop (sa_family a) (if sa_family a = AF_INET then sa_addr4 a else sa_addr6 a)
        @ '':'' @ show_nat (unat (networkToHost16 host (sa_port a)))) < 64
    \<and> (\<forall>b \<in> {InetAddress_port host p lo v6, InetAddress_ip host inet_pton s p v6}.
        ia_family b = Inl Uninitialised \<or> getSockAddr b = Inl Uninitialised)"
proof -
  let ?port = "show_nat (unat (networkToHost16 host (sa_port a)))"
  from toIp_family [OF assms(2,1)] obtain ip where
    ip: "sockets_toIp inet_ntop 64 a = Inr ip" "length ip < 46"
    "ip = inet_ntop (sa_family a) (if sa_family a = AF_INET then sa_addr4 a else sa_addr6 a)" by blast
  have port: "length ?port \<le> 5" by (rule port_text)
  have "sockets_toIpPort host inet_ntop 64 a = Inr (ip @ '':'' @ ?port)"
    using ip(1,2) port by (simp add: sockets_toIpPort_def Let_def)
  then have "tpIPPort host inet_ntop (setSockAddrInet6 a ia) = Inr (ip @ '':'' @ ?port)"
    by (simp add: tpIPPort_def getSockAddr_def setSockAddrInet6_def read_member_def)
  moreover have "length (ip @ '':'' @ ?port) < 64" using ip(2) port by simp
  moreover have "\<forall>b \<in> {InetAddress_port host p lo v6, InetAddress_ip host inet_pton s p v6}.
        ia_family b = Inl Uninitialised \<or> getSockAddr b = Inl Uninitialised"
    by (simp add: InetAddress_port_def InetAddress_ip_def ia_family_def getSockAddr_def read_member_def Let_def)
  ultimately show ?thesis using ip(3) by blast
qed

theorem address_text_witness:
  "tpIPPort LittleEndian (\<lambda>f bs. ''10.0.0.7'')
      (setSockAddrInet6 (zero_saddr\<lparr>sa_family := AF_INET, sa_port := hostToNetwork16 LittleEndian 80\<rparr>)
        (InetAddress_of4 zero_saddr))
    = Inr ''10.0.0.7:80''"
proof -
  have "ntop_fits (\<lambda>f bs. ''10.0.0.7'')" by (simp add: ntop_fits_def)
  moreover have "show_nat 80 = ''80''"
    by code_simp
  ultimately show ?thesis
    using address_text [of "\<lambda>f bs. ''10.0.0.7''"
        "zero_saddr\<lparr>sa_family := AF_INET, sa_port := hostToNetwork16 LittleEndian 80\<rparr>" LittleEndian
        "InetAddress_of4 zero_saddr"]
    by (simp add: host_network16)
qed

end
