(* ===== verification/Reactor.thy ===== *)
theory Reactor
  imports Muduo_Prelude
begin

text \<open>
  \<open>net/Channel\<close>, \<open>net/poller\<close>, \<open>net/Epoller\<close> and the part of \<open>net/EventLoop\<close> that registers
  channels. Channels are objects with an address; the poller keeps raw pointers to them, so the
  heap of channels is explicit and a dangling pointer is a \<open>UseAfterFree\<close>. What the kernel sees is
  the sequence of \<open>epoll_ctl\<close> calls, \<open>ctl_log\<close>: the code does nothing with their result but log
  it. Log output is not modelled. \<open>assertInLoopThread\<close> only writes a log line
  (\<open>abortNotInLoopThread\<close> does not abort), so it is no branch of the model.
\<close>

unbundle bit_operations_syntax

section \<open>Event bits\<close>

definition POLLIN :: int32 where "POLLIN = 1"
definition POLLPRI :: int32 where "POLLPRI = 2"
definition POLLOUT :: int32 where "POLLOUT = 4"
definition POLLERR :: int32 where "POLLERR = 8"
definition POLLHUP :: int32 where "POLLHUP = 16"
definition POLLNVAL :: int32 where "POLLNVAL = 32"
definition POLLRDHUP :: int32 where "POLLRDHUP = 8192"

definition kNoneEvent :: int32 where
  "kNoneEvent = 0"

definition kReadEvent :: int32 where
  "kReadEvent = POLLIN OR POLLPRI"

definition kWriteEvent :: int32 where
  "kWriteEvent = POLLOUT"

text \<open>The test \<open>ev & mask\<close> of a C++ condition.\<close>

definition has_bits :: "int32 \<Rightarrow> int32 \<Rightarrow> bool" where
  "has_bits ev m \<longleftrightarrow> ev AND m \<noteq> 0"

section \<open>Channels, the poller and the loop that owns them\<close>

text \<open>
  \<open>'cb\<close> is the type of the callbacks a channel holds: \<open>None\<close> is the empty \<open>std::function\<close>. They
  are code of other components, so running one is a parameter of \<open>handleEvent\<close>. \<open>ch_tie\<close> is
  the weak pointer to the owner.
\<close>

record 'cb channel =
  ownerLoop :: addr
  ch_fd :: fd
  events :: int32
  revents :: int32
  index :: int
  logHup :: bool
  ch_tie :: "addr option"
  tied :: bool
  ch_eventHandling :: bool
  addedToLoop :: bool
  readCallback :: "'cb option"
  writeCallback :: "'cb option"
  closeCallback :: "'cb option"
  errorCallback :: "'cb option"

datatype epoll_op = EPOLL_CTL_ADD | EPOLL_CTL_DEL | EPOLL_CTL_MOD

text \<open>
  The state of an \<open>EventLoop\<close> with its \<open>Epoller\<close>: \<open>pollChannels\<close> is \<open>Poller::channels_\<close>,
  \<open>eventsSize\<close> the size of \<open>Epoller::events_\<close>; \<open>'f\<close> is the type of the functors other code
  queues. \<open>chanHeap\<close> holds the channel objects, \<open>live\<close> the objects a tied channel may lock.
\<close>

record ('cb, 'f) event_loop =
  loopId :: addr
  looping :: bool
  quit :: bool
  eventHandling :: bool
  callingPendingFunctors :: bool
  iteration :: int
  threadId :: tid
  pollReturnTime :: int
  activeChannels :: "addr list"
  currentActiveChannel :: "addr option"
  pendingFunctors :: "'f list"
  wakeupWrites :: nat
  pollChannels :: "fd \<rightharpoonup> addr"
  eventsSize :: nat
  ctl_log :: "(epoll_op \<times> fd \<times> int32 \<times> addr) list"
  chanHeap :: "addr \<rightharpoonup> 'cb channel"
  live :: "addr set"

text \<open>The members of a loop under construction, before its own channels are registered.\<close>

definition loop_members :: "addr \<Rightarrow> tid \<Rightarrow> ('cb, 'f) event_loop" where
  "loop_members this self =
     \<lparr>loopId = this, looping = False, quit = False, eventHandling = False,
      callingPendingFunctors = False, iteration = 0, threadId = self, pollReturnTime = 0,
      activeChannels = [], currentActiveChannel = None, pendingFunctors = [], wakeupWrites = 0,
      pollChannels = Map.empty, eventsSize = 16, ctl_log = [], chanHeap = Map.empty, live = {}\<rparr>"

definition get_chan :: "addr \<Rightarrow> ('cb, 'f, 'z) event_loop_scheme \<Rightarrow> 'cb channel res" where
  "get_chan c l = (case chanHeap l c of None \<Rightarrow> Inl UseAfterFree | Some ch \<Rightarrow> Inr ch)"

definition set_chan :: "addr \<Rightarrow> ('cb channel \<Rightarrow> 'cb channel) \<Rightarrow> ('cb, 'f, 'z) event_loop_scheme
    \<Rightarrow> ('cb, 'f, 'z) event_loop_scheme res" where
  "set_chan c f l =
     bindR (get_chan c l) (\<lambda>ch. Inr (l\<lparr>chanHeap := (chanHeap l)(c \<mapsto> f ch)\<rparr>))"

section \<open>\<open>Epoller\<close>\<close>

definition KNew :: int where "KNew = -1"
definition KAdded :: int where "KAdded = 1"
definition KDeleted :: int where "KDeleted = 2"

definition KInitEventListSize :: nat where
  "KInitEventListSize = 16"

definition isNoneEvent :: "'cb channel \<Rightarrow> bool" where
  "isNoneEvent ch \<longleftrightarrow> events ch = kNoneEvent"

definition isWriting :: "'cb channel \<Rightarrow> bool" where
  "isWriting ch \<longleftrightarrow> has_bits (events ch) kWriteEvent"

definition isReading :: "'cb channel \<Rightarrow> bool" where
  "isReading ch \<longleftrightarrow> has_bits (events ch) kReadEvent"

definition set_index :: "addr \<Rightarrow> int \<Rightarrow> ('cb, 'f, 'z) event_loop_scheme
    \<Rightarrow> ('cb, 'f, 'z) event_loop_scheme res" where
  "set_index c idx = set_chan c (\<lambda>ch. ch\<lparr>index := idx\<rparr>)"

definition set_revents :: "addr \<Rightarrow> int32 \<Rightarrow> ('cb, 'f, 'z) event_loop_scheme
    \<Rightarrow> ('cb, 'f, 'z) event_loop_scheme res" where
  "set_revents c revt = set_chan c (\<lambda>ch. ch\<lparr>revents := revt\<rparr>)"

definition Epoller_update :: "epoll_op \<Rightarrow> addr \<Rightarrow> ('cb, 'f, 'z) event_loop_scheme
    \<Rightarrow> ('cb, 'f, 'z) event_loop_scheme res" where
  "Epoller_update operation c l =
     bindR (get_chan c l)
       (\<lambda>ch. Inr (l\<lparr>ctl_log := ctl_log l @ [(operation, ch_fd ch, events ch, c)]\<rparr>))"

definition Epoller_updateChannel :: "addr \<Rightarrow> ('cb, 'f, 'z) event_loop_scheme
    \<Rightarrow> ('cb, 'f, 'z) event_loop_scheme res" where
  "Epoller_updateChannel c l =
     bindR (get_chan c l) (\<lambda>ch.
       let idx = index ch; fd = ch_fd ch
       in if idx = KNew \<or> idx = KDeleted
          then bindR (if pollChannels l fd = None
                      then Inr (l\<lparr>pollChannels := (pollChannels l)(fd \<mapsto> c)\<rparr>)
                      else cassert (pollChannels l fd = Some c) (Inr l))
                (\<lambda>l1. bindR (set_index c KAdded l1) (Epoller_update EPOLL_CTL_ADD c))
          else cassert (pollChannels l fd \<noteq> None)
                (cassert (pollChannels l fd = Some c)
                  (cassert (idx = KAdded)
                    (if isNoneEvent ch
                     then bindR (Epoller_update EPOLL_CTL_DEL c l) (set_index c KDeleted)
                     else Epoller_update EPOLL_CTL_MOD c l))))"

definition Epoller_removeChannel :: "addr \<Rightarrow> ('cb, 'f, 'z) event_loop_scheme
    \<Rightarrow> ('cb, 'f, 'z) event_loop_scheme res" where
  "Epoller_removeChannel c l =
     bindR (get_chan c l) (\<lambda>ch.
       let fd = ch_fd ch; idx = index ch
       in cassert (pollChannels l fd \<noteq> None)
           (cassert (pollChannels l fd = Some c)
             (cassert (isNoneEvent ch)
               (cassert (idx = KAdded \<or> idx = KDeleted)
                 (let l1 = l\<lparr>pollChannels := (pollChannels l)(fd := None)\<rparr>
                  in bindR (if idx = KAdded then Epoller_update EPOLL_CTL_DEL c l1 else Inr l1)
                       (set_index c KNew))))))"

definition hasChannel :: "addr \<Rightarrow> ('cb, 'f, 'z) event_loop_scheme \<Rightarrow> bool res" where
  "hasChannel c l = bindR (get_chan c l) (\<lambda>ch. Inr (pollChannels l (ch_fd ch) = Some c))"

text \<open>
  \<open>epoll_wait\<close> is a parameter of \<open>poll\<close>: its answer is an error number or the events, each with
  the channel pointer that was registered. Errors are ignored (the branch for them stands inside
  \<open>if (numEvents > 0)\<close>).
\<close>

datatype wait_result = WaitErr int | WaitEvents "(int32 \<times> addr) list"

definition fillActive :: "int32 \<times> addr \<Rightarrow> ('cb, 'f, 'z) event_loop_scheme
    \<Rightarrow> ('cb, 'f, 'z) event_loop_scheme res" where
  "fillActive ev l =
     (let c = snd ev
      in bindR (get_chan c l) (\<lambda>ch.
           cassert (pollChannels l (ch_fd ch) \<noteq> None)
             (cassert (pollChannels l (ch_fd ch) = Some c)
               (bindR (set_revents c (fst ev) l)
                 (\<lambda>l1. Inr (l1\<lparr>activeChannels := activeChannels l1 @ [c]\<rparr>))))))"

definition fillActiveChannels :: "(int32 \<times> addr) list \<Rightarrow> ('cb, 'f, 'z) event_loop_scheme
    \<Rightarrow> ('cb, 'f, 'z) event_loop_scheme res" where
  "fillActiveChannels evs l = cassert (length evs \<le> eventsSize l) (foldR fillActive evs l)"

definition Epoller_poll :: "wait_result \<Rightarrow> ('cb, 'f, 'z) event_loop_scheme
    \<Rightarrow> ('cb, 'f, 'z) event_loop_scheme res" where
  "Epoller_poll answer l =
     (case answer of
        WaitErr e \<Rightarrow> Inr l
      | WaitEvents evs \<Rightarrow>
          if length evs > 0
          then bindR (fillActiveChannels evs l)
                (\<lambda>l1. if length evs = eventsSize l1
                      then Inr (l1\<lparr>eventsSize := eventsSize l1 * 2\<rparr>) else Inr l1)
          else Inr l)"

definition operationToString :: "epoll_op \<Rightarrow> string" where
  "operationToString op =
     (case op of EPOLL_CTL_ADD \<Rightarrow> ''ADD'' | EPOLL_CTL_DEL \<Rightarrow> ''DEL'' | EPOLL_CTL_MOD \<Rightarrow> ''MOD'')"

section \<open>\<open>EventLoop\<close>: registration\<close>

definition EventLoop_updateChannel :: "addr \<Rightarrow> ('cb, 'f, 'z) event_loop_scheme
    \<Rightarrow> ('cb, 'f, 'z) event_loop_scheme res" where
  "EventLoop_updateChannel c l =
     bindR (get_chan c l) (\<lambda>ch.
       cassert (ownerLoop ch = loopId l) (Epoller_updateChannel c l))"

definition EventLoop_removeChannel :: "addr \<Rightarrow> ('cb, 'f, 'z) event_loop_scheme
    \<Rightarrow> ('cb, 'f, 'z) event_loop_scheme res" where
  "EventLoop_removeChannel c l =
     bindR (get_chan c l) (\<lambda>ch.
       cassert (ownerLoop ch = loopId l)
         (cassert (eventHandling l \<longrightarrow>
             c \<notin> set (activeChannels l) \<or> currentActiveChannel l = Some c)
           (Epoller_removeChannel c l)))"

definition EventLoop_hasChannel :: "addr \<Rightarrow> ('cb, 'f, 'z) event_loop_scheme \<Rightarrow> bool res" where
  "EventLoop_hasChannel c l =
     bindR (get_chan c l) (\<lambda>ch. cassert (ownerLoop ch = loopId l) (hasChannel c l))"

section \<open>\<open>Channel\<close>\<close>

definition mkChannel :: "addr \<Rightarrow> fd \<Rightarrow> 'cb channel" where
  "mkChannel loop fd =
     \<lparr>ownerLoop = loop, ch_fd = fd, events = 0, revents = 0, index = -1, logHup = True,
      ch_tie = None, tied = False, ch_eventHandling = False, addedToLoop = False,
      readCallback = None, writeCallback = None, closeCallback = None, errorCallback = None\<rparr>"

text \<open>\<open>new Channel(loop, fd)\<close> at a fresh address, and \<open>~Channel\<close> with the end of the object.\<close>

definition newChannel :: "addr \<Rightarrow> fd \<Rightarrow> ('cb, 'f, 'z) event_loop_scheme
    \<Rightarrow> ('cb, 'f, 'z) event_loop_scheme" where
  "newChannel c fd l = l\<lparr>chanHeap := (chanHeap l)(c \<mapsto> mkChannel (loopId l) fd)\<rparr>"

definition Channel_dtor :: "addr \<Rightarrow> ('cb, 'f, 'z) event_loop_scheme
    \<Rightarrow> ('cb, 'f, 'z) event_loop_scheme res" where
  "Channel_dtor c l =
     bindR (get_chan c l) (\<lambda>ch.
       cassert (\<not> ch_eventHandling ch)
         (cassert (\<not> addedToLoop ch) (Inr (l\<lparr>chanHeap := (chanHeap l)(c := None)\<rparr>))))"

definition Channel_update :: "addr \<Rightarrow> ('cb, 'f, 'z) event_loop_scheme
    \<Rightarrow> ('cb, 'f, 'z) event_loop_scheme res" where
  "Channel_update c l =
     bindR (set_chan c (\<lambda>ch. ch\<lparr>addedToLoop := True\<rparr>) l) (EventLoop_updateChannel c)"

definition Channel_remove :: "addr \<Rightarrow> ('cb, 'f, 'z) event_loop_scheme
    \<Rightarrow> ('cb, 'f, 'z) event_loop_scheme res" where
  "Channel_remove c l =
     bindR (get_chan c l) (\<lambda>ch.
       cassert (isNoneEvent ch)
         (bindR (set_chan c (\<lambda>ch. ch\<lparr>addedToLoop := False\<rparr>) l) (EventLoop_removeChannel c)))"

definition enableReading :: "addr \<Rightarrow> ('cb, 'f, 'z) event_loop_scheme
    \<Rightarrow> ('cb, 'f, 'z) event_loop_scheme res" where
  "enableReading c l =
     bindR (set_chan c (\<lambda>ch. ch\<lparr>events := events ch OR kReadEvent\<rparr>) l) (Channel_update c)"

definition disableReading :: "addr \<Rightarrow> ('cb, 'f, 'z) event_loop_scheme
    \<Rightarrow> ('cb, 'f, 'z) event_loop_scheme res" where
  "disableReading c l =
     bindR (set_chan c (\<lambda>ch. ch\<lparr>events := events ch AND NOT kReadEvent\<rparr>) l) (Channel_update c)"

definition enableWriting :: "addr \<Rightarrow> ('cb, 'f, 'z) event_loop_scheme
    \<Rightarrow> ('cb, 'f, 'z) event_loop_scheme res" where
  "enableWriting c l =
     bindR (set_chan c (\<lambda>ch. ch\<lparr>events := events ch OR kWriteEvent\<rparr>) l) (Channel_update c)"

definition disableWriting :: "addr \<Rightarrow> ('cb, 'f, 'z) event_loop_scheme
    \<Rightarrow> ('cb, 'f, 'z) event_loop_scheme res" where
  "disableWriting c l =
     bindR (set_chan c (\<lambda>ch. ch\<lparr>events := events ch AND NOT kWriteEvent\<rparr>) l) (Channel_update c)"

definition disableAll :: "addr \<Rightarrow> ('cb, 'f, 'z) event_loop_scheme
    \<Rightarrow> ('cb, 'f, 'z) event_loop_scheme res" where
  "disableAll c l =
     bindR (set_chan c (\<lambda>ch. ch\<lparr>events := kNoneEvent\<rparr>) l) (Channel_update c)"

definition Channel_tie :: "addr \<Rightarrow> addr \<Rightarrow> ('cb, 'f, 'z) event_loop_scheme
    \<Rightarrow> ('cb, 'f, 'z) event_loop_scheme res" where
  "Channel_tie c obj = set_chan c (\<lambda>ch. ch\<lparr>ch_tie := Some obj, tied := True\<rparr>)"

definition eventsToString :: "fd \<Rightarrow> int32 \<Rightarrow> string" where
  "eventsToString fd ev = show_int fd @ '': ''
     @ (if has_bits ev POLLIN then ''IN '' else [])
     @ (if has_bits ev POLLPRI then ''PRI '' else [])
     @ (if has_bits ev POLLOUT then ''OUT '' else [])
     @ (if has_bits ev POLLHUP then ''HUP '' else [])
     @ (if has_bits ev POLLRDHUP then ''RDHUP '' else [])
     @ (if has_bits ev POLLERR then ''ERR '' else [])
     @ (if has_bits ev POLLNVAL then ''NVAL '' else [])"

text \<open>
  One of the four tests of \<open>handleEventWithGuard\<close>: the condition is on the \<open>revents_\<close> the channel
  has at that moment, and an empty callback is skipped. \<open>run\<close> is what calling a callback does.
\<close>

definition dispatch :: "('cb \<Rightarrow> ('cb, 'f, 'z) event_loop_scheme \<Rightarrow> ('cb, 'f, 'z) event_loop_scheme res)
    \<Rightarrow> (int32 \<Rightarrow> bool) \<Rightarrow> ('cb channel \<Rightarrow> 'cb option) \<Rightarrow> addr
    \<Rightarrow> ('cb, 'f, 'z) event_loop_scheme \<Rightarrow> ('cb, 'f, 'z) event_loop_scheme res" where
  "dispatch run test sel c l =
     bindR (get_chan c l) (\<lambda>ch.
       if test (revents ch) then (case sel ch of None \<Rightarrow> Inr l | Some cb \<Rightarrow> run cb l) else Inr l)"

definition handleEventWithGuard ::
  "('cb \<Rightarrow> ('cb, 'f, 'z) event_loop_scheme \<Rightarrow> ('cb, 'f, 'z) event_loop_scheme res) \<Rightarrow> addr
    \<Rightarrow> ('cb, 'f, 'z) event_loop_scheme \<Rightarrow> ('cb, 'f, 'z) event_loop_scheme res" where
  "handleEventWithGuard run c l =
     bindR (set_chan c (\<lambda>ch. ch\<lparr>ch_eventHandling := True\<rparr>) l)
      (\<lambda>l. bindR (dispatch run (\<lambda>r. has_bits r POLLHUP \<and> \<not> has_bits r POLLIN) closeCallback c l)
      (\<lambda>l. bindR (dispatch run (\<lambda>r. has_bits r (POLLERR OR POLLNVAL)) errorCallback c l)
      (\<lambda>l. bindR (dispatch run (\<lambda>r. has_bits r (POLLIN OR POLLPRI OR POLLRDHUP)) readCallback c l)
      (\<lambda>l. bindR (dispatch run (\<lambda>r. has_bits r POLLOUT) writeCallback c l)
      (set_chan c (\<lambda>ch. ch\<lparr>ch_eventHandling := False\<rparr>))))))"

definition handleEvent ::
  "('cb \<Rightarrow> ('cb, 'f, 'z) event_loop_scheme \<Rightarrow> ('cb, 'f, 'z) event_loop_scheme res) \<Rightarrow> addr
    \<Rightarrow> ('cb, 'f, 'z) event_loop_scheme \<Rightarrow> ('cb, 'f, 'z) event_loop_scheme res" where
  "handleEvent run c l =
     bindR (get_chan c l) (\<lambda>ch.
       if tied ch
       then (case ch_tie ch of
               Some obj \<Rightarrow> if obj \<in> live l then handleEventWithGuard run c l else Inr l
             | None \<Rightarrow> Inr l)
       else handleEventWithGuard run c l)"

section \<open>Registration, as a whole\<close>

text \<open>Every change of the interest mask is one instance of this.\<close>

definition modify_events :: "(int32 \<Rightarrow> int32) \<Rightarrow> addr \<Rightarrow> ('cb, 'f, 'z) event_loop_scheme
    \<Rightarrow> ('cb, 'f, 'z) event_loop_scheme res" where
  "modify_events f c l =
     bindR (set_chan c (\<lambda>ch. ch\<lparr>events := f (events ch)\<rparr>) l) (Channel_update c)"

lemma event_ops:
  "enableReading = modify_events (\<lambda>e. e OR kReadEvent)"
  "disableReading = modify_events (\<lambda>e. e AND NOT kReadEvent)"
  "enableWriting = modify_events (\<lambda>e. e OR kWriteEvent)"
  "disableWriting = modify_events (\<lambda>e. e AND NOT kWriteEvent)"
  "disableAll = modify_events (\<lambda>_. kNoneEvent)"
  by (simp_all add: fun_eq_iff modify_events_def enableReading_def disableReading_def
      enableWriting_def disableWriting_def disableAll_def)

lemma get_chan_Some [simp]: "chanHeap l c = Some ch \<Longrightarrow> get_chan c l = Inr ch"
  by (simp add: get_chan_def)

lemma get_chan_None [simp]: "chanHeap l c = None \<Longrightarrow> get_chan c l = Inl UseAfterFree"
  by (simp add: get_chan_def)

lemma set_chan_Some [simp]:
  "chanHeap l c = Some ch \<Longrightarrow> set_chan c f l = Inr (l\<lparr>chanHeap := (chanHeap l)(c \<mapsto> f ch)\<rparr>)"
  by (simp add: set_chan_def)

lemma set_chan_None [simp]: "chanHeap l c = None \<Longrightarrow> set_chan c f l = Inl UseAfterFree"
  by (simp add: set_chan_def)

lemma K_distinct [simp]:
  "KNew \<noteq> KAdded" "KAdded \<noteq> KNew" "KNew \<noteq> KDeleted" "KDeleted \<noteq> KNew"
  "KAdded \<noteq> KDeleted" "KDeleted \<noteq> KAdded"
  by (simp_all add: KNew_def KAdded_def KDeleted_def)

text \<open>
  The registry agrees with the channels: a channel is in the poller's map exactly when its index
  says so, it then counts as added to the loop, and every pointer in the map is a live channel
  with that descriptor.
\<close>

definition chan_ok :: "('cb, 'f, 'z) event_loop_scheme \<Rightarrow> addr \<Rightarrow> 'cb channel \<Rightarrow> bool" where
  "chan_ok l c ch \<longleftrightarrow> ownerLoop ch = loopId l
     \<and> (if index ch = KNew then pollChannels l (ch_fd ch) \<noteq> Some c
        else (index ch = KAdded \<or> index ch = KDeleted)
          \<and> pollChannels l (ch_fd ch) = Some c \<and> addedToLoop ch)"

definition reactor_inv :: "('cb, 'f, 'z) event_loop_scheme \<Rightarrow> bool" where
  "reactor_inv l \<longleftrightarrow> (\<forall>c ch. chanHeap l c = Some ch \<longrightarrow> chan_ok l c ch)
     \<and> (\<forall>fd c. pollChannels l fd = Some c \<longrightarrow> (\<exists>ch. chanHeap l c = Some ch \<and> ch_fd ch = fd))"

lemma reactor_invD:
  "reactor_inv l \<Longrightarrow> chanHeap l c = Some ch \<Longrightarrow> chan_ok l c ch"
  "reactor_inv l \<Longrightarrow> pollChannels l fd = Some c \<Longrightarrow> \<exists>ch. chanHeap l c = Some ch \<and> ch_fd ch = fd"
  by (auto simp: reactor_inv_def)

lemma reactor_inv_cong:
  "chanHeap l' = chanHeap l \<Longrightarrow> pollChannels l' = pollChannels l \<Longrightarrow> loopId l' = loopId l \<Longrightarrow>
   reactor_inv l' = reactor_inv l"
  by (simp add: reactor_inv_def chan_ok_def)

text \<open>The state after a change of the mask, in one piece.\<close>

definition after_update :: "(int32 \<Rightarrow> int32) \<Rightarrow> addr \<Rightarrow> 'cb channel
    \<Rightarrow> ('cb, 'f, 'z) event_loop_scheme \<Rightarrow> ('cb, 'f, 'z) event_loop_scheme" where
  "after_update f c ch l =
     (let ev = f (events ch)
      in l\<lparr>chanHeap := (chanHeap l)(c \<mapsto> ch\<lparr>events := ev, addedToLoop := True,
             index := (if index ch = KAdded \<and> ev = kNoneEvent then KDeleted else KAdded)\<rparr>),
           pollChannels := (pollChannels l)(ch_fd ch \<mapsto> c),
           ctl_log := ctl_log l @ [(if index ch \<noteq> KAdded then EPOLL_CTL_ADD
             else if ev = kNoneEvent then EPOLL_CTL_DEL else EPOLL_CTL_MOD, ch_fd ch, ev, c)]\<rparr>)"

definition after_remove :: "addr \<Rightarrow> 'cb channel
    \<Rightarrow> ('cb, 'f, 'z) event_loop_scheme \<Rightarrow> ('cb, 'f, 'z) event_loop_scheme" where
  "after_remove c ch l =
     l\<lparr>chanHeap := (chanHeap l)(c \<mapsto> ch\<lparr>addedToLoop := False, index := KNew\<rparr>),
       pollChannels := (pollChannels l)(ch_fd ch := None),
       ctl_log := (if index ch = KAdded
         then ctl_log l @ [(EPOLL_CTL_DEL, ch_fd ch, events ch, c)] else ctl_log l)\<rparr>"

lemma modify_events_ok:
  assumes inv: "reactor_inv l" and ch: "chanHeap l c = Some ch"
    and free: "pollChannels l (ch_fd ch) = None \<or> pollChannels l (ch_fd ch) = Some c"
  shows "modify_events f c l = Inr (after_update f c ch l)"
proof -
  note ok = reactor_invD(1) [OF inv ch, unfolded chan_ok_def]
  note defs = modify_events_def Channel_update_def EventLoop_updateChannel_def
    Epoller_updateChannel_def Epoller_update_def set_index_def after_update_def isNoneEvent_def Let_def
  from ok consider (new) "index ch = KNew" "pollChannels l (ch_fd ch) = None"
    | (added) "index ch = KAdded" "pollChannels l (ch_fd ch) = Some c"
    | (deleted) "index ch = KDeleted" "pollChannels l (ch_fd ch) = Some c"
    using free by (auto split: if_splits)
  then show ?thesis
  proof cases
    case new
    with ok ch show ?thesis by (simp add: defs)
  next
    case added
    then have idx: "ch\<lparr>events := e, addedToLoop := True, index := KAdded\<rparr>
      = ch\<lparr>events := e, addedToLoop := True\<rparr>" for e
      by (cases ch) simp
    from added ok ch show ?thesis by (simp add: defs map_upd_triv idx)
  next
    case deleted
    with ok ch show ?thesis by (simp add: defs map_upd_triv)
  qed
qed

lemma modify_events_conflict:
  assumes inv: "reactor_inv l" and ch: "chanHeap l c = Some ch"
    and other: "pollChannels l (ch_fd ch) = Some c'" "c' \<noteq> c"
  shows "modify_events f c l = Inl AssertFailed"
  using reactor_invD(1) [OF inv ch] ch other
  by (auto simp: modify_events_def Channel_update_def EventLoop_updateChannel_def
      Epoller_updateChannel_def chan_ok_def Let_def split: if_splits)

lemma modify_events_dead: "chanHeap l c = None \<Longrightarrow> modify_events f c l = Inl UseAfterFree"
  by (simp add: modify_events_def)

lemma modify_events_cases:
  assumes "reactor_inv l" and "modify_events f c l = Inr l'"
  obtains ch where "chanHeap l c = Some ch" "l' = after_update f c ch l"
    "pollChannels l (ch_fd ch) = None \<or> pollChannels l (ch_fd ch) = Some c"
proof (cases "chanHeap l c")
  case None
  with assms(2) show thesis by (simp add: modify_events_dead)
next
  case (Some ch)
  show thesis
  proof (cases "pollChannels l (ch_fd ch) = None \<or> pollChannels l (ch_fd ch) = Some c")
    case True
    with modify_events_ok [OF assms(1) Some True] assms(2) Some that show thesis by simp
  next
    case False
    with modify_events_conflict [OF assms(1) Some] assms(2) show thesis by auto
  qed
qed

lemma Channel_remove_ok:
  assumes inv: "reactor_inv l" and ch: "chanHeap l c = Some ch"
    and reg: "index ch \<noteq> KNew" and none: "isNoneEvent ch"
    and idle: "eventHandling l \<Longrightarrow> c \<notin> set (activeChannels l) \<or> currentActiveChannel l = Some c"
  shows "Channel_remove c l = Inr (after_remove c ch l)"
proof -
  note defs = Channel_remove_def EventLoop_removeChannel_def Epoller_removeChannel_def
    Epoller_update_def set_index_def after_remove_def isNoneEvent_def Let_def
  have act: "eventHandling l \<longrightarrow> c \<notin> set (activeChannels l) \<or> currentActiveChannel l = Some c"
    using idle by blast
  from reactor_invD(1) [OF inv ch] reg have ok: "ownerLoop ch = loopId l"
    "pollChannels l (ch_fd ch) = Some c" "index ch = KAdded \<or> index ch = KDeleted"
    by (auto simp: chan_ok_def)
  from ok(3) show ?thesis
  proof
    assume "index ch = KAdded"
    with ok ch none act show ?thesis by (simp add: defs)
  next
    assume "index ch = KDeleted"
    with ok ch none act show ?thesis by (simp add: defs)
  qed
qed

lemma Channel_remove_cases:
  assumes inv: "reactor_inv l" and rm: "Channel_remove c l = Inr l'"
  obtains ch where "chanHeap l c = Some ch" "l' = after_remove c ch l" "index ch \<noteq> KNew"
    "isNoneEvent ch"
proof (cases "chanHeap l c")
  case None
  with rm show thesis by (simp add: Channel_remove_def)
next
  case (Some ch)
  have none: "isNoneEvent ch"
    using rm Some by (simp add: Channel_remove_def cassert_eq_Inr)
  have act: "c \<notin> set (activeChannels l) \<or> currentActiveChannel l = Some c" if "eventHandling l"
    using rm Some that
    by (simp add: Channel_remove_def cassert_eq_Inr EventLoop_removeChannel_def)
  have reg: "index ch \<noteq> KNew"
    using rm Some
    by (auto simp: Channel_remove_def cassert_eq_Inr EventLoop_removeChannel_def
        Epoller_removeChannel_def Let_def)
  show thesis
    using Channel_remove_ok [OF inv Some reg none act] rm Some that reg none by auto
qed

text \<open>Changing one channel and the map entry of its descriptor leaves the others as they were.\<close>

lemma reactor_inv_upd:
  assumes inv: "reactor_inv l" and ch: "chanHeap l c = Some ch"
    and free: "pollChannels l (ch_fd ch) = None \<or> pollChannels l (ch_fd ch) = Some c"
    and x: "x = None \<or> x = Some c"
    and l': "chanHeap l' = (chanHeap l)(c \<mapsto> ch')" "pollChannels l' = (pollChannels l)(ch_fd ch := x)"
      "loopId l' = loopId l" "ch_fd ch' = ch_fd ch"
    and ok: "chan_ok l' c ch'"
  shows "reactor_inv l'"
proof -
  have others: "pollChannels l fd \<noteq> Some c" if "fd \<noteq> ch_fd ch" for fd
    using reactor_invD(2) [OF inv] ch that by fastforce
  have "chan_ok l' d dh" if "chanHeap l' d = Some dh" for d dh
  proof (cases "d = c")
    case True
    with that ok l'(1) show ?thesis by simp
  next
    case False
    with that l'(1) have h: "chanHeap l d = Some dh" by simp
    with reactor_invD(1) [OF inv h] False free x l' show ?thesis
      by (auto simp: chan_ok_def split: if_splits)
  qed
  moreover have "\<exists>dh. chanHeap l' d = Some dh \<and> ch_fd dh = fd" if "pollChannels l' fd = Some d" for fd d
    using that others reactor_invD(2) [OF inv, of fd d] x l'
    by (auto split: if_splits)
  ultimately show ?thesis unfolding reactor_inv_def by blast
qed

lemma after_update_inv:
  assumes inv: "reactor_inv l" and ch: "chanHeap l c = Some ch"
    and free: "pollChannels l (ch_fd ch) = None \<or> pollChannels l (ch_fd ch) = Some c"
  shows "reactor_inv (after_update f c ch l)"
  by (rule reactor_inv_upd [where x = "Some c"
        and ch' = "the (chanHeap (after_update f c ch l) c)", OF inv ch free])
    (use reactor_invD(1) [OF inv ch] in \<open>simp_all add: after_update_def chan_ok_def Let_def\<close>)

lemma after_remove_inv:
  assumes inv: "reactor_inv l" and ch: "chanHeap l c = Some ch" and reg: "index ch \<noteq> KNew"
  shows "reactor_inv (after_remove c ch l)"
  by (rule reactor_inv_upd [where x = None
        and ch' = "the (chanHeap (after_remove c ch l) c)", OF inv ch])
    (use reactor_invD(1) [OF inv ch] reg in \<open>simp_all add: after_remove_def chan_ok_def\<close>)

section \<open>The kernel's view\<close>

text \<open>
  \<open>epoll_ctl\<close> is the kernel's. What the code relies on is what its manual page promises: adding a
  descriptor that is not in the interest list, and changing or deleting one that is, succeed and
  have the obvious effect. A \<open>None\<close> is a failed call.
\<close>

type_synonym kernel_set = "fd \<rightharpoonup> int32 \<times> addr"
type_synonym ctl_fun = "epoll_op \<Rightarrow> fd \<Rightarrow> int32 \<times> addr \<Rightarrow> kernel_set \<Rightarrow> kernel_set option"

definition epoll_doc :: "ctl_fun \<Rightarrow> bool" where
  "epoll_doc ctl \<longleftrightarrow> (\<forall>fd ev m.
     (m fd = None \<longrightarrow> ctl EPOLL_CTL_ADD fd ev m = Some (m(fd \<mapsto> ev)))
     \<and> (m fd \<noteq> None \<longrightarrow> ctl EPOLL_CTL_MOD fd ev m = Some (m(fd \<mapsto> ev))
         \<and> ctl EPOLL_CTL_DEL fd ev m = Some (m(fd := None))))"

fun replay :: "ctl_fun \<Rightarrow> (epoll_op \<times> fd \<times> int32 \<times> addr) list \<Rightarrow> kernel_set \<Rightarrow> kernel_set option" where
  "replay ctl [] m = Some m"
| "replay ctl ((op, fd, ev) # log) m = Option.bind (ctl op fd ev m) (replay ctl log)"

lemma replay_append: "replay ctl (xs @ ys) m = Option.bind (replay ctl xs m) (replay ctl ys)"
  by (induction ctl xs m rule: replay.induct) (auto split: Option.bind_splits)

text \<open>The interest list the code believes the kernel has.\<close>

definition interest :: "('cb, 'f, 'z) event_loop_scheme \<Rightarrow> kernel_set" where
  "interest l fd =
     (case pollChannels l fd of None \<Rightarrow> None
      | Some c \<Rightarrow> (case chanHeap l c of None \<Rightarrow> None
         | Some ch \<Rightarrow> if index ch = KAdded then Some (events ch, c) else None))"

definition synced :: "('cb, 'f, 'z) event_loop_scheme \<Rightarrow> bool" where
  "synced l \<longleftrightarrow> (\<forall>ctl. epoll_doc ctl \<longrightarrow> replay ctl (ctl_log l) Map.empty = Some (interest l))"

lemma interest_self:
  assumes "reactor_inv l" and "chanHeap l c = Some ch" and "index ch \<noteq> KNew"
  shows "interest l (ch_fd ch) = (if index ch = KAdded then Some (events ch, c) else None)"
  using reactor_invD(1) [OF assms(1,2)] assms(2,3) by (simp add: interest_def chan_ok_def)

lemma interest_upd:
  assumes inv: "reactor_inv l" and ch: "chanHeap l c = Some ch"
    and l': "chanHeap l' = (chanHeap l)(c \<mapsto> ch')" "pollChannels l' = (pollChannels l)(ch_fd ch := x)"
    and x: "x = None \<or> x = Some c"
  shows "interest l' = (interest l)(ch_fd ch :=
    if x = Some c \<and> index ch' = KAdded then Some (events ch', c) else None)"
proof
  fix fd
  have "pollChannels l fd \<noteq> Some c" if "fd \<noteq> ch_fd ch"
    using reactor_invD(2) [OF inv] ch that by fastforce
  then show "interest l' fd = ((interest l)(ch_fd ch :=
    if x = Some c \<and> index ch' = KAdded then Some (events ch', c) else None)) fd"
    using l' x by (cases "fd = ch_fd ch") (auto simp: interest_def split: option.splits)
qed

lemma after_update_synced:
  assumes inv: "reactor_inv l" and ch: "chanHeap l c = Some ch" and sync: "synced l"
    and free: "pollChannels l (ch_fd ch) = None \<or> pollChannels l (ch_fd ch) = Some c"
  shows "synced (after_update f c ch l)"
proof -
  let ?ch = "the (chanHeap (after_update f c ch l) c)"
  have new: "interest (after_update f c ch l) = (interest l)(ch_fd ch :=
      if index ?ch = KAdded then Some (events ?ch, c) else None)"
    using interest_upd [OF inv ch, of "after_update f c ch l" ?ch "Some c"]
    by (simp add: after_update_def Let_def)
  have old: "interest l (ch_fd ch) = (if index ch = KAdded then Some (events ch, c) else None)"
    using interest_self [OF inv ch] reactor_invD(1) [OF inv ch] free
    by (auto simp: interest_def chan_ok_def split: if_splits)
  show ?thesis
    using sync new old unfolding synced_def
    by (auto simp: after_update_def Let_def replay_append epoll_doc_def)
qed

lemma after_remove_synced:
  assumes inv: "reactor_inv l" and ch: "chanHeap l c = Some ch" and sync: "synced l"
    and reg: "index ch \<noteq> KNew"
  shows "synced (after_remove c ch l)"
proof -
  have new: "interest (after_remove c ch l) = (interest l)(ch_fd ch := None)"
    using interest_upd [OF inv ch, of "after_remove c ch l" _ None]
    by (simp add: after_remove_def)
  have old: "interest l (ch_fd ch) = (if index ch = KAdded then Some (events ch, c) else None)"
    by (rule interest_self [OF inv ch reg])
  have "(interest l)(ch_fd ch := None) = interest l" if "index ch \<noteq> KAdded"
    using that old by (simp add: fun_upd_idem)
  with sync new old show ?thesis
    unfolding synced_def by (auto simp: after_remove_def replay_append epoll_doc_def)
qed

section \<open>Runs of registration\<close>

text \<open>
  What the components of a loop do to their channels: create them, change their mask, remove them
  from the loop, destroy them. A step is a call that returns; addresses of new objects are fresh.
\<close>

inductive chan_step :: "('cb, 'f, 'z) event_loop_scheme \<Rightarrow> ('cb, 'f, 'z) event_loop_scheme \<Rightarrow> bool" where
  create: "chanHeap l c = None \<Longrightarrow> chan_step l (newChannel c fd l)"
| enable_reading: "enableReading c l = Inr l' \<Longrightarrow> chan_step l l'"
| disable_reading: "disableReading c l = Inr l' \<Longrightarrow> chan_step l l'"
| enable_writing: "enableWriting c l = Inr l' \<Longrightarrow> chan_step l l'"
| disable_writing: "disableWriting c l = Inr l' \<Longrightarrow> chan_step l l'"
| disable_all: "disableAll c l = Inr l' \<Longrightarrow> chan_step l l'"
| remove: "Channel_remove c l = Inr l' \<Longrightarrow> chan_step l l'"
| destroy: "Channel_dtor c l = Inr l' \<Longrightarrow> chan_step l l'"

definition fresh_loop :: "('cb, 'f, 'z) event_loop_scheme \<Rightarrow> bool" where
  "fresh_loop l \<longleftrightarrow> chanHeap l = Map.empty \<and> pollChannels l = Map.empty \<and> ctl_log l = []"

definition registry_inv :: "('cb, 'f, 'z) event_loop_scheme \<Rightarrow> bool" where
  "registry_inv l \<longleftrightarrow> reactor_inv l \<and> synced l"

lemma modify_events_registry:
  "registry_inv l \<Longrightarrow> modify_events f c l = Inr l' \<Longrightarrow> registry_inv l'"
  unfolding registry_inv_def
  by (metis modify_events_cases after_update_inv after_update_synced)

lemma remove_registry: "registry_inv l \<Longrightarrow> Channel_remove c l = Inr l' \<Longrightarrow> registry_inv l'"
  unfolding registry_inv_def
  by (metis Channel_remove_cases after_remove_inv after_remove_synced)

lemma newChannel_reactor:
  assumes R: "reactor_inv l" and fresh: "chanHeap l c = None"
  shows "reactor_inv (newChannel c fd l)"
proof -
  have unused: "pollChannels l d \<noteq> Some c" for d
    using reactor_invD(2) [OF R, of d c] fresh by auto
  then show ?thesis
    using R unfolding reactor_inv_def
    by (auto simp: newChannel_def chan_ok_def mkChannel_def KNew_def split: if_splits)
qed

lemma newChannel_registry:
  assumes inv: "registry_inv l" and fresh: "chanHeap l c = None"
  shows "registry_inv (newChannel c fd l)"
proof -
  from inv have R: "reactor_inv l" by (simp add: registry_inv_def)
  have unused: "pollChannels l d \<noteq> Some c" for d
    using reactor_invD(2) [OF R, of d c] fresh by auto
  have "interest (newChannel c fd l) = interest l"
    using unused fresh by (auto simp: fun_eq_iff interest_def newChannel_def split: option.splits)
  with newChannel_reactor [OF R fresh] show ?thesis
    using inv by (simp add: registry_inv_def synced_def newChannel_def)
qed

lemma destroy_keeps:
  assumes R: "reactor_inv l" and del: "Channel_dtor c l = Inr l'"
  shows "reactor_inv l' \<and> interest l' = interest l \<and> ctl_log l' = ctl_log l"
proof -
  from del obtain ch where ch: "chanHeap l c = Some ch" "\<not> addedToLoop ch"
    and l': "l' = l\<lparr>chanHeap := (chanHeap l)(c := None)\<rparr>"
    by (cases "chanHeap l c") (auto simp: Channel_dtor_def cassert_eq_Inr)
  have unused: "pollChannels l d \<noteq> Some c" for d
    using reactor_invD(2) [OF R, of d c] reactor_invD(1) [OF R ch(1)] ch
    by (auto simp: chan_ok_def split: if_splits)
  have "interest l' = interest l"
    using unused by (auto simp: fun_eq_iff interest_def l' split: option.splits)
  moreover have "reactor_inv l'"
    using R unused unfolding reactor_inv_def by (auto simp: l' chan_ok_def split: if_splits)
  ultimately show ?thesis
    by (simp add: l')
qed

lemmas destroy_reactor = destroy_keeps [THEN conjunct1]

lemma destroy_registry: "registry_inv l \<Longrightarrow> Channel_dtor c l = Inr l' \<Longrightarrow> registry_inv l'"
  using destroy_keeps [of l c l'] by (simp add: registry_inv_def synced_def)

interpretation registry: transition_system fresh_loop chan_step registry_inv
proof unfold_locales
  fix l :: "('cb, 'f, 'z) event_loop_scheme"
  assume "fresh_loop l"
  then show "registry_inv l"
    by (simp add: fresh_loop_def registry_inv_def reactor_inv_def synced_def interest_def fun_eq_iff)
next
  fix l l' :: "('cb, 'f, 'z) event_loop_scheme"
  assume inv: "registry_inv l" and "chan_step l l'"
  from this(2) show "registry_inv l'"
    by cases (use inv in \<open>auto simp: event_ops intro: modify_events_registry remove_registry
        newChannel_registry destroy_registry\<close>)
qed

section \<open>Masks\<close>

lemma has_bits_or: "has_bits (e OR m) k \<longleftrightarrow> has_bits e k \<or> has_bits m k"
proof -
  have "(e OR m) AND k = (e AND k) OR (m AND k)" by (rule bit.conj_disj_distrib2)
  then show ?thesis by (simp add: has_bits_def or_eq_0_iff)
qed

lemma has_bits_and_not: "m AND k = 0 \<Longrightarrow> has_bits (e AND NOT m) k \<longleftrightarrow> has_bits e k"
proof -
  assume m: "m AND k = 0"
  have "(e AND NOT m) AND k = e AND k"
  proof (rule bit_eqI)
    fix n
    have "\<not> (bit m n \<and> bit k n)"
      using m by (metis bit_and_iff bit_0_eq bot_apply bot_bool_def)
    then show "bit ((e AND NOT m) AND k) n \<longleftrightarrow> bit (e AND k) n"
      by (auto simp: bit_simps dest: bit_imp_le_length)
  qed
  then show ?thesis by (simp add: has_bits_def)
qed

lemma has_bits_cleared: "\<not> has_bits (e AND NOT m) m"
  by (simp add: has_bits_def and.assoc)

lemma mask_bits [simp]:
  "has_bits kReadEvent kReadEvent" "has_bits kWriteEvent kWriteEvent"
  "\<not> has_bits kReadEvent kWriteEvent" "\<not> has_bits kWriteEvent kReadEvent"
  "\<not> has_bits kNoneEvent k"
  by (simp_all add: has_bits_def kReadEvent_def kWriteEvent_def kNoneEvent_def POLLIN_def
      POLLPRI_def POLLOUT_def)

lemma mask_disjoint: "kReadEvent AND kWriteEvent = 0" "kWriteEvent AND kReadEvent = 0"
  by (simp_all add: kReadEvent_def kWriteEvent_def POLLIN_def POLLPRI_def POLLOUT_def)

lemma after_update_chan [simp]:
  "chanHeap (after_update f c ch l) c = Some (ch\<lparr>events := f (events ch), addedToLoop := True,
     index := (if index ch = KAdded \<and> f (events ch) = kNoneEvent then KDeleted else KAdded)\<rparr>)"
  by (simp add: after_update_def Let_def)

text \<open>The state of a channel's two interests after each operation.\<close>

definition interests_of :: "('cb, 'f, 'z) event_loop_scheme \<Rightarrow> addr \<Rightarrow> (bool \<times> bool) option" where
  "interests_of l c = map_option (\<lambda>ch. (isReading ch, isWriting ch)) (chanHeap l c)"

lemma modify_interests:
  assumes "reactor_inv l" and "chanHeap l c = Some ch"
    and "pollChannels l (ch_fd ch) = None \<or> pollChannels l (ch_fd ch) = Some c"
  shows "\<exists>l'. modify_events f c l = Inr l' \<and> reactor_inv l'
    \<and> interests_of l' c = Some (has_bits (f (events ch)) kReadEvent, has_bits (f (events ch)) kWriteEvent)"
  using modify_events_ok [OF assms, of f] after_update_inv [OF assms, of f]
  by (simp add: interests_of_def isReading_def isWriting_def)

section \<open>Dispatching\<close>

definition due :: "'cb channel \<Rightarrow> 'cb list" where
  "due ch =
     (let r = revents ch
      in (if has_bits r POLLHUP \<and> \<not> has_bits r POLLIN then case_option [] (\<lambda>x. [x]) (closeCallback ch) else [])
       @ (if has_bits r (POLLERR OR POLLNVAL) then case_option [] (\<lambda>x. [x]) (errorCallback ch) else [])
       @ (if has_bits r (POLLIN OR POLLPRI OR POLLRDHUP) then case_option [] (\<lambda>x. [x]) (readCallback ch) else [])
       @ (if has_bits r POLLOUT then case_option [] (\<lambda>x. [x]) (writeCallback ch) else []))"

definition same_dispatch :: "'cb channel \<Rightarrow> 'cb channel \<Rightarrow> bool" where
  "same_dispatch a b \<longleftrightarrow> revents a = revents b \<and> closeCallback a = closeCallback b
     \<and> errorCallback a = errorCallback b \<and> readCallback a = readCallback b
     \<and> writeCallback a = writeCallback b"

text \<open>
  A callback leaves the channel it is called from alive, with the events and the callbacks it had:
  nothing in the library replaces them while a channel is being handled.
\<close>

definition keeps_dispatch ::
  "('cb \<Rightarrow> ('cb, 'f, 'z) event_loop_scheme \<Rightarrow> ('cb, 'f, 'z) event_loop_scheme res) \<Rightarrow> addr \<Rightarrow> bool" where
  "keeps_dispatch run c \<longleftrightarrow> (\<forall>cb l l' ch. chanHeap l c = Some ch \<longrightarrow> run cb l = Inr l' \<longrightarrow>
     (\<exists>ch'. chanHeap l' c = Some ch' \<and> same_dispatch ch ch'))"

lemma dispatch_step:
  assumes "chanHeap l c = Some ch'" and "same_dispatch ch ch'"
    and "\<And>a b. same_dispatch a b \<Longrightarrow> sel a = sel b"
  shows "dispatch run test sel c l
    = foldR run (if test (revents ch) then case_option [] (\<lambda>x. [x]) (sel ch) else []) l"
proof -
  have sel: "sel ch' = sel ch" using assms(3) [OF assms(2)] by simp
  have rev: "revents ch' = revents ch" using assms(2) by (simp add: same_dispatch_def)
  have "foldR run [] = Inr" by (simp add: fun_eq_iff)
  with assms(1) sel rev show ?thesis by (auto simp: dispatch_def split: option.splits)
qed

lemma foldR_keeps:
  assumes "keeps_dispatch run c" and "chanHeap l c = Some ch'" and "same_dispatch ch ch'"
    and "foldR run cbs l = Inr l'"
  shows "\<exists>ch''. chanHeap l' c = Some ch'' \<and> same_dispatch ch ch''"
  using assms(2-4)
proof (induction cbs arbitrary: l ch')
  case Nil
  then show ?case by auto
next
  case (Cons cb cbs)
  then obtain m where m: "run cb l = Inr m" "foldR run cbs m = Inr l'"
    by (auto simp: bindR_eq_Inr)
  with assms(1) Cons.prems(1) obtain mh where mh: "chanHeap m c = Some mh" "same_dispatch ch' mh"
    unfolding keeps_dispatch_def by blast
  with Cons.prems(2) have "same_dispatch ch mh" by (simp add: same_dispatch_def)
  with Cons.IH [OF mh(1)] m show ?case by blast
qed

lemma dispatch_bind:
  assumes keeps: "keeps_dispatch run c" and ch': "chanHeap l c = Some ch'" "same_dispatch ch ch'"
    and sel: "\<And>a b. same_dispatch a b \<Longrightarrow> sel a = sel b"
    and rest: "\<And>l ch'. chanHeap l c = Some ch' \<Longrightarrow> same_dispatch ch ch' \<Longrightarrow> k l = bindR (foldR run cbs l) fin"
  shows "bindR (dispatch run test sel c l) k = bindR (foldR run
    ((if test (revents ch) then case_option [] (\<lambda>x. [x]) (sel ch) else []) @ cbs) l) fin"
proof -
  let ?now = "if test (revents ch) then case_option [] (\<lambda>x. [x]) (sel ch) else []"
  have "dispatch run test sel c l = foldR run ?now l"
    by (rule dispatch_step [OF ch' sel])
  moreover have "k l' = bindR (foldR run cbs l') fin" if "foldR run ?now l = Inr l'" for l'
    using foldR_keeps [OF keeps ch' that] rest by blast
  ultimately show ?thesis
    by (cases "foldR run ?now l") (auto simp: foldR_append bindR_assoc)
qed

lemma handleEventWithGuard_due:
  assumes keeps: "keeps_dispatch run c" and ch: "chanHeap l c = Some ch"
  shows "handleEventWithGuard run c l =
    bindR (set_chan c (\<lambda>ch. ch\<lparr>ch_eventHandling := True\<rparr>) l)
      (\<lambda>l1. bindR (foldR run (due ch) l1) (set_chan c (\<lambda>ch. ch\<lparr>ch_eventHandling := False\<rparr>)))"
proof -
  let ?fin = "set_chan c (\<lambda>ch. ch\<lparr>ch_eventHandling := False\<rparr>)"
  let ?sel = "\<lambda>test sel. if test (revents ch) then case_option [] (\<lambda>x. [x]) (sel ch) else []"
  let ?tc = "\<lambda>r. has_bits r POLLHUP \<and> \<not> has_bits r POLLIN"
  let ?te = "\<lambda>r. has_bits r (POLLERR OR POLLNVAL)"
  let ?tr = "\<lambda>r. has_bits r (POLLIN OR POLLPRI OR POLLRDHUP)"
  let ?tw = "\<lambda>r. has_bits r POLLOUT"
  have w: "bindR (dispatch run ?tw writeCallback c l) ?fin
      = bindR (foldR run (?sel ?tw writeCallback @ []) l) ?fin"
    if "chanHeap l c = Some ch'" "same_dispatch ch ch'" for l ch'
    by (rule dispatch_bind [OF keeps that]) (simp_all add: same_dispatch_def)
  have r: "bindR (dispatch run ?tr readCallback c l) (\<lambda>l. bindR (dispatch run ?tw writeCallback c l) ?fin)
      = bindR (foldR run (?sel ?tr readCallback @ ?sel ?tw writeCallback @ []) l) ?fin"
    if "chanHeap l c = Some ch'" "same_dispatch ch ch'" for l ch'
    by (rule dispatch_bind [OF keeps that]) (simp_all add: same_dispatch_def w)
  have e: "bindR (dispatch run ?te errorCallback c l) (\<lambda>l. bindR (dispatch run ?tr readCallback c l)
        (\<lambda>l. bindR (dispatch run ?tw writeCallback c l) ?fin))
      = bindR (foldR run (?sel ?te errorCallback @ ?sel ?tr readCallback @ ?sel ?tw writeCallback @ []) l) ?fin"
    if "chanHeap l c = Some ch'" "same_dispatch ch ch'" for l ch'
    by (rule dispatch_bind [OF keeps that]) (simp_all add: same_dispatch_def r)
  have "bindR (dispatch run ?tc closeCallback c l) (\<lambda>l. bindR (dispatch run ?te errorCallback c l)
        (\<lambda>l. bindR (dispatch run ?tr readCallback c l) (\<lambda>l. bindR (dispatch run ?tw writeCallback c l) ?fin)))
      = bindR (foldR run (due ch) l) ?fin"
    if "chanHeap l c = Some ch'" "same_dispatch ch ch'" for l ch'
    using dispatch_bind [OF keeps that, of closeCallback _ _ _ ?tc, OF _ e]
    by (simp add: same_dispatch_def due_def Let_def)
  then show ?thesis
    using ch by (simp add: handleEventWithGuard_def same_dispatch_def)
qed

section \<open>Polling\<close>

definition registered :: "('cb, 'f, 'z) event_loop_scheme \<Rightarrow> addr \<Rightarrow> bool" where
  "registered l c \<longleftrightarrow> (\<exists>ch. chanHeap l c = Some ch \<and> pollChannels l (ch_fd ch) = Some c)"

definition revents_of :: "('cb, 'f, 'z) event_loop_scheme \<Rightarrow> addr \<Rightarrow> int32 option" where
  "revents_of l c = map_option revents (chanHeap l c)"

definition with_active :: "(int32 \<times> addr) list \<Rightarrow> ('cb, 'f, 'z) event_loop_scheme
    \<Rightarrow> ('cb, 'f, 'z) event_loop_scheme \<Rightarrow> bool" where
  "with_active evs l l' \<longleftrightarrow> activeChannels l' = activeChannels l @ map snd evs
     \<and> (\<forall>c. revents_of l' c = (case map_of (map prod.swap evs) c of
            None \<Rightarrow> revents_of l c | Some ev \<Rightarrow> Some ev))
     \<and> (\<forall>c. registered l' c = registered l c)
     \<and> pollChannels l' = pollChannels l \<and> ctl_log l' = ctl_log l \<and> eventsSize l' = eventsSize l"

lemma fillActive_ok:
  assumes "registered l c"
  shows "\<exists>l'. fillActive (ev, c) l = Inr l' \<and> with_active [(ev, c)] l l'"
proof -
  from assms obtain ch where ch: "chanHeap l c = Some ch" "pollChannels l (ch_fd ch) = Some c"
    by (auto simp: registered_def)
  then show ?thesis
    by (auto simp: fillActive_def Let_def set_revents_def with_active_def revents_of_def registered_def)
qed

lemma foldR_fillActive:
  assumes "\<forall>c \<in> snd ` set evs. registered l c" and "distinct (map snd evs)"
  shows "\<exists>l'. foldR fillActive evs l = Inr l' \<and> with_active evs l l'"
  using assms
proof (induction evs arbitrary: l)
  case Nil
  then show ?case by (simp add: with_active_def)
next
  case (Cons e evs)
  obtain ev c where e: "e = (ev, c)" by (cases e)
  from Cons.prems fillActive_ok [of l c ev] obtain m where
    m: "fillActive (ev, c) l = Inr m" "with_active [(ev, c)] l m" by (auto simp: e)
  have "\<forall>c \<in> snd ` set evs. registered m c"
    using Cons.prems m(2) by (auto simp: with_active_def)
  from Cons.IH [OF this] Cons.prems(2) obtain l' where
    l': "foldR fillActive evs m = Inr l'" "with_active evs m l'" by auto
  have fresh: "map_of (map prod.swap evs) c = None"
    using Cons.prems(2) by (auto simp: e map_of_eq_None_iff image_image)
  have "with_active (e # evs) l l'"
    using m(2) l'(2) fresh by (auto simp: with_active_def e split: option.splits)
  with m l' show ?case by (simp add: e)
qed

section \<open>Properties\<close>

text \<open>
  C6. The kernel and the loop agree. From a loop without channels, after any sequence of channel
  creations, mask changes, removals and destructions that return: every \<open>epoll_ctl\<close> call the code
  made was legal for a kernel that behaves as documented, so none failed; the kernel's interest
  list is exactly the descriptors, masks and channel pointers the registered channels have; and no
  pointer in the poller's map dangles, because destroying a registered channel aborts.
\<close>

theorem registry_kernel_sync:
  assumes "fresh_loop l0" and "chan_step\<^sup>*\<^sup>* l0 l" and "epoll_doc ctl"
  shows "replay ctl (ctl_log l) Map.empty = Some (interest l)
    \<and> (\<forall>fd c. pollChannels l fd = Some c \<longrightarrow>
        (\<exists>ch. chanHeap l c = Some ch \<and> ch_fd ch = fd \<and> Channel_dtor c l = Inl AssertFailed))"
proof -
  from registry.reachable_inv [OF assms(1,2)] have inv: "reactor_inv l" and "synced l"
    by (auto simp: registry_inv_def)
  then have "replay ctl (ctl_log l) Map.empty = Some (interest l)"
    using assms(3) by (auto simp: synced_def)
  moreover have "\<exists>ch. chanHeap l c = Some ch \<and> ch_fd ch = fd \<and> Channel_dtor c l = Inl AssertFailed"
    if pc: "pollChannels l fd = Some c" for fd c
  proof -
    from reactor_invD(2) [OF inv pc] obtain ch where ch: "chanHeap l c = Some ch" "ch_fd ch = fd"
      by blast
    with reactor_invD(1) [OF inv ch(1)] pc have "addedToLoop ch"
      by (auto simp: chan_ok_def split: if_splits)
    with ch show ?thesis by (simp add: Channel_dtor_def cassert_def)
  qed
  ultimately show ?thesis by blast
qed

definition sample_ctl :: ctl_fun where
  "sample_ctl op fd ev m =
     (case op of
        EPOLL_CTL_ADD \<Rightarrow> (if m fd = None then Some (m(fd \<mapsto> ev)) else None)
      | EPOLL_CTL_MOD \<Rightarrow> (if m fd = None then None else Some (m(fd \<mapsto> ev)))
      | EPOLL_CTL_DEL \<Rightarrow> (if m fd = None then None else Some (m(fd := None))))"

definition sample_loop :: "(nat, nat) event_loop" where
  "sample_loop = newChannel 7 5 (loop_members 0 0)"

lemma sample_loop_inv: "reactor_inv sample_loop" "chanHeap sample_loop 7 = Some (mkChannel 0 5)"
  "pollChannels sample_loop 5 = None"
  by (auto simp: sample_loop_def reactor_inv_def newChannel_def loop_members_def mkChannel_def
      chan_ok_def KNew_def)

theorem registry_kernel_sync_witness:
  "\<exists>l. enableReading 7 sample_loop = Inr l \<and> pollChannels l 5 = Some 7
    \<and> replay sample_ctl (ctl_log l) Map.empty = Some (interest l)
    \<and> (\<forall>fd c. pollChannels l fd = Some c \<longrightarrow>
        (\<exists>ch. chanHeap l c = Some ch \<and> ch_fd ch = fd \<and> Channel_dtor c l = Inl AssertFailed))"
proof -
  let ?l = "after_update (\<lambda>e. e OR kReadEvent) 7 (mkChannel 0 5) sample_loop"
  have en: "enableReading 7 sample_loop = Inr ?l"
    using modify_events_ok [OF sample_loop_inv(1,2)] sample_loop_inv(3)
    by (simp add: event_ops mkChannel_def)
  have init: "fresh_loop (loop_members 0 0 :: (nat, nat) event_loop)"
    by (simp add: fresh_loop_def loop_members_def)
  have s1: "chan_step (loop_members 0 0) sample_loop"
    unfolding sample_loop_def by (rule chan_step.create) (simp add: loop_members_def)
  note s2 = chan_step.enable_reading [OF en]
  have run: "chan_step\<^sup>*\<^sup>* (loop_members 0 0) ?l"
    by (rule rtranclp.rtrancl_into_rtrancl [OF r_into_rtranclp [of chan_step, OF s1] s2])
  have doc: "epoll_doc sample_ctl" by (simp add: epoll_doc_def sample_ctl_def)
  have "pollChannels ?l 5 = Some 7"
    by (simp add: after_update_def Let_def mkChannel_def)
  with en registry_kernel_sync [OF init run doc] show ?thesis by blast
qed

text \<open>
  The mask operations do what their names say and nothing else: on a registered or new channel
  whose descriptor no other channel has claimed, each returns, keeps the registry invariant, and
  sets or clears its own interest while the other one stays as it was.
\<close>

lemma mask_operations:
  assumes "reactor_inv l" and "chanHeap l c = Some ch"
    and "pollChannels l (ch_fd ch) = None \<or> pollChannels l (ch_fd ch) = Some c"
  shows "(\<exists>l'. enableReading c l = Inr l' \<and> reactor_inv l' \<and> interests_of l' c = Some (True, isWriting ch))
    \<and> (\<exists>l'. disableReading c l = Inr l' \<and> reactor_inv l' \<and> interests_of l' c = Some (False, isWriting ch))
    \<and> (\<exists>l'. enableWriting c l = Inr l' \<and> reactor_inv l' \<and> interests_of l' c = Some (isReading ch, True))
    \<and> (\<exists>l'. disableWriting c l = Inr l' \<and> reactor_inv l' \<and> interests_of l' c = Some (isReading ch, False))
    \<and> (\<exists>l'. disableAll c l = Inr l' \<and> reactor_inv l' \<and> interests_of l' c = Some (False, False))"
  using modify_interests [OF assms, of "\<lambda>e. e OR kReadEvent"]
    modify_interests [OF assms, of "\<lambda>e. e AND NOT kReadEvent"]
    modify_interests [OF assms, of "\<lambda>e. e OR kWriteEvent"]
    modify_interests [OF assms, of "\<lambda>e. e AND NOT kWriteEvent"]
    modify_interests [OF assms, of "\<lambda>_. kNoneEvent"]
  by (simp add: event_ops has_bits_or has_bits_and_not has_bits_cleared mask_disjoint
      isReading_def isWriting_def)

text \<open>
  C8. Event dispatch. A channel whose owner is gone runs no callback. Otherwise the callbacks run
  in the order close, error, read, write, each exactly when its event bits are set and it is
  installed (close only when hang-up comes without readable data), between setting and clearing
  the handling flag; the first one that fails ends the dispatch.
\<close>

theorem handleEvent_dispatch:
  assumes "keeps_dispatch run c" and "chanHeap l c = Some ch"
  shows "handleEvent run c l =
    (if tied ch \<and> (\<forall>obj. ch_tie ch = Some obj \<longrightarrow> obj \<notin> live l) then Inr l
     else bindR (set_chan c (\<lambda>ch. ch\<lparr>ch_eventHandling := True\<rparr>) l)
       (\<lambda>l1. bindR (foldR run (due ch) l1) (set_chan c (\<lambda>ch. ch\<lparr>ch_eventHandling := False\<rparr>))))"
  using handleEventWithGuard_due [OF assms] assms(2)
  by (auto simp: handleEvent_def split: option.splits)

text \<open>A channel with an error, input and room for output, all at once.\<close>

definition busy_channel :: "nat channel" where
  "busy_channel = (mkChannel 0 5)\<lparr>revents := POLLERR OR POLLIN OR POLLOUT, readCallback := Some 2,
     writeCallback := Some 3, errorCallback := Some 1, closeCallback := Some 4\<rparr>"

theorem handleEvent_dispatch_witness:
  "\<exists>l'. handleEvent (\<lambda>cb l. Inr (l\<lparr>pendingFunctors := pendingFunctors l @ [cb]\<rparr>)) 7 (sample_loop\<lparr>chanHeap := [7 \<mapsto> busy_channel]\<rparr>) = Inr l'
    \<and> pendingFunctors l' = [1, 2, 3] \<and> chanHeap l' 7 = Some busy_channel"
proof -
  let ?run = "\<lambda>cb l. Inr (l\<lparr>pendingFunctors := pendingFunctors l @ [cb]\<rparr>)"
  have run: "keeps_dispatch ?run 7" by (auto simp: keeps_dispatch_def same_dispatch_def)
  have "due busy_channel = [1, 2, 3]"
    by (simp add: due_def busy_channel_def mkChannel_def has_bits_def POLLERR_def POLLIN_def POLLOUT_def POLLHUP_def
        POLLNVAL_def POLLPRI_def POLLRDHUP_def)
  moreover have "\<not> tied busy_channel" "\<not> ch_eventHandling busy_channel" by (simp_all add: busy_channel_def mkChannel_def)
  ultimately show ?thesis
    using handleEvent_dispatch [OF run, of "sample_loop\<lparr>chanHeap := [7 \<mapsto> busy_channel]\<rparr>" busy_channel]
    by (simp add: set_chan_def get_chan_def sample_loop_def newChannel_def loop_members_def busy_channel_def mkChannel_def)
qed

text \<open>
  C9. Polling: when the kernel reports distinct registered channels, at most as many as the event
  array holds, \<open>poll\<close> returns, appends them to the active list in the reported order, stores each
  one's events, leaves every other channel and the registry alone, and doubles the event array
  exactly when it was filled.
\<close>

theorem poll_fills:
  assumes "\<forall>c \<in> snd ` set evs. registered l c" and "distinct (map snd evs)"
    and "length evs \<le> eventsSize l"
  shows "\<exists>l'. Epoller_poll (WaitEvents evs) l = Inr l'
    \<and> activeChannels l' = activeChannels l @ map snd evs
    \<and> (\<forall>c. revents_of l' c = (case map_of (map prod.swap evs) c of
            None \<Rightarrow> revents_of l c | Some ev \<Rightarrow> Some ev))
    \<and> pollChannels l' = pollChannels l \<and> ctl_log l' = ctl_log l
    \<and> eventsSize l' = (if evs \<noteq> [] \<and> length evs = eventsSize l then 2 * eventsSize l else eventsSize l)"
proof -
  from foldR_fillActive [OF assms(1,2)] obtain m where
    m: "foldR fillActive evs l = Inr m" "with_active evs l m" by blast
  show ?thesis
  proof (cases "evs = []")
    case True
    then show ?thesis by (simp add: Epoller_poll_def)
  next
    case False
    let ?l' = "if length evs = eventsSize m then m\<lparr>eventsSize := eventsSize m * 2\<rparr> else m"
    have "Epoller_poll (WaitEvents evs) l = Inr ?l'"
      using False assms(3) m(1) by (simp add: Epoller_poll_def fillActiveChannels_def)
    with m(2) False show ?thesis
      by (intro exI [of _ ?l']) (simp add: with_active_def revents_of_def)
  qed
qed

theorem poll_fills_witness:
  "\<exists>l. enableReading 7 sample_loop = Inr l
    \<and> (\<exists>l'. Epoller_poll (WaitEvents [(1, 7)]) l = Inr l'
    \<and> activeChannels l' = activeChannels l @ map snd [(1 :: int32, 7)]
    \<and> (\<forall>c. revents_of l' c = (case map_of (map prod.swap [(1, 7)]) c of
            None \<Rightarrow> revents_of l c | Some ev \<Rightarrow> Some ev))
    \<and> pollChannels l' = pollChannels l \<and> ctl_log l' = ctl_log l
    \<and> eventsSize l' = (if [(1 :: int32, 7 :: addr)] \<noteq> [] \<and> length [(1 :: int32, 7 :: addr)] = eventsSize l
        then 2 * eventsSize l else eventsSize l))"
proof -
  let ?l = "after_update (\<lambda>e. e OR kReadEvent) 7 (mkChannel 0 5) sample_loop"
  have en: "enableReading 7 sample_loop = Inr ?l"
    using modify_events_ok [OF sample_loop_inv(1,2)] sample_loop_inv(3)
    by (simp add: event_ops mkChannel_def)
  have reg: "\<forall>c \<in> snd ` set [(1 :: int32, 7)]. registered ?l c"
    by (simp add: registered_def after_update_def Let_def mkChannel_def)
  have size: "length [(1 :: int32, 7 :: addr)] \<le> eventsSize ?l"
    by (simp add: after_update_def Let_def sample_loop_def newChannel_def loop_members_def)
  have dist: "distinct (map snd [(1 :: int32, 7 :: addr)])" by simp
  show ?thesis
    using en poll_fills [OF reg dist size] by blast
qed

end
