(* ===== verification/Event_Loop.thy ===== *)
theory Event_Loop
  imports Reactor
begin

text \<open>
  \<open>net/EventLoop\<close>: the life of a loop, its functor queue with the wakeup descriptor, and one
  iteration of \<open>loop()\<close>. Callbacks and functors are code of other components: \<open>run\<close> and \<open>exec\<close>
  say what calling one does. The thread that makes a call is an argument. The second half is the
  protocol between the loop thread and the threads that queue work, step by step.
\<close>

section \<open>Functors and wakeups\<close>

definition kPollTimeMs :: int where
  "kPollTimeMs = 5000"

definition isInLoopThread :: "tid \<Rightarrow> ('cb, 'f, 'z) event_loop_scheme \<Rightarrow> bool" where
  "isInLoopThread self l \<longleftrightarrow> threadId l = self"

definition queueSize :: "('cb, 'f, 'z) event_loop_scheme \<Rightarrow> nat" where
  "queueSize l = length (pendingFunctors l)"

text \<open>
  \<open>wakeupWrites\<close> counts the writes to the event descriptor since it was last read: the kernel
  reports the descriptor readable exactly when it is positive. A short read or write is only
  logged.
\<close>

definition wakeup :: "('cb, 'f, 'z) event_loop_scheme \<Rightarrow> ('cb, 'f, 'z) event_loop_scheme" where
  "wakeup l = l\<lparr>wakeupWrites := Suc (wakeupWrites l)\<rparr>"

definition EventLoop_handleRead :: "('cb, 'f, 'z) event_loop_scheme \<Rightarrow> ('cb, 'f, 'z) event_loop_scheme" where
  "EventLoop_handleRead l = l\<lparr>wakeupWrites := 0\<rparr>"

definition EventLoop_quit :: "tid \<Rightarrow> ('cb, 'f, 'z) event_loop_scheme \<Rightarrow> ('cb, 'f, 'z) event_loop_scheme" where
  "EventLoop_quit self l =
     (let l1 = l\<lparr>quit := True\<rparr> in if \<not> isInLoopThread self l1 then wakeup l1 else l1)"

text \<open>The two halves of \<open>queneInLoop\<close>: the section under the mutex, and the rest.\<close>

definition queneInLoop_push :: "'f \<Rightarrow> ('cb, 'f, 'z) event_loop_scheme \<Rightarrow> ('cb, 'f, 'z) event_loop_scheme" where
  "queneInLoop_push cb l = l\<lparr>pendingFunctors := pendingFunctors l @ [cb]\<rparr>"

definition queneInLoop_wake :: "tid \<Rightarrow> ('cb, 'f, 'z) event_loop_scheme \<Rightarrow> ('cb, 'f, 'z) event_loop_scheme" where
  "queneInLoop_wake self l =
     (if \<not> isInLoopThread self l \<or> callingPendingFunctors l then wakeup l else l)"

definition queneInLoop :: "tid \<Rightarrow> 'f \<Rightarrow> ('cb, 'f, 'z) event_loop_scheme \<Rightarrow> ('cb, 'f, 'z) event_loop_scheme" where
  "queneInLoop self cb l = queneInLoop_wake self (queneInLoop_push cb l)"

definition runInLoop :: "('f \<Rightarrow> ('cb, 'f, 'z) event_loop_scheme \<Rightarrow> ('cb, 'f, 'z) event_loop_scheme res)
    \<Rightarrow> tid \<Rightarrow> 'f \<Rightarrow> ('cb, 'f, 'z) event_loop_scheme \<Rightarrow> ('cb, 'f, 'z) event_loop_scheme res" where
  "runInLoop exec self cb l =
     (if isInLoopThread self l then exec cb l else Inr (queneInLoop self cb l))"

text \<open>\<open>doPendingFunctors\<close>: the swap under the mutex, the calls, and the end.\<close>

definition takePending :: "('cb, 'f, 'z) event_loop_scheme \<Rightarrow> 'f list \<times> ('cb, 'f, 'z) event_loop_scheme" where
  "takePending l = (pendingFunctors l, l\<lparr>callingPendingFunctors := True, pendingFunctors := []\<rparr>)"

definition endPending :: "('cb, 'f, 'z) event_loop_scheme \<Rightarrow> ('cb, 'f, 'z) event_loop_scheme" where
  "endPending l = l\<lparr>callingPendingFunctors := False\<rparr>"

definition doPendingFunctors ::
  "('f \<Rightarrow> ('cb, 'f, 'z) event_loop_scheme \<Rightarrow> ('cb, 'f, 'z) event_loop_scheme res)
    \<Rightarrow> ('cb, 'f, 'z) event_loop_scheme \<Rightarrow> ('cb, 'f, 'z) event_loop_scheme res" where
  "doPendingFunctors exec l =
     (let (functors, l1) = takePending l
      in bindR (foldR exec functors l1) (\<lambda>l2. Inr (endPending l2)))"

section \<open>The loop\<close>

definition handleActive ::
  "('cb \<Rightarrow> ('cb, 'f, 'z) event_loop_scheme \<Rightarrow> ('cb, 'f, 'z) event_loop_scheme res)
    \<Rightarrow> addr \<Rightarrow> ('cb, 'f, 'z) event_loop_scheme \<Rightarrow> ('cb, 'f, 'z) event_loop_scheme res" where
  "handleActive run c l = handleEvent run c (l\<lparr>currentActiveChannel := Some c\<rparr>)"

text \<open>One pass of the body of \<open>while (!quit_)\<close>: \<open>answer\<close> and \<open>now\<close> are what \<open>poll\<close> got.\<close>

definition loop_iteration ::
  "('cb \<Rightarrow> ('cb, 'f, 'z) event_loop_scheme \<Rightarrow> ('cb, 'f, 'z) event_loop_scheme res)
    \<Rightarrow> ('f \<Rightarrow> ('cb, 'f, 'z) event_loop_scheme \<Rightarrow> ('cb, 'f, 'z) event_loop_scheme res)
    \<Rightarrow> wait_result \<times> int \<Rightarrow> ('cb, 'f, 'z) event_loop_scheme \<Rightarrow> ('cb, 'f, 'z) event_loop_scheme res" where
  "loop_iteration run exec input l =
     bindR (Epoller_poll (fst input) (l\<lparr>activeChannels := []\<rparr>))
      (\<lambda>l1. let l2 = l1\<lparr>pollReturnTime := snd input, iteration := iteration l1 + 1, eventHandling := True\<rparr>
        in bindR (foldR (handleActive run) (activeChannels l2) l2)
            (\<lambda>l3. doPendingFunctors exec (l3\<lparr>currentActiveChannel := None, eventHandling := False\<rparr>)))"

text \<open>
  The loop runs until \<open>quit_\<close> is set, for as many polls as the environment answers: the flag of
  the result says whether \<open>loop()\<close> has returned or is waiting in the next poll.
\<close>

fun loop_while ::
  "('cb \<Rightarrow> ('cb, 'f, 'z) event_loop_scheme \<Rightarrow> ('cb, 'f, 'z) event_loop_scheme res)
    \<Rightarrow> ('f \<Rightarrow> ('cb, 'f, 'z) event_loop_scheme \<Rightarrow> ('cb, 'f, 'z) event_loop_scheme res)
    \<Rightarrow> (wait_result \<times> int) list \<Rightarrow> ('cb, 'f, 'z) event_loop_scheme
    \<Rightarrow> (bool \<times> ('cb, 'f, 'z) event_loop_scheme) res" where
  "loop_while run exec [] l = Inr (quit l, l)"
| "loop_while run exec (i # is) l =
     (if quit l then Inr (True, l) else bindR (loop_iteration run exec i l) (loop_while run exec is))"

definition EventLoop_loop ::
  "('cb \<Rightarrow> ('cb, 'f, 'z) event_loop_scheme \<Rightarrow> ('cb, 'f, 'z) event_loop_scheme res)
    \<Rightarrow> ('f \<Rightarrow> ('cb, 'f, 'z) event_loop_scheme \<Rightarrow> ('cb, 'f, 'z) event_loop_scheme res)
    \<Rightarrow> (wait_result \<times> int) list \<Rightarrow> ('cb, 'f, 'z) event_loop_scheme
    \<Rightarrow> (bool \<times> ('cb, 'f, 'z) event_loop_scheme) res" where
  "EventLoop_loop run exec is l =
     cassert (\<not> looping l)
       (bindR (loop_while run exec is (l\<lparr>looping := True, quit := False\<rparr>))
         (\<lambda>(returned, l1). Inr (returned, if returned then l1\<lparr>looping := False\<rparr> else l1)))"

section \<open>Construction and destruction\<close>

text \<open>
  \<open>timerfd\<close> and \<open>evtfd\<close> are the descriptors the kernel hands out; a negative event descriptor
  aborts. \<open>TimerQueue\<close>'s constructor registers its channel (\<open>tc\<close>), then the loop registers its
  wakeup channel (\<open>wc\<close>); the callbacks are the two \<open>handleRead\<close> methods.
\<close>

definition setReadCallback :: "addr \<Rightarrow> 'cb \<Rightarrow> ('cb, 'f, 'z) event_loop_scheme
    \<Rightarrow> ('cb, 'f, 'z) event_loop_scheme res" where
  "setReadCallback c cb = set_chan c (\<lambda>ch. ch\<lparr>readCallback := Some cb\<rparr>)"

definition setWriteCallback :: "addr \<Rightarrow> 'cb \<Rightarrow> ('cb, 'f, 'z) event_loop_scheme
    \<Rightarrow> ('cb, 'f, 'z) event_loop_scheme res" where
  "setWriteCallback c cb = set_chan c (\<lambda>ch. ch\<lparr>writeCallback := Some cb\<rparr>)"

definition setCloseCallback :: "addr \<Rightarrow> 'cb \<Rightarrow> ('cb, 'f, 'z) event_loop_scheme
    \<Rightarrow> ('cb, 'f, 'z) event_loop_scheme res" where
  "setCloseCallback c cb = set_chan c (\<lambda>ch. ch\<lparr>closeCallback := Some cb\<rparr>)"

definition setErrorCallback :: "addr \<Rightarrow> 'cb \<Rightarrow> ('cb, 'f, 'z) event_loop_scheme
    \<Rightarrow> ('cb, 'f, 'z) event_loop_scheme res" where
  "setErrorCallback c cb = set_chan c (\<lambda>ch. ch\<lparr>errorCallback := Some cb\<rparr>)"

definition TimerQueue_ctor :: "addr \<Rightarrow> fd \<Rightarrow> 'cb \<Rightarrow> ('cb, 'f, 'z) event_loop_scheme
    \<Rightarrow> ('cb, 'f, 'z) event_loop_scheme res" where
  "TimerQueue_ctor tc timerfd cb l =
     bindR (setReadCallback tc cb (newChannel tc timerfd l)) (enableReading tc)"

definition EventLoop_ctor :: "addr \<Rightarrow> tid \<Rightarrow> addr \<times> fd \<times> 'cb \<Rightarrow> addr \<times> fd \<times> 'cb \<Rightarrow> ('cb, 'f) event_loop res" where
  "EventLoop_ctor this self timer wake =
     (let (tc, timerfd, tcb) = timer; (wc, evtfd, wcb) = wake
      in bindR (TimerQueue_ctor tc timerfd tcb (loop_members this self))
          (\<lambda>l1. cassert (evtfd \<ge> 0)
            (bindR (setReadCallback wc wcb (newChannel wc evtfd l1)) (enableReading wc))))"

text \<open>
  The destructor's body, then the members in reverse order of declaration: the wakeup channel and
  the timer queue, whose own destructor is empty and which holds its channel by value.
\<close>

definition EventLoop_dtor :: "addr \<Rightarrow> addr \<Rightarrow> ('cb, 'f, 'z) event_loop_scheme
    \<Rightarrow> ('cb, 'f, 'z) event_loop_scheme res" where
  "EventLoop_dtor tc wc l =
     bindR (disableAll wc l)
      (\<lambda>l1. bindR (Channel_remove wc l1)
        (\<lambda>l2. bindR (Channel_dtor wc l2) (Channel_dtor tc)))"

section \<open>One loop thread and many producers\<close>

text \<open>
  Where the loop thread is: in \<open>poll\<close>, between \<open>poll\<close> and the swap of the functors, or running
  the functors it took. \<open>mid\<close> holds the other threads that have pushed a functor and not yet
  written the wakeup descriptor; \<open>queued\<close> and \<open>executed\<close> are the history.
\<close>

datatype 'f loop_pc = Polling | Handling | Draining "'f list"

record ('cb, 'f) queue_sys =
  lp :: "('cb, 'f) event_loop"
  pc :: "'f loop_pc"
  mid :: "tid set"
  queued :: "'f list"
  executed :: "'f list"

text \<open>
  Any other thread may push and then wake; the loop thread queues functors from its callbacks and
  functors, so at any point outside \<open>poll\<close>; \<open>poll\<close> may return for any reason.
\<close>

inductive queue_step :: "('cb, 'f) queue_sys \<Rightarrow> ('cb, 'f) queue_sys \<Rightarrow> bool" where
  push: "t \<noteq> threadId (lp s) \<Longrightarrow> t \<notin> mid s \<Longrightarrow>
    queue_step s (s\<lparr>lp := queneInLoop_push f (lp s), mid := insert t (mid s), queued := queued s @ [f]\<rparr>)"
| wake: "t \<in> mid s \<Longrightarrow>
    queue_step s (s\<lparr>lp := queneInLoop_wake t (lp s), mid := mid s - {t}\<rparr>)"
| loop_push: "pc s \<noteq> Polling \<Longrightarrow>
    queue_step s (s\<lparr>lp := queneInLoop (threadId (lp s)) f (lp s), queued := queued s @ [f]\<rparr>)"
| poll_returns: "pc s = Polling \<Longrightarrow> queue_step s (s\<lparr>pc := Handling\<rparr>)"
| read_wakeup: "pc s = Handling \<Longrightarrow> queue_step s (s\<lparr>lp := EventLoop_handleRead (lp s)\<rparr>)"
| swap: "pc s = Handling \<Longrightarrow>
    queue_step s (s\<lparr>pc := Draining (fst (takePending (lp s))), lp := snd (takePending (lp s))\<rparr>)"
| call: "pc s = Draining (f # fs) \<Longrightarrow>
    queue_step s (s\<lparr>pc := Draining fs, executed := executed s @ [f]\<rparr>)"
| finish: "pc s = Draining [] \<Longrightarrow> queue_step s (s\<lparr>pc := Polling, lp := endPending (lp s)\<rparr>)"

fun todo :: "'f loop_pc \<Rightarrow> 'f list" where
  "todo (Draining fs) = fs"
| "todo _ = []"

definition queue_init :: "('cb, 'f) queue_sys \<Rightarrow> bool" where
  "queue_init s \<longleftrightarrow> pendingFunctors (lp s) = [] \<and> \<not> callingPendingFunctors (lp s)
     \<and> pc s = Polling \<and> mid s = {} \<and> queued s = [] \<and> executed s = []"

text \<open>
  Outside the window between \<open>poll\<close> and the swap, work in the queue implies that the descriptor is
  readable or that its producer is about to make it so.
\<close>

definition queue_inv :: "('cb, 'f) queue_sys \<Rightarrow> bool" where
  "queue_inv s \<longleftrightarrow>
     (pc s \<noteq> Handling \<longrightarrow> pendingFunctors (lp s) \<noteq> [] \<longrightarrow> wakeupWrites (lp s) > 0 \<or> mid s \<noteq> {})
     \<and> threadId (lp s) \<notin> mid s
     \<and> (callingPendingFunctors (lp s) \<longleftrightarrow> (\<exists>fs. pc s = Draining fs))
     \<and> executed s @ todo (pc s) @ pendingFunctors (lp s) = queued s"

lemmas queue_defs = queneInLoop_push_def queneInLoop_wake_def queneInLoop_def wakeup_def
  takePending_def endPending_def EventLoop_handleRead_def isInLoopThread_def

lemma queue_inv_step: "queue_inv s \<Longrightarrow> queue_step s t \<Longrightarrow> queue_inv t"
  by (erule queue_step.cases; cases "pc s") (auto simp: queue_inv_def queue_defs)

interpretation functors: transition_system queue_init queue_step queue_inv
proof unfold_locales
  fix s :: "('cb, 'f) queue_sys"
  assume "queue_init s"
  then show "queue_inv s" by (simp add: queue_init_def queue_inv_def)
qed (rule queue_inv_step)

text \<open>The abstract queue of the loop: what it took and has not called yet, and what is pending.\<close>

definition functor_queue :: "('cb, 'f) queue_sys \<Rightarrow> 'f list \<times> 'f list" where
  "functor_queue s = (todo (pc s) @ pendingFunctors (lp s), executed s)"

lemma queue_step_simulates:
  "queue_step s t \<Longrightarrow> fifo_step 0 (functor_queue s) (functor_queue t) \<or> functor_queue t = functor_queue s"
proof (induction rule: queue_step.induct)
  case (push t s f)
  then show ?case
    using fifo_step.accept [of 0 "todo (pc s) @ pendingFunctors (lp s)" "executed s" f]
    by (simp add: functor_queue_def queneInLoop_push_def)
next
  case (loop_push s f)
  then show ?case
    using fifo_step.accept [of 0 "todo (pc s) @ pendingFunctors (lp s)" "executed s" f]
    by (simp add: functor_queue_def queue_defs)
qed (auto simp: functor_queue_def queue_defs intro: fifo_step.hand_out)

interpretation functor_fifo: refinement queue_init queue_step queue_inv "fifo_step 0" functor_queue
  by unfold_locales (rule queue_step_simulates)

section \<open>Draining the queue\<close>

text \<open>
  \<open>out f\<close> are the functors that \<open>f\<close> queues while it runs. Running them one after the other is what
  \<open>doPendingFunctors\<close> computes, and a sequence of steps of the loop thread.
\<close>

definition run_queueing :: "('f \<Rightarrow> 'f list) \<Rightarrow> 'f \<Rightarrow> ('cb, 'f, 'z) event_loop_scheme \<Rightarrow> ('cb, 'f, 'z) event_loop_scheme" where
  "run_queueing out f l = fold (queneInLoop (threadId l)) (out f) l"

lemma foldR_run_queueing: "foldR (\<lambda>f l. Inr (run_queueing out f l)) fs l = Inr (fold (run_queueing out) fs l)"
  by (induction fs arbitrary: l) simp_all

lemma queneInLoop_threadId [simp]: "threadId (queneInLoop t f l) = threadId l"
  by (simp add: queue_defs)

lemma run_pushes:
  "pc s \<noteq> Polling \<Longrightarrow>
    queue_step\<^sup>*\<^sup>* s (s\<lparr>lp := fold (queneInLoop (threadId (lp s))) gs (lp s), queued := queued s @ gs\<rparr>)"
proof (induction gs arbitrary: s)
  case Nil
  then show ?case by simp
next
  case (Cons g gs)
  let ?t = "s\<lparr>lp := queneInLoop (threadId (lp s)) g (lp s), queued := queued s @ [g]\<rparr>"
  have "queue_step s ?t" using Cons.prems by (rule queue_step.loop_push)
  with Cons.IH [of ?t] Cons.prems show ?case by (simp add: converse_rtranclp_into_rtranclp)
qed

lemma run_calls:
  "pc s = Draining fs \<Longrightarrow>
    queue_step\<^sup>*\<^sup>* s (s\<lparr>lp := fold (run_queueing out) fs (lp s), pc := Draining [],
      queued := queued s @ concat (map out fs), executed := executed s @ fs\<rparr>)"
proof (induction fs arbitrary: s)
  case Nil
  then have "s\<lparr>pc := Draining []\<rparr> = s" by (cases s) simp
  then show ?case by simp
next
  case (Cons f fs)
  let ?t = "s\<lparr>pc := Draining fs, executed := executed s @ [f]\<rparr>"
  let ?u = "?t\<lparr>lp := run_queueing out f (lp s), queued := queued s @ out f\<rparr>"
  have "queue_step s ?t" using Cons.prems by (rule queue_step.call)
  moreover have "queue_step\<^sup>*\<^sup>* ?t ?u" using run_pushes [of ?t "out f"] by (simp add: run_queueing_def)
  moreover have "queue_step\<^sup>*\<^sup>* ?u (s\<lparr>lp := fold (run_queueing out) (f # fs) (lp s), pc := Draining [],
      queued := queued s @ concat (map out (f # fs)), executed := executed s @ f # fs\<rparr>)"
    using Cons.IH [of ?u] by simp
  ultimately show ?case by (meson converse_rtranclp_into_rtranclp rtranclp_trans)
qed

lemma into_steps:
  "r a b \<Longrightarrow> r b c \<Longrightarrow> r c d \<Longrightarrow> r\<^sup>*\<^sup>* d e \<Longrightarrow> r e f \<Longrightarrow> r\<^sup>*\<^sup>* a f"
  by (meson converse_rtranclp_into_rtranclp rtranclp.rtrancl_into_rtrancl)

text \<open>
  From \<open>poll\<close>, one round of the loop thread runs everything that was queued when the functors were
  taken, and leaves the members as \<open>handleRead\<close> and \<open>doPendingFunctors\<close> do.
\<close>

lemma one_round:
  assumes "pc s = Polling"
  shows "\<exists>s'. queue_step\<^sup>*\<^sup>* s s' \<and> pc s' = Polling
    \<and> doPendingFunctors (\<lambda>f l. Inr (run_queueing out f l)) (EventLoop_handleRead (lp s)) = Inr (lp s')
    \<and> executed s' = executed s @ pendingFunctors (lp s) \<and> queued s' = queued s @ concat (map out (pendingFunctors (lp s)))"
proof -
  let ?fs = "pendingFunctors (lp s)"
  let ?a = "s\<lparr>pc := Handling\<rparr>"
  let ?b = "?a\<lparr>lp := EventLoop_handleRead (lp ?a)\<rparr>"
  let ?c = "?b\<lparr>pc := Draining (fst (takePending (lp ?b))), lp := snd (takePending (lp ?b))\<rparr>"
  let ?d = "?c\<lparr>lp := fold (run_queueing out) ?fs (lp ?c), pc := Draining [],
    queued := queued ?c @ concat (map out ?fs), executed := executed ?c @ ?fs\<rparr>"
  let ?e = "?d\<lparr>pc := Polling, lp := endPending (lp ?d)\<rparr>"
  have "queue_step s ?a" using assms by (rule queue_step.poll_returns)
  moreover have "queue_step ?a ?b" by (rule queue_step.read_wakeup) simp
  moreover have "queue_step ?b ?c" by (rule queue_step.swap) simp
  moreover have "queue_step\<^sup>*\<^sup>* ?c ?d" by (rule run_calls) (simp add: queue_defs)
  moreover have "queue_step ?d ?e" by (rule queue_step.finish) simp
  ultimately have "queue_step\<^sup>*\<^sup>* s ?e"
    by (rule into_steps)
  moreover have "doPendingFunctors (\<lambda>f l. Inr (run_queueing out f l)) (EventLoop_handleRead (lp s)) = Inr (lp ?e)"
    by (simp add: doPendingFunctors_def foldR_run_queueing takePending_def EventLoop_handleRead_def)
  ultimately show ?thesis by (intro exI [of _ ?e]) simp
qed

section \<open>The registry through construction and destruction\<close>

lemma set_chan_keeps_inv:
  assumes inv: "reactor_inv l" and set: "set_chan c f l = Inr l'"
    and f: "\<And>ch. ownerLoop (f ch) = ownerLoop ch \<and> ch_fd (f ch) = ch_fd ch \<and> index (f ch) = index ch
      \<and> (addedToLoop ch \<longrightarrow> addedToLoop (f ch))"
  shows "reactor_inv l'"
proof -
  from set obtain ch where ch: "chanHeap l c = Some ch"
    and l': "l' = l\<lparr>chanHeap := (chanHeap l)(c \<mapsto> f ch)\<rparr>"
    by (cases "chanHeap l c") auto
  have same: "chan_ok l' d dh = chan_ok l d dh" for d dh
    by (simp add: l' chan_ok_def)
  have ok: "chan_ok l d (f dh)" if "chan_ok l d dh" for d dh
    using that f [of dh] by (simp add: chan_ok_def)
  have "chan_ok l' d dh" if "chanHeap l' d = Some dh" for d dh
    unfolding same using that ok reactor_invD(1) [OF inv] ch by (cases "d = c") (auto simp: l')
  moreover have "\<exists>dh. chanHeap l' d = Some dh \<and> ch_fd dh = fd" if "pollChannels l fd = Some d" for fd d
    using reactor_invD(2) [OF inv that] ch f by (cases "d = c") (auto simp: l')
  moreover have "pollChannels l' = pollChannels l" by (simp add: l')
  ultimately show ?thesis unfolding reactor_inv_def by simp
qed

lemma after_other:
  "d \<noteq> c \<Longrightarrow> chanHeap (after_update f c ch l) d = chanHeap l d"
  "d \<noteq> c \<Longrightarrow> chanHeap (after_remove c ch l) d = chanHeap l d"
  by (simp_all add: after_update_def after_remove_def Let_def)

lemma modify_events_other:
  "reactor_inv l \<Longrightarrow> modify_events f c l = Inr l' \<Longrightarrow> d \<noteq> c \<Longrightarrow> chanHeap l' d = chanHeap l d"
  by (erule modify_events_cases, assumption) (simp add: after_other)

lemma Channel_remove_other:
  "reactor_inv l \<Longrightarrow> Channel_remove c l = Inr l' \<Longrightarrow> d \<noteq> c \<Longrightarrow> chanHeap l' d = chanHeap l d"
  by (erule Channel_remove_cases, assumption) (simp add: after_other)

text \<open>A fresh channel that gets a read callback and is registered for reading.\<close>

definition reading_channel :: "addr \<Rightarrow> fd \<Rightarrow> 'cb \<Rightarrow> 'cb channel" where
  "reading_channel loop fd cb = (mkChannel loop fd)\<lparr>readCallback := Some cb, events := kReadEvent,
     addedToLoop := True, index := KAdded\<rparr>"

lemma register_reading:
  assumes inv: "reactor_inv l" and c: "chanHeap l c = None" and fd: "pollChannels l fd = None"
  shows "\<exists>l'. bindR (setReadCallback c cb (newChannel c fd l)) (enableReading c) = Inr l'
    \<and> reactor_inv l' \<and> chanHeap l' = (chanHeap l)(c \<mapsto> reading_channel (loopId l) fd cb)
    \<and> pollChannels l' = (pollChannels l)(fd \<mapsto> c) \<and> loopId l' = loopId l
    \<and> eventHandling l' = eventHandling l \<and> activeChannels l' = activeChannels l"
proof -
  have new: "reactor_inv (newChannel c fd l)"
    using inv c newChannel_reactor by blast
  let ?ch = "(mkChannel (loopId l) fd)\<lparr>readCallback := Some cb\<rparr>"
  let ?m = "(newChannel c fd l)\<lparr>chanHeap := (chanHeap l)(c \<mapsto> ?ch)\<rparr>"
  have m: "setReadCallback c cb (newChannel c fd l) = Inr ?m"
    by (simp add: setReadCallback_def newChannel_def)
  have inv_m: "reactor_inv ?m"
    by (rule set_chan_keeps_inv [OF new, of c]) (use m in \<open>auto simp: setReadCallback_def\<close>)
  have ch: "chanHeap ?m c = Some ?ch" "pollChannels ?m (ch_fd ?ch) = None"
    using fd by (simp_all add: newChannel_def mkChannel_def)
  show ?thesis
    using modify_events_ok [OF inv_m ch(1), of "\<lambda>e. e OR kReadEvent"]
      after_update_inv [OF inv_m ch(1), of "\<lambda>e. e OR kReadEvent"] ch(2)
    unfolding m bindR_Inr
    by (simp add: event_ops after_update_def Let_def newChannel_def reading_channel_def mkChannel_def
        kReadEvent_def POLLIN_def POLLPRI_def kNoneEvent_def KNew_def KAdded_def)
qed

lemma reading_channel_simps [simp]:
  "ch_fd (reading_channel loop fd cb) = fd" "index (reading_channel loop fd cb) = KAdded"
  "addedToLoop (reading_channel loop fd cb)" "\<not> ch_eventHandling (reading_channel loop fd cb)"
  "isReading (reading_channel loop fd cb)" "\<not> isWriting (reading_channel loop fd cb)"
  by (simp_all add: reading_channel_def mkChannel_def isReading_def isWriting_def has_bits_def
      kReadEvent_def kWriteEvent_def POLLIN_def POLLPRI_def POLLOUT_def)

text \<open>With another channel still in the loop, the destructor gets as far as that channel.\<close>

lemma dtor_aborts:
  assumes inv: "reactor_inv l" and wc: "chanHeap l wc = Some (reading_channel this evtfd wcb)"
    and tc: "chanHeap l tc = Some (reading_channel this timerfd tcb)" and "tc \<noteq> wc"
    and idle: "\<not> eventHandling l"
  shows "EventLoop_dtor tc wc l = Inl AssertFailed"
proof -
  let ?w = "reading_channel this evtfd wcb"
  have free: "pollChannels l (ch_fd ?w) = Some wc"
    using reactor_invD(1) [OF inv wc] by (simp add: chan_ok_def)
  let ?l1 = "after_update (\<lambda>_. kNoneEvent) wc ?w l"
  let ?w1 = "?w\<lparr>events := kNoneEvent, addedToLoop := True, index := KDeleted\<rparr>"
  have d: "disableAll wc l = Inr ?l1"
    using modify_events_ok [OF inv wc] free by (simp add: event_ops)
  have inv1: "reactor_inv ?l1" using after_update_inv [OF inv wc] free by simp
  have w1: "chanHeap ?l1 wc = Some ?w1" by (simp add: after_update_def Let_def)
  let ?l2 = "after_remove wc ?w1 ?l1"
  have r: "Channel_remove wc ?l1 = Inr ?l2"
    by (rule Channel_remove_ok [OF inv1 w1]) (use idle in \<open>simp_all add: isNoneEvent_def after_update_def\<close>)
  have "chanHeap ?l2 wc = Some (?w1\<lparr>addedToLoop := False, index := KNew\<rparr>)"
    "chanHeap ?l2 tc = Some (reading_channel this timerfd tcb)"
    using tc \<open>tc \<noteq> wc\<close> by (simp_all add: after_other) (simp add: after_remove_def)
  then show ?thesis
    using \<open>tc \<noteq> wc\<close> by (simp add: EventLoop_dtor_def d r Channel_dtor_def)
qed

section \<open>Draining functors that queue functors\<close>

lemma fold_quene:
  "callingPendingFunctors l \<Longrightarrow> fold (queneInLoop t) fs l =
    l\<lparr>pendingFunctors := pendingFunctors l @ fs, wakeupWrites := wakeupWrites l + length fs\<rparr>"
  by (induction fs arbitrary: l) (simp_all add: queue_defs)

lemma foldR_quene:
  assumes "\<And>f l. exec f l = Inr (fold (queneInLoop (threadId l)) (out f) l)"
    and "callingPendingFunctors l"
  shows "foldR exec fs l = Inr (l\<lparr>pendingFunctors := pendingFunctors l @ concat (map out fs),
    wakeupWrites := wakeupWrites l + length (concat (map out fs))\<rparr>)"
  using assms(2)
proof (induction fs arbitrary: l)
  case Nil
  then show ?case by simp
next
  case (Cons f fs)
  then show ?case by (simp add: assms(1) fold_quene)
qed

lemma loop_while_quit: "loop_while run exec is l = Inr (True, l') \<Longrightarrow> quit l'"
  by (induction "is" arbitrary: l) (auto simp: bindR_eq_Inr split: if_splits)

lemma loop_while_flag: "loop_while run exec is l = Inr (returned, m) \<Longrightarrow> quit m = returned"
  by (induction "is" arbitrary: l) (auto simp: bindR_eq_Inr split: if_splits)

text \<open>A loop that has returned takes no further poll; one that has not goes on with the next.\<close>

lemma loop_while_stays: "quit l \<Longrightarrow> loop_while run exec js l = Inr (True, l)"
  by (cases js) simp_all

lemma loop_while_append:
  "loop_while run exec (is @ js) l =
    bindR (loop_while run exec is l) (\<lambda>(returned, m). if returned then Inr (True, m) else loop_while run exec js m)"
  by (induction "is" arbitrary: l) (simp_all add: loop_while_stays bindR_def split: sum.split)

lemma loop_append:
  "EventLoop_loop run exec is l = Inr (True, l') \<Longrightarrow> EventLoop_loop run exec (is @ js) l = Inr (True, l')"
  "EventLoop_loop run exec is l = Inr (False, m) \<Longrightarrow> loop_iteration run exec i m = Inr m' \<Longrightarrow> quit m' \<Longrightarrow>
    EventLoop_loop run exec (is @ i # js) l = Inr (True, m'\<lparr>looping := False\<rparr>)"
proof -
  show "EventLoop_loop run exec (is @ js) l = Inr (True, l')" if ret: "EventLoop_loop run exec is l = Inr (True, l')"
  proof -
    from ret obtain m where "\<not> looping l" "loop_while run exec is (l\<lparr>looping := True, quit := False\<rparr>) = Inr (True, m)"
      "l' = m\<lparr>looping := False\<rparr>"
      by (auto simp: EventLoop_loop_def cassert_eq_Inr bindR_eq_Inr)
    then show ?thesis by (simp add: EventLoop_loop_def loop_while_append)
  qed
  assume "EventLoop_loop run exec is l = Inr (False, m)" and it: "loop_iteration run exec i m = Inr m'" "quit m'"
  then have w: "\<not> looping l" "loop_while run exec is (l\<lparr>looping := True, quit := False\<rparr>) = Inr (False, m)"
    by (auto simp: EventLoop_loop_def cassert_eq_Inr bindR_eq_Inr split: if_splits)
  from loop_while_flag [OF w(2)] have "\<not> quit m" by simp
  with w it show "EventLoop_loop run exec (is @ i # js) l = Inr (True, m'\<lparr>looping := False\<rparr>)"
    by (simp add: EventLoop_loop_def loop_while_append loop_while_stays)
qed


section \<open>Properties\<close>

text \<open>
  C10. No functor is lost, duplicated or reordered, and no wakeup is missed. In every state the
  loop thread and any number of producers can reach, what was executed, what is being executed and
  what waits in the queue are together exactly what was queued, in that order; and when the loop
  sleeps in \<open>poll\<close> on a wakeup descriptor that is not readable, with no producer about to write
  it, everything ever queued has been executed. The swaps, the wakeups and the interleaving are
  invisible outside: every run is a run of one unbounded first-in first-out queue that hands its
  functors out one at a time. (The runs begin with the loop in \<open>poll\<close> and an empty queue: for what
  the loop's own thread queued before \<open>loop()\<close>, \<open>queneInLoop\<close> writes no wakeup.)
\<close>

theorem functors_exactly_once:
  assumes "queue_init s0" and "queue_step\<^sup>*\<^sup>* s0 s"
  shows "executed s @ todo (pc s) @ pendingFunctors (lp s) = queued s
    \<and> (pc s = Polling \<longrightarrow> wakeupWrites (lp s) = 0 \<longrightarrow> mid s = {} \<longrightarrow> executed s = queued s)
    \<and> (fifo_step 0)\<^sup>*\<^sup>* ([], []) (todo (pc s) @ pendingFunctors (lp s), executed s)"
proof -
  from functors.reachable_inv [OF assms] have inv: "queue_inv s" .
  then have hist: "executed s @ todo (pc s) @ pendingFunctors (lp s) = queued s"
    by (simp add: queue_inv_def)
  moreover have "executed s = queued s"
    if "pc s = Polling" "wakeupWrites (lp s) = 0" "mid s = {}"
    using inv hist that by (simp add: queue_inv_def)
  moreover have "(fifo_step 0)\<^sup>*\<^sup>* ([], []) (todo (pc s) @ pendingFunctors (lp s), executed s)"
    using functor_fifo.refines [OF assms] assms(1) by (simp add: functor_queue_def queue_init_def)
  ultimately show ?thesis by blast
qed

definition sample_sys :: "(nat, nat) queue_sys" where
  "sample_sys = \<lparr>lp = loop_members 0 0, pc = Polling, mid = {}, queued = [], executed = []\<rparr>"

definition sample_pushed :: "(nat, nat) queue_sys" where
  "sample_pushed = sample_sys\<lparr>lp := queneInLoop_push 42 (lp sample_sys), mid := {3}, queued := [42]\<rparr>"

lemma sample_sys_init: "queue_init sample_sys"
  by (simp add: queue_init_def sample_sys_def loop_members_def)

lemma sample_pushed_reachable: "queue_step\<^sup>*\<^sup>* sample_sys sample_pushed"
  using queue_step.push [of 3 sample_sys 42]
  by (intro r_into_rtranclp) (simp add: sample_pushed_def sample_sys_def loop_members_def)

theorem functors_exactly_once_witness:
  "executed sample_pushed @ todo (pc sample_pushed) @ pendingFunctors (lp sample_pushed)
      = queued sample_pushed
    \<and> queued sample_pushed = [42] \<and> executed sample_sys = queued sample_sys"
  using functors_exactly_once [OF sample_sys_init sample_pushed_reachable]
    functors_exactly_once [OF sample_sys_init rtranclp.rtrancl_refl]
  by (simp add: sample_pushed_def) (simp add: sample_sys_def loop_members_def)

text \<open>
  C11. Queued work is always within reach, and the functions that make up a round are runs of the
  loop thread: from any reachable state in which the loop thread is in \<open>poll\<close>, that thread alone can
  return from \<open>poll\<close>, read the descriptor, swap, call and finish, which brings it back to \<open>poll\<close> with
  everything queued so far executed and the members as \<open>handleRead\<close> and \<open>doPendingFunctors\<close> leave
  them. Only what the functors queued themselves while they ran, \<open>out f\<close> for each \<open>f\<close>, is in the queue.
\<close>

theorem functors_drained:
  assumes "queue_init s0" and "queue_step\<^sup>*\<^sup>* s0 s" and "pc s = Polling"
    and "\<And>f l. exec f l = Inr (fold (queneInLoop (threadId l)) (out f) l)"
  shows "\<exists>s'. queue_step\<^sup>*\<^sup>* s s' \<and> pc s' = Polling
    \<and> doPendingFunctors exec (EventLoop_handleRead (lp s)) = Inr (lp s')
    \<and> executed s' = queued s \<and> queued s' = queued s @ pendingFunctors (lp s')
    \<and> pendingFunctors (lp s') = concat (map out (pendingFunctors (lp s)))"
proof -
  from functors.reachable_inv [OF assms(1,2)] assms(3)
  have all: "executed s @ pendingFunctors (lp s) = queued s" by (simp add: queue_inv_def)
  have exec: "exec = (\<lambda>f l. Inr (run_queueing out f l))" using assms(4) by (simp add: fun_eq_iff run_queueing_def)
  from one_round [OF assms(3), of out] all obtain s' where s': "queue_step\<^sup>*\<^sup>* s s'" "pc s' = Polling"
    "doPendingFunctors exec (EventLoop_handleRead (lp s)) = Inr (lp s')" "executed s' = queued s"
    "queued s' = queued s @ concat (map out (pendingFunctors (lp s)))" by (auto simp: exec)
  from functors.reachable_inv [OF assms(1) rtranclp_trans [OF assms(2) s'(1)]] s'(2)
  have "executed s' @ pendingFunctors (lp s') = queued s'" by (simp add: queue_inv_def)
  with s'(4,5) have "pendingFunctors (lp s') = concat (map out (pendingFunctors (lp s)))" by simp
  with s' show ?thesis by metis
qed

theorem functors_drained_witness:
  "\<exists>s'. queue_step\<^sup>*\<^sup>* sample_pushed s' \<and> pc s' = Polling
    \<and> doPendingFunctors (\<lambda>f l. Inr (fold (queneInLoop (threadId l)) [f + 1] l)) (EventLoop_handleRead (lp sample_pushed)) = Inr (lp s')
    \<and> executed s' = [42] \<and> pendingFunctors (lp s') = [43]"
proof -
  have "pc sample_pushed = Polling" by (simp add: sample_pushed_def sample_sys_def)
  from functors_drained [OF sample_sys_init sample_pushed_reachable this, of "\<lambda>f l. Inr (fold (queneInLoop (threadId l)) [f + 1] l)" "\<lambda>f. [f + 1]"]
  show ?thesis by (auto simp: sample_pushed_def sample_sys_def loop_members_def queneInLoop_push_def)
qed

text \<open>
  C12. Functors that queue functors do not starve the loop: \<open>doPendingFunctors\<close> runs only what was
  queued before it took the queue. What those functors queue themselves stays for the next round,
  in order, and each of them has written the wakeup descriptor, so the next \<open>poll\<close> returns at once.
\<close>

theorem drain_defers:
  assumes "\<And>f l. exec f l = Inr (fold (queneInLoop (threadId l)) (out f) l)"
  shows "\<exists>l'. doPendingFunctors exec l = Inr l'
    \<and> pendingFunctors l' = concat (map out (pendingFunctors l))
    \<and> wakeupWrites l' = wakeupWrites l + length (pendingFunctors l')
    \<and> \<not> callingPendingFunctors l'"
  using foldR_quene [where l = "snd (takePending l)" and fs = "pendingFunctors l", OF assms]
  by (simp add: doPendingFunctors_def takePending_def endPending_def)

theorem drain_defers_witness:
  "\<exists>l'. doPendingFunctors (\<lambda>f l. Inr (fold (queneInLoop (threadId l)) [f + 1, f + 2] l))
        (queneInLoop_push 5 (loop_members 0 0 :: (nat, nat) event_loop)) = Inr l'
    \<and> pendingFunctors l' = concat (map (\<lambda>f. [f + 1, f + 2])
        (pendingFunctors (queneInLoop_push 5 (loop_members 0 0 :: (nat, nat) event_loop))))
    \<and> wakeupWrites l' = wakeupWrites (queneInLoop_push 5 (loop_members 0 0 :: (nat, nat) event_loop))
        + length (pendingFunctors l')
    \<and> \<not> callingPendingFunctors l'"
  by (rule drain_defers) (rule refl)

text \<open>
  C13. A loop is built with both of its channels registered for reading and a sound registry, but
  destroying it aborts: nothing takes the timer queue's channel out of the loop, so the assertion
  of \<open>~Channel\<close> that the channel is not added fails.
\<close>

theorem EventLoop_lifecycle:
  assumes "tc \<noteq> wc" and "timerfd \<noteq> evtfd" and "evtfd \<ge> 0"
  shows "\<exists>l. EventLoop_ctor this self (tc, timerfd, tcb) (wc, evtfd, wcb) = Inr (l :: ('cb, 'f) event_loop)
    \<and> reactor_inv l \<and> interests_of l tc = Some (True, False) \<and> interests_of l wc = Some (True, False)
    \<and> EventLoop_dtor tc wc l = Inl AssertFailed"
proof -
  have "reactor_inv (loop_members this self :: ('cb, 'f) event_loop)"
    by (simp add: reactor_inv_def loop_members_def)
  then obtain l1 :: "('cb, 'f) event_loop" where l1: "TimerQueue_ctor tc timerfd tcb (loop_members this self) = Inr l1"
    "reactor_inv l1" "chanHeap l1 = [tc \<mapsto> reading_channel this timerfd tcb]"
    "pollChannels l1 = [timerfd \<mapsto> tc]" "loopId l1 = this" "\<not> eventHandling l1"
    using register_reading [of "loop_members this self" tc timerfd tcb]
    by (auto simp: TimerQueue_ctor_def loop_members_def)
  from register_reading [OF l1(2), of wc evtfd wcb] assms(1,2) obtain l where
    l: "bindR (setReadCallback wc wcb (newChannel wc evtfd l1)) (enableReading wc) = Inr l"
    "reactor_inv l" "pollChannels l = [timerfd \<mapsto> tc, evtfd \<mapsto> wc]" "\<not> eventHandling l"
    and heap: "chanHeap l = [tc \<mapsto> reading_channel this timerfd tcb, wc \<mapsto> reading_channel this evtfd wcb]"
    using l1 by auto
  have ctor: "EventLoop_ctor this self (tc, timerfd, tcb) (wc, evtfd, wcb) = Inr l"
    using l(1) l1(1) assms(3) by (simp add: EventLoop_ctor_def)
  have "EventLoop_dtor tc wc l = Inl AssertFailed"
    by (rule dtor_aborts [OF l(2)]) (use heap assms(1) l in \<open>simp_all add: heap\<close>)
  with ctor l(2) heap assms(1) show ?thesis
    by - (rule exI [of _ l], simp add: interests_of_def)
qed

theorem EventLoop_lifecycle_witness:
  "\<exists>l. EventLoop_ctor 2 0 (7, 5, 3 :: nat) (8, 6, 4) = Inr (l :: (nat, nat) event_loop)
    \<and> reactor_inv l \<and> interests_of l 7 = Some (True, False) \<and> interests_of l 8 = Some (True, False)
    \<and> EventLoop_dtor 7 8 l = Inl AssertFailed"
  by (rule EventLoop_lifecycle) simp_all

text \<open>
  C14. The outcome of \<open>loop()\<close>: on a loop that already runs it aborts; whenever it returns, it was
  asked to quit and the loop no longer counts as running. A loop that waits in \<open>poll\<close> ends with the
  first round in which \<open>quit_\<close> is set, however many polls could follow, and once it has returned no
  further poll changes the result. But a \<open>quit()\<close> made before \<open>loop()\<close> is
  entered has no effect at all on the run, because \<open>loop()\<close> clears the flag.
\<close>

theorem loop_outcome:
  "(looping l \<longrightarrow> EventLoop_loop run exec is l = Inl AssertFailed)
    \<and> (\<forall>l'. EventLoop_loop run exec is l = Inr (True, l') \<longrightarrow> quit l' \<and> \<not> looping l'
        \<and> (\<forall>js. EventLoop_loop run exec (is @ js) l = Inr (True, l')))
    \<and> (\<forall>m i m' js. EventLoop_loop run exec is l = Inr (False, m) \<longrightarrow> loop_iteration run exec i m = Inr m' \<longrightarrow> quit m' \<longrightarrow>
        EventLoop_loop run exec (is @ i # js) l = Inr (True, m'\<lparr>looping := False\<rparr>))
    \<and> EventLoop_loop run exec is (EventLoop_quit (threadId l) l) = EventLoop_loop run exec is l"
proof (intro conjI allI impI)
  show "EventLoop_loop run exec (is @ js) l = Inr (True, l')" if "EventLoop_loop run exec is l = Inr (True, l')" for l' js
    using that by (rule loop_append)
  show "EventLoop_loop run exec (is @ i # js) l = Inr (True, m'\<lparr>looping := False\<rparr>)"
    if "EventLoop_loop run exec is l = Inr (False, m)" "loop_iteration run exec i m = Inr m'" "quit m'" for m i m' js
    using that by (rule loop_append)
qed (auto simp: EventLoop_loop_def cassert_eq_Inr bindR_eq_Inr EventLoop_quit_def isInLoopThread_def dest: loop_while_quit)

theorem loop_outcome_witness:
  "EventLoop_loop (\<lambda>cb l. Inr l) (\<lambda>f l. Inr (EventLoop_quit 0 l)) [(WaitErr 4, 9)]
      (queneInLoop 0 5 (loop_members 0 0 :: (nat, nat) event_loop))
    = Inr (True, (loop_members 0 0)\<lparr>quit := True, iteration := 1, pollReturnTime := 9\<rparr>)
    \<and> (quit ((loop_members 0 0 :: (nat, nat) event_loop)\<lparr>quit := True, iteration := 1, pollReturnTime := 9\<rparr>)
    \<and> \<not> looping ((loop_members 0 0 :: (nat, nat) event_loop)\<lparr>quit := True, iteration := 1, pollReturnTime := 9\<rparr>))"
proof -
  have run: "EventLoop_loop (\<lambda>cb l. Inr l) (\<lambda>f l. Inr (EventLoop_quit 0 l)) [(WaitErr 4, 9)]
      (queneInLoop 0 5 (loop_members 0 0 :: (nat, nat) event_loop))
    = Inr (True, (loop_members 0 0)\<lparr>quit := True, iteration := 1, pollReturnTime := 9\<rparr>)"
    by (simp add: EventLoop_loop_def loop_iteration_def Epoller_poll_def doPendingFunctors_def
        EventLoop_quit_def queue_defs loop_members_def)
  with loop_outcome show ?thesis by blast
qed

end
