(* ===== verification/Tcp_Connection.thy ===== *)
theory Tcp_Connection
  imports Inet_Address Event_Loop
begin

text \<open>
  \<open>net/TcpConnection\<close> with the parts of \<open>net/Socket\<close> and \<open>net/SocketOps\<close> it uses. Connections
  are objects of a heap in the state of their loop; each points to its channel. The bytes the
  kernel has taken are kept per descriptor, the calls of \<open>shutdown\<close> and \<open>setsockopt\<close> as
  histories. What the kernel answers to a \<open>write\<close> or a \<open>readv\<close> is an argument. The user's
  callbacks are code of other components: \<open>user\<close> says what calling one does. The calling thread is
  the argument \<open>self\<close>; \<open>assertInLoopThread\<close> only logs.
\<close>

section \<open>Data\<close>

datatype StateE = kDisconnected | kConnecting | kConnected | kDisconnecting

datatype conn_cb =
    ConnHandleRead addr
  | ConnHandleWrite addr
  | ConnHandleClose addr
  | ConnHandleError addr

text \<open>The functors a connection queues, each with its connection.\<close>

datatype 'u conn_functor =
    SendInLoop addr "byte list"
  | ShutdownInLoop addr
  | ForceCloseInLoop addr
  | StartReadInLoop addr
  | StopReadInLoop addr
  | WriteComplete 'u addr
  | HighWaterMark 'u addr nat
  | ConnectEstablished addr
  | ConnectDestroyed addr
  | SetCloseCallback addr 'u

text \<open>How a user callback is called.\<close>

datatype up_call = UpConnection addr | UpMessage addr int | UpWriteComplete addr | UpHighWaterMark addr nat
  | UpClose addr

datatype shut_how = SHUT_RD | SHUT_WR
datatype sock_opt = SO_KEEPALIVE | TCP_NODELAY | SO_REUSEADDR | SO_REUSEPORT

record 'u tcp_conn =
  conn_name :: string
  conn_state :: StateE
  conn_reading :: bool
  conn_fd :: fd
  conn_channel :: addr
  conn_localAddr :: inet_address
  conn_peerAddr :: inet_address
  connectionCallback :: "'u option"
  messageCallback :: "'u option"
  writeCompleteCallback :: "'u option"
  highWaterMarkCallback :: "'u option"
  conn_closeCallback :: "'u option"
  highWaterMark :: nat
  inputBuffer :: buffer
  outputBuffer :: buffer

record 'u conn_loop = "(conn_cb, 'u conn_functor) event_loop" +
  conns :: "addr \<rightharpoonup> 'u tcp_conn"
  kernel_out :: "fd \<Rightarrow> byte list"
  shutdown_calls :: "(fd \<times> shut_how) list"
  sockopts :: "(fd \<times> sock_opt \<times> bool) list"

definition get_conn :: "addr \<Rightarrow> 'u conn_loop \<Rightarrow> 'u tcp_conn res" where
  "get_conn k l = (case conns l k of None \<Rightarrow> Inl UseAfterFree | Some cn \<Rightarrow> Inr cn)"

definition put_conn :: "addr \<Rightarrow> 'u tcp_conn \<Rightarrow> 'u conn_loop \<Rightarrow> 'u conn_loop" where
  "put_conn k cn l = l\<lparr>conns := (conns l)(k \<mapsto> cn)\<rparr>"

section \<open>Sockets\<close>

datatype write_result = WriteErr int | WriteOk nat

definition EWOULDBLOCK :: int where "EWOULDBLOCK = 11"
definition EPIPE :: int where "EPIPE = 32"
definition ECONNRESET :: int where "ECONNRESET = 104"

text \<open>\<open>sockets::write\<close>: the kernel takes a prefix of the \<open>count\<close> bytes at \<open>mem\<close>.\<close>

definition sockets_write :: "write_result \<Rightarrow> fd \<Rightarrow> byte list \<Rightarrow> nat \<Rightarrow> 'u conn_loop \<Rightarrow> 'u conn_loop res" where
  "sockets_write answer fd mem count l =
     (if length mem < count then Inl OutOfBounds
      else case answer of
        WriteErr e \<Rightarrow> Inr l
      | WriteOk n \<Rightarrow> Inr (l\<lparr>kernel_out := (kernel_out l)(fd := kernel_out l fd @ take n mem)\<rparr>))"

definition written :: "write_result \<Rightarrow> nat" where
  "written answer = (case answer of WriteOk n \<Rightarrow> n | WriteErr e \<Rightarrow> 0)"

text \<open>The call \<open>shutdown(sockfd, SHUT_RD)\<close> of the function named \<open>shutdownWrite\<close>.\<close>

definition sockets_shutdownWrite :: "fd \<Rightarrow> 'u conn_loop \<Rightarrow> 'u conn_loop" where
  "sockets_shutdownWrite sockfd l = l\<lparr>shutdown_calls := shutdown_calls l @ [(sockfd, SHUT_RD)]\<rparr>"

definition Socket_shutdownWrite :: "fd \<Rightarrow> 'u conn_loop \<Rightarrow> 'u conn_loop" where
  "Socket_shutdownWrite sockfd l = sockets_shutdownWrite sockfd l"

definition Socket_setTcpNoDelay :: "fd \<Rightarrow> bool \<Rightarrow> 'u conn_loop \<Rightarrow> 'u conn_loop" where
  "Socket_setTcpNoDelay sockfd on l = l\<lparr>sockopts := sockopts l @ [(sockfd, TCP_NODELAY, on)]\<rparr>"

definition Socket_setKeepAlive :: "fd \<Rightarrow> bool \<Rightarrow> 'u conn_loop \<Rightarrow> 'u conn_loop" where
  "Socket_setKeepAlive sockfd on l = l\<lparr>sockopts := sockopts l @ [(sockfd, SO_KEEPALIVE, on)]\<rparr>"

text \<open>
  The kernel's statistics on a socket: the fields of \<open>tcp_info\<close> that are printed, in the order of the
  format. \<open>answer\<close> is what \<open>getsockopt\<close> fills in, if it succeeds; the structure is zeroed before.
\<close>

definition tcp_info_fields :: "string list" where
  "tcp_info_fields = [''unrecovered'', ''rto'', ''ato'', ''snd_mss'', ''rcv_mss'', ''lost'', ''retrans'', ''rtt'',
     ''rttvar'', ''sshthresh'', ''cwnd'', ''total_retrans'']"

definition Socket_getTcpInfo :: "32 word list option \<Rightarrow> bool \<times> 32 word list" where
  "Socket_getTcpInfo answer = (case answer of None \<Rightarrow> (False, replicate 12 0) | Some tcpi \<Rightarrow> (True, tcpi))"

definition tcp_info_text :: "32 word list \<Rightarrow> string" where
  "tcp_info_text tcpi = butlast (concat (map2 (\<lambda>nm v. nm @ ''='' @ show_nat (unat v) @ '' '') tcp_info_fields tcpi))"

text \<open>\<open>snprintf\<close> writes at most \<open>len - 1\<close> characters; without an answer the buffer stays as it is.\<close>

definition Socket_getTcpInfoString :: "32 word list option \<Rightarrow> string \<Rightarrow> nat \<Rightarrow> bool \<times> string" where
  "Socket_getTcpInfoString answer buf len =
     (let (ok, tcpi) = Socket_getTcpInfo answer in (ok, if ok then take (len - 1) (tcp_info_text tcpi) else buf))"

definition conn_getTcpInfoString :: "32 word list option \<Rightarrow> string" where
  "conn_getTcpInfoString answer = snd (Socket_getTcpInfoString answer [] 1024)"

section \<open>Operations\<close>

definition new_conn :: "string \<Rightarrow> fd \<Rightarrow> inet_address \<Rightarrow> inet_address \<Rightarrow> addr \<Rightarrow> buffer \<Rightarrow> buffer \<Rightarrow> 'u tcp_conn" where
  "new_conn name sockfd localAddr peerAddr c inp out =
     \<lparr>conn_name = name, conn_state = kConnecting, conn_reading = True, conn_fd = sockfd,
      conn_channel = c, conn_localAddr = localAddr, conn_peerAddr = peerAddr, connectionCallback = None, messageCallback = None,
      writeCompleteCallback = None, highWaterMarkCallback = None, conn_closeCallback = None,
      highWaterMark = 64 * 1024 * 1024, inputBuffer = inp, outputBuffer = out\<rparr>"

text \<open>The constructor, with the addresses of the connection and of its new channel.\<close>

definition TcpConnection_ctor :: "addr \<Rightarrow> addr \<Rightarrow> string \<Rightarrow> fd \<Rightarrow> inet_address \<Rightarrow> inet_address
    \<Rightarrow> 'u conn_loop \<Rightarrow> 'u conn_loop res" where
  "TcpConnection_ctor k c name sockfd localAddr peerAddr l =
     bindR (mkBuffer kInitialSize) (\<lambda>inp. bindR (mkBuffer kInitialSize) (\<lambda>out.
     bindR (setReadCallback c (ConnHandleRead k) (newChannel c sockfd l)) (\<lambda>l1.
     bindR (setWriteCallback c (ConnHandleWrite k) l1) (\<lambda>l2.
     bindR (setCloseCallback c (ConnHandleClose k) l2) (\<lambda>l3.
     bindR (setErrorCallback c (ConnHandleError k) l3) (\<lambda>l4.
       Inr (Socket_setKeepAlive sockfd True (put_conn k (new_conn name sockfd localAddr peerAddr c inp out) l4))))))))"

text \<open>The destructor: its assertion, then the channel; \<open>~Socket\<close> does nothing.\<close>

definition TcpConnection_dtor :: "addr \<Rightarrow> 'u conn_loop \<Rightarrow> 'u conn_loop res" where
  "TcpConnection_dtor k l =
     bindR (get_conn k l) (\<lambda>cn.
       cassert (conn_state cn = kDisconnected)
         (bindR (Channel_dtor (conn_channel cn) l) (\<lambda>l1. Inr (l1\<lparr>conns := (conns l1)(k := None)\<rparr>))))"

definition connected :: "'u tcp_conn \<Rightarrow> bool" where
  "connected cn \<longleftrightarrow> conn_state cn = kConnected"

definition disconected :: "'u tcp_conn \<Rightarrow> bool" where
  "disconected cn \<longleftrightarrow> conn_state cn = kDisconnected"

definition setConnectionCallback :: "addr \<Rightarrow> 'u option \<Rightarrow> 'u conn_loop \<Rightarrow> 'u conn_loop res" where
  "setConnectionCallback k cb l = bindR (get_conn k l) (\<lambda>cn. Inr (put_conn k (cn\<lparr>connectionCallback := cb\<rparr>) l))"

definition setMessageCallback :: "addr \<Rightarrow> 'u option \<Rightarrow> 'u conn_loop \<Rightarrow> 'u conn_loop res" where
  "setMessageCallback k cb l = bindR (get_conn k l) (\<lambda>cn. Inr (put_conn k (cn\<lparr>messageCallback := cb\<rparr>) l))"

definition setWriteCompleteCallback :: "addr \<Rightarrow> 'u option \<Rightarrow> 'u conn_loop \<Rightarrow> 'u conn_loop res" where
  "setWriteCompleteCallback k cb l =
     bindR (get_conn k l) (\<lambda>cn. Inr (put_conn k (cn\<lparr>writeCompleteCallback := cb\<rparr>) l))"

definition setHighWaterMarkCallback :: "addr \<Rightarrow> 'u option \<Rightarrow> nat \<Rightarrow> 'u conn_loop \<Rightarrow> 'u conn_loop res" where
  "setHighWaterMarkCallback k cb mark l =
     bindR (get_conn k l) (\<lambda>cn. Inr (put_conn k (cn\<lparr>highWaterMarkCallback := cb, highWaterMark := mark\<rparr>) l))"

definition conn_setCloseCallback :: "addr \<Rightarrow> 'u option \<Rightarrow> 'u conn_loop \<Rightarrow> 'u conn_loop res" where
  "conn_setCloseCallback k cb l = bindR (get_conn k l) (\<lambda>cn. Inr (put_conn k (cn\<lparr>conn_closeCallback := cb\<rparr>) l))"

definition setState :: "addr \<Rightarrow> StateE \<Rightarrow> 'u conn_loop \<Rightarrow> 'u conn_loop res" where
  "setState k s l = bindR (get_conn k l) (\<lambda>cn. Inr (put_conn k (cn\<lparr>conn_state := s\<rparr>) l))"

definition stateToString :: "StateE \<Rightarrow> string" where
  "stateToString s =
     (case s of kDisconnected \<Rightarrow> ''kDisconnected'' | kConnecting \<Rightarrow> ''kConnecting''
      | kConnected \<Rightarrow> ''kConnected'' | kDisconnecting \<Rightarrow> ''kDisconnecting'')"

text \<open>A member \<open>std::function\<close> that is tested before it is queued.\<close>

definition queue_if :: "tid \<Rightarrow> 'u option \<Rightarrow> ('u \<Rightarrow> 'u conn_functor) \<Rightarrow> 'u conn_loop \<Rightarrow> 'u conn_loop" where
  "queue_if self cb f l = (case cb of None \<Rightarrow> l | Some u \<Rightarrow> queneInLoop self (f u) l)"

text \<open>The part of \<open>sendInLoop\<close> after the direct write: queue \<open>remaining\<close> bytes from \<open>message + nwrote\<close>.\<close>

definition send_rest :: "tid \<Rightarrow> addr \<Rightarrow> byte list \<Rightarrow> nat \<Rightarrow> nat \<Rightarrow> 'u conn_loop \<Rightarrow> 'u conn_loop res" where
  "send_rest self k message nwrote remaining l =
     bindR (get_conn k l) (\<lambda>cn.
       let oldLen = readableBytes (outputBuffer cn);
           l1 = (if szadd oldLen remaining \<ge> highWaterMark cn \<and> oldLen < highWaterMark cn
                 then queue_if self (highWaterMarkCallback cn)
                        (\<lambda>u. HighWaterMark u k (szadd oldLen remaining)) l
                 else l)
       in bindR (buf_append (drop nwrote message) remaining (outputBuffer cn)) (\<lambda>b.
          let l2 = put_conn k (cn\<lparr>outputBuffer := b\<rparr>) l1
          in bindR (get_chan (conn_channel cn) l2) (\<lambda>ch.
             if \<not> isWriting ch then enableWriting (conn_channel cn) l2 else Inr l2)))"

definition sendInLoop :: "write_result \<Rightarrow> tid \<Rightarrow> addr \<Rightarrow> byte list \<Rightarrow> nat \<Rightarrow> 'u conn_loop \<Rightarrow> 'u conn_loop res" where
  "sendInLoop answer self k message len l =
     bindR (get_conn k l) (\<lambda>cn.
       if conn_state cn = kDisconnected then Inr l
       else bindR (get_chan (conn_channel cn) l) (\<lambda>ch.
         if \<not> isWriting ch \<and> readableBytes (outputBuffer cn) = 0
         then bindR (sockets_write answer (ch_fd ch) message len l) (\<lambda>l1.
           let (nwrote, l2, faultError) =
             (case answer of
                WriteOk n \<Rightarrow> (n, if n = 0 then queue_if self (writeCompleteCallback cn)
                                              (\<lambda>u. WriteComplete u k) l1 else l1, False)
              | WriteErr e \<Rightarrow> (0, l1, e \<noteq> EWOULDBLOCK \<and> (e = EPIPE \<or> e = ECONNRESET)));
             remaining = len
           in cassert (remaining \<le> len)
               (if \<not> faultError \<and> remaining > 0 then send_rest self k message nwrote remaining l2
                else Inr l2))
         else Inr l))"

text \<open>\<open>mesg.data()\<close> is followed by the terminating zero of the string.\<close>

definition sendInLoop_string :: "write_result \<Rightarrow> tid \<Rightarrow> addr \<Rightarrow> byte list \<Rightarrow> 'u conn_loop \<Rightarrow> 'u conn_loop res" where
  "sendInLoop_string answer self k mesg l = sendInLoop answer self k (mesg @ [0]) (length mesg) l"

definition shutdownInLoop :: "addr \<Rightarrow> 'u conn_loop \<Rightarrow> 'u conn_loop res" where
  "shutdownInLoop k l =
     bindR (get_conn k l) (\<lambda>cn.
       bindR (get_chan (conn_channel cn) l) (\<lambda>ch.
         Inr (if \<not> isWriting ch then Socket_shutdownWrite (conn_fd cn) l else l)))"

definition startReadInLoop :: "addr \<Rightarrow> 'u conn_loop \<Rightarrow> 'u conn_loop res" where
  "startReadInLoop k l =
     bindR (get_conn k l) (\<lambda>cn.
       bindR (get_chan (conn_channel cn) l) (\<lambda>ch.
         if \<not> conn_reading cn \<or> \<not> isReading ch
         then bindR (enableReading (conn_channel cn) l) (\<lambda>l1. Inr (put_conn k (cn\<lparr>conn_reading := True\<rparr>) l1))
         else Inr l))"

definition stopReadInLoop :: "addr \<Rightarrow> 'u conn_loop \<Rightarrow> 'u conn_loop res" where
  "stopReadInLoop k l =
     bindR (get_conn k l) (\<lambda>cn.
       bindR (get_chan (conn_channel cn) l) (\<lambda>ch.
         if conn_reading cn \<or> isReading ch
         then bindR (disableReading (conn_channel cn) l) (\<lambda>l1. Inr (put_conn k (cn\<lparr>conn_reading := False\<rparr>) l1))
         else Inr l))"

text \<open>The user's code; calling an empty callback throws.\<close>

type_synonym 'u user = "'u \<Rightarrow> up_call \<Rightarrow> 'u conn_loop \<Rightarrow> 'u conn_loop res"

definition call_user :: "'u user \<Rightarrow> 'u option \<Rightarrow> up_call \<Rightarrow> 'u conn_loop \<Rightarrow> 'u conn_loop res" where
  "call_user user cb up l = (case cb of None \<Rightarrow> Inl BadFunctionCall | Some u \<Rightarrow> user u up l)"

text \<open>The default callbacks of \<open>TcpServer\<close> and \<open>TcpClient\<close>.\<close>

definition defaultConnectionCallback :: "addr \<Rightarrow> 'u conn_loop \<Rightarrow> 'u conn_loop res" where
  "defaultConnectionCallback k l = bindR (get_conn k l) (\<lambda>_. Inr l)"

definition defaultMessageCallback :: "addr \<Rightarrow> 'u conn_loop \<Rightarrow> 'u conn_loop res" where
  "defaultMessageCallback k l =
     bindR (get_conn k l) (\<lambda>cn. Inr (put_conn k (cn\<lparr>inputBuffer := retrieveAll (inputBuffer cn)\<rparr>) l))"

definition conn_handleWrite :: "write_result \<Rightarrow> tid \<Rightarrow> addr \<Rightarrow> 'u conn_loop \<Rightarrow> 'u conn_loop res" where
  "conn_handleWrite answer self k l =
     bindR (get_conn k l) (\<lambda>cn.
       bindR (get_chan (conn_channel cn) l) (\<lambda>ch.
         if isWriting ch
         then bindR (buf_slice (peek (outputBuffer cn))
                      (peek (outputBuffer cn) + readableBytes (outputBuffer cn)) (outputBuffer cn)) (\<lambda>bytes.
           bindR (sockets_write answer (ch_fd ch) bytes (readableBytes (outputBuffer cn)) l) (\<lambda>l1.
             if written answer > 0
             then bindR (retrieve (written answer) (outputBuffer cn)) (\<lambda>b.
               let l2 = put_conn k (cn\<lparr>outputBuffer := b\<rparr>) l1
               in if readableBytes b = 0
                  then bindR (disableWriting (conn_channel cn) l2) (\<lambda>l3.
                    let l4 = queue_if self (writeCompleteCallback cn) (\<lambda>u. WriteComplete u k) l3
                    in if conn_state cn = kDisconnecting then shutdownInLoop k l4 else Inr l4)
                  else Inr l2)
             else if conn_state cn = kDisconnecting then shutdownInLoop k l1 else Inr l1))
         else Inr l))"

definition conn_handleClose :: "'u user \<Rightarrow> addr \<Rightarrow> 'u conn_loop \<Rightarrow> 'u conn_loop res" where
  "conn_handleClose user k l =
     bindR (get_conn k l) (\<lambda>cn.
       cassert (conn_state cn = kConnected \<or> conn_state cn = kDisconnecting)
        (bindR (setState k kDisconnected l) (\<lambda>l1.
         bindR (disableAll (conn_channel cn) l1) (\<lambda>l2.
         bindR (call_user user (connectionCallback cn) (UpConnection k) l2) (\<lambda>l3.
         bindR (get_conn k l3) (\<lambda>cn3. call_user user (conn_closeCallback cn3) (UpClose k) l3))))))"

text \<open>\<open>handleError\<close> reads the socket error and logs it.\<close>

definition conn_handleError :: "addr \<Rightarrow> 'u conn_loop \<Rightarrow> 'u conn_loop res" where
  "conn_handleError k l = bindR (get_conn k l) (\<lambda>cn. bindR (get_chan (conn_channel cn) l) (\<lambda>_. Inr l))"

definition conn_handleRead :: "'u user \<Rightarrow> (nat list \<Rightarrow> io_result) \<Rightarrow> addr \<Rightarrow> int \<Rightarrow> 'u conn_loop
    \<Rightarrow> 'u conn_loop res" where
  "conn_handleRead user readv k receiveTime l =
     bindR (get_conn k l) (\<lambda>cn.
       bindR (readFd readv (inputBuffer cn)) (\<lambda>(r, b).
         let l1 = put_conn k (cn\<lparr>inputBuffer := b\<rparr>) l
         in case r of
              IoErr e \<Rightarrow> conn_handleError k l1
            | IoBytes bs \<Rightarrow> if length bs > 0 then call_user user (messageCallback cn) (UpMessage k receiveTime) l1
                            else conn_handleClose user k l1))"

definition forceCloseInLoop :: "'u user \<Rightarrow> addr \<Rightarrow> 'u conn_loop \<Rightarrow> 'u conn_loop res" where
  "forceCloseInLoop user k l =
     bindR (get_conn k l) (\<lambda>cn.
       if conn_state cn = kConnected \<or> conn_state cn = kDisconnecting then conn_handleClose user k l else Inr l)"

definition connectEstablished :: "'u user \<Rightarrow> addr \<Rightarrow> 'u conn_loop \<Rightarrow> 'u conn_loop res" where
  "connectEstablished user k l =
     bindR (get_conn k l) (\<lambda>cn.
       cassert (conn_state cn = kConnecting)
        (bindR (setState k kConnected l) (\<lambda>l1.
         bindR (Channel_tie (conn_channel cn) k l1) (\<lambda>l2.
         bindR (enableReading (conn_channel cn) l2) (\<lambda>l3.
           call_user user (connectionCallback cn) (UpConnection k) l3)))))"

definition connectDestroyed :: "'u user \<Rightarrow> addr \<Rightarrow> 'u conn_loop \<Rightarrow> 'u conn_loop res" where
  "connectDestroyed user k l =
     bindR (get_conn k l) (\<lambda>cn.
       bindR (if conn_state cn = kConnected
              then bindR (setState k kDisconnected l) (\<lambda>l1.
                   bindR (disableAll (conn_channel cn) l1) (\<lambda>l2.
                     call_user user (connectionCallback cn) (UpConnection k) l2))
              else Inr l)
        (Channel_remove (conn_channel cn)))"

text \<open>What running a functor of a connection does.\<close>

fun exec_conn_functor :: "'u user \<Rightarrow> write_result \<Rightarrow> 'u conn_functor \<Rightarrow> 'u conn_loop \<Rightarrow> 'u conn_loop res" where
  "exec_conn_functor user answer (SendInLoop k m) l = sendInLoop_string answer (threadId l) k m l"
| "exec_conn_functor user answer (ShutdownInLoop k) l = shutdownInLoop k l"
| "exec_conn_functor user answer (ForceCloseInLoop k) l = forceCloseInLoop user k l"
| "exec_conn_functor user answer (StartReadInLoop k) l = startReadInLoop k l"
| "exec_conn_functor user answer (StopReadInLoop k) l = stopReadInLoop k l"
| "exec_conn_functor user answer (WriteComplete u k) l = user u (UpWriteComplete k) l"
| "exec_conn_functor user answer (HighWaterMark u k n) l = user u (UpHighWaterMark k n) l"
| "exec_conn_functor user answer (ConnectEstablished k) l = connectEstablished user k l"
| "exec_conn_functor user answer (ConnectDestroyed k) l = connectDestroyed user k l"
| "exec_conn_functor user answer (SetCloseCallback k u) l = conn_setCloseCallback k (Some u) l"

text \<open>What the loop does when the channel calls back.\<close>

fun run_conn_cb :: "'u user \<Rightarrow> write_result \<Rightarrow> (nat list \<Rightarrow> io_result) \<Rightarrow> conn_cb \<Rightarrow> 'u conn_loop
    \<Rightarrow> 'u conn_loop res" where
  "run_conn_cb user answer readv (ConnHandleRead k) l = conn_handleRead user readv k (pollReturnTime l) l"
| "run_conn_cb user answer readv (ConnHandleWrite k) l = conn_handleWrite answer (threadId l) k l"
| "run_conn_cb user answer readv (ConnHandleClose k) l = conn_handleClose user k l"
| "run_conn_cb user answer readv (ConnHandleError k) l = conn_handleError k l"

subsection \<open>Calls from any thread\<close>

text \<open>The length is an \<open>int\<close>, converted to \<open>size_t\<close>.\<close>

definition send_ptr :: "write_result \<Rightarrow> tid \<Rightarrow> addr \<Rightarrow> byte list \<Rightarrow> int \<Rightarrow> 'u conn_loop \<Rightarrow> 'u conn_loop res" where
  "send_ptr answer self k message len l = sendInLoop answer self k message (nat (len mod int size_mod)) l"

definition send_string :: "'u user \<Rightarrow> write_result \<Rightarrow> tid \<Rightarrow> addr \<Rightarrow> byte list \<Rightarrow> 'u conn_loop
    \<Rightarrow> 'u conn_loop res" where
  "send_string user answer self k message l =
     bindR (get_conn k l) (\<lambda>cn.
       if conn_state cn = kConnected
       then if isInLoopThread self l then sendInLoop_string answer self k message l
            else runInLoop (exec_conn_functor user answer) self (SendInLoop k message) l
       else Inr l)"

text \<open>\<open>send(Buffer*)\<close> also empties the caller's buffer; it may read the whole vector behind it.\<close>

definition send_buffer :: "'u user \<Rightarrow> write_result \<Rightarrow> tid \<Rightarrow> addr \<Rightarrow> buffer \<Rightarrow> 'u conn_loop
    \<Rightarrow> (buffer \<times> 'u conn_loop) res" where
  "send_buffer user answer self k message l =
     bindR (get_conn k l) (\<lambda>cn.
       if conn_state cn = kConnected
       then if isInLoopThread self l
            then bindR (sendInLoop answer self k (drop (peek message) (buf_data message)) (readableBytes message) l)
                  (\<lambda>l1. Inr (retrieveAll message, l1))
            else bindR (retrieveAllAsString message) (\<lambda>(bytes, m1).
                  bindR (runInLoop (exec_conn_functor user answer) self (SendInLoop k bytes) l)
                   (\<lambda>l1. Inr (m1, l1)))
       else Inr (message, l))"

definition conn_shutdown :: "'u user \<Rightarrow> write_result \<Rightarrow> tid \<Rightarrow> addr \<Rightarrow> 'u conn_loop \<Rightarrow> 'u conn_loop res" where
  "conn_shutdown user answer self k l =
     bindR (get_conn k l) (\<lambda>cn.
       if conn_state cn = kConnected
       then bindR (setState k kDisconnecting l)
             (runInLoop (exec_conn_functor user answer) self (ShutdownInLoop k))
       else Inr l)"

definition forceClose :: "tid \<Rightarrow> addr \<Rightarrow> 'u conn_loop \<Rightarrow> 'u conn_loop res" where
  "forceClose self k l =
     bindR (get_conn k l) (\<lambda>cn.
       if conn_state cn = kConnected \<or> conn_state cn = kDisconnecting
       then bindR (setState k kDisconnecting l) (\<lambda>l1. Inr (queneInLoop self (ForceCloseInLoop k) l1))
       else Inr l)"

definition startRead :: "'u user \<Rightarrow> write_result \<Rightarrow> tid \<Rightarrow> addr \<Rightarrow> 'u conn_loop \<Rightarrow> 'u conn_loop res" where
  "startRead user answer self k l = runInLoop (exec_conn_functor user answer) self (StartReadInLoop k) l"

definition stopRead :: "'u user \<Rightarrow> write_result \<Rightarrow> tid \<Rightarrow> addr \<Rightarrow> 'u conn_loop \<Rightarrow> 'u conn_loop res" where
  "stopRead user answer self k l = runInLoop (exec_conn_functor user answer) self (StopReadInLoop k) l"

definition conn_setTcpNoDelay :: "addr \<Rightarrow> bool \<Rightarrow> 'u conn_loop \<Rightarrow> 'u conn_loop res" where
  "conn_setTcpNoDelay k on l = bindR (get_conn k l) (\<lambda>cn. Inr (Socket_setTcpNoDelay (conn_fd cn) on l))"

section \<open>The invariant of a connection\<close>

text \<open>
  The connection and its channel, the buffers and the registry are sound, and the descriptor is
  claimed by no other channel.
\<close>

definition conn_view :: "addr \<Rightarrow> 'u tcp_conn \<Rightarrow> conn_cb channel \<Rightarrow> 'u conn_loop \<Rightarrow> bool" where
  "conn_view k cn ch l \<longleftrightarrow> conns l k = Some cn \<and> chanHeap l (conn_channel cn) = Some ch
     \<and> reactor_inv l \<and> ch_fd ch = conn_fd cn
     \<and> (pollChannels l (conn_fd cn) = None \<or> pollChannels l (conn_fd cn) = Some (conn_channel cn))
     \<and> buf_inv (inputBuffer cn) \<and> buf_inv (outputBuffer cn)"

definition open_state :: "StateE \<Rightarrow> bool" where
  "open_state s \<longleftrightarrow> s = kConnected \<or> s = kDisconnecting"

text \<open>
  The channel of a connection that is not closed waits for writability exactly when there is output to
  send; that of a closed one never does. As long as nobody calls \<open>startRead\<close> on the closed connection and
  it is not destroyed (\<open>lax\<close> is false), a closed connection waits for nothing at all, and an open one is
  in the poller.
\<close>

definition phase_of :: "bool \<Rightarrow> 'u tcp_conn \<Rightarrow> conn_cb channel \<Rightarrow> bool" where
  "phase_of lax cn ch \<longleftrightarrow>
     (conn_state cn \<noteq> kDisconnected \<longrightarrow> (isWriting ch \<longleftrightarrow> content (outputBuffer cn) \<noteq> []))
     \<and> (conn_state cn = kDisconnected \<longrightarrow> \<not> isWriting ch)
     \<and> (\<not> lax \<longrightarrow> open_state (conn_state cn) \<longrightarrow> index ch \<noteq> KNew)
     \<and> (\<not> lax \<longrightarrow> conn_state cn = kDisconnected \<longrightarrow> isNoneEvent ch)"

definition conn_ok :: "bool \<Rightarrow> addr \<Rightarrow> 'u conn_loop \<Rightarrow> bool" where
  "conn_ok lax k l \<longleftrightarrow> (\<exists>cn ch. conn_view k cn ch l \<and> phase_of lax cn ch)"

abbreviation conn_phase :: "'u tcp_conn \<Rightarrow> conn_cb channel \<Rightarrow> bool" where
  "conn_phase \<equiv> phase_of False"

abbreviation conn_inv :: "addr \<Rightarrow> 'u conn_loop \<Rightarrow> bool" where
  "conn_inv \<equiv> conn_ok False"

lemma isNoneEvent_quiet: "isNoneEvent ch \<Longrightarrow> \<not> isWriting ch \<and> \<not> isReading ch"
  by (simp add: isNoneEvent_def isWriting_def isReading_def)

lemma conn_phase_def:
  "conn_phase cn ch \<longleftrightarrow>
     (conn_state cn \<noteq> kDisconnected \<longrightarrow> (isWriting ch \<longleftrightarrow> content (outputBuffer cn) \<noteq> []))
     \<and> (open_state (conn_state cn) \<longrightarrow> index ch \<noteq> KNew)
     \<and> (conn_state cn = kDisconnected \<longrightarrow> isNoneEvent ch)"
  using isNoneEvent_quiet [of ch] by (auto simp: phase_of_def)

lemma conn_inv_def: "conn_inv k l \<longleftrightarrow> (\<exists>cn ch. conn_view k cn ch l \<and> conn_phase cn ch)"
  by (simp add: conn_ok_def)

fun rank :: "StateE \<Rightarrow> nat" where
  "rank kConnecting = 0"
| "rank kConnected = 1"
| "rank kDisconnecting = 2"
| "rank kDisconnected = 3"

definition state_of :: "addr \<Rightarrow> 'u conn_loop \<Rightarrow> StateE" where
  "state_of k l = conn_state (the (conns l k))"

text \<open>What is on the wire or on its way to it.\<close>

definition stream :: "addr \<Rightarrow> 'u conn_loop \<Rightarrow> byte list" where
  "stream k l = (let cn = the (conns l k) in kernel_out l (conn_fd cn) @ content (outputBuffer cn))"

lemma get_conn_Some [simp]: "conns l k = Some cn \<Longrightarrow> get_conn k l = Inr cn"
  by (simp add: get_conn_def)

lemma put_conn_simps [simp]:
  "conns (put_conn k cn l) = (conns l)(k \<mapsto> cn)" "chanHeap (put_conn k cn l) = chanHeap l"
  "kernel_out (put_conn k cn l) = kernel_out l" "threadId (put_conn k cn l) = threadId l"
  "pollChannels (put_conn k cn l) = pollChannels l" "loopId (put_conn k cn l) = loopId l"
  "pendingFunctors (put_conn k cn l) = pendingFunctors l" "shutdown_calls (put_conn k cn l) = shutdown_calls l"
  by (simp_all add: put_conn_def)

lemma view_frame:
  assumes "conn_view k cn ch l" and "conns l' = conns l" and "chanHeap l' = chanHeap l"
    and "pollChannels l' = pollChannels l" and "loopId l' = loopId l"
  shows "conn_view k cn ch l'"
  using assms reactor_inv_cong [OF assms(3-5)] by (simp add: conn_view_def)

lemma view_put:
  assumes "conn_view k cn ch l" and "conn_channel cn' = conn_channel cn" and "conn_fd cn' = conn_fd cn"
    and "buf_inv (inputBuffer cn')" and "buf_inv (outputBuffer cn')"
  shows "conn_view k cn' ch (put_conn k cn' l)"
  using assms reactor_inv_cong [of "put_conn k cn' l" l] by (simp add: conn_view_def)

lemma view_modify:
  assumes v: "conn_view k cn ch l"
  shows "\<exists>l' ch'. modify_events f (conn_channel cn) l = Inr l' \<and> conn_view k cn ch' l'
    \<and> events ch' = f (events ch) \<and> index ch' \<noteq> KNew \<and> conns l' = conns l \<and> kernel_out l' = kernel_out l
    \<and> pendingFunctors l' = pendingFunctors l \<and> threadId l' = threadId l
    \<and> shutdown_calls l' = shutdown_calls l"
proof -
  from v have ch: "chanHeap l (conn_channel cn) = Some ch" and inv: "reactor_inv l"
    and free: "pollChannels l (ch_fd ch) = None \<or> pollChannels l (ch_fd ch) = Some (conn_channel cn)"
    by (auto simp: conn_view_def)
  let ?l' = "after_update f (conn_channel cn) ch l"
  have "reactor_inv ?l'" by (rule after_update_inv [OF inv ch free])
  with v have "conn_view k cn (the (chanHeap ?l' (conn_channel cn))) ?l'"
    by (simp add: conn_view_def after_update_def Let_def)
  with modify_events_ok [OF inv ch free, of f] show ?thesis
    by (intro exI [of _ ?l'] exI [of _ "the (chanHeap ?l' (conn_channel cn))"])
      (simp add: after_update_def Let_def)
qed

text \<open>
  Outcomes that keep the invariant, never move the state back and (strictly) never take the channel
  out of the loop, or fail for a listed reason.
\<close>

definition in_poller :: "addr \<Rightarrow> 'u conn_loop \<Rightarrow> bool" where
  "in_poller k l \<longleftrightarrow> index (the (chanHeap l (conn_channel (the (conns l k))))) \<noteq> KNew"

definition moves :: "bool \<Rightarrow> addr \<Rightarrow> 'u conn_loop \<Rightarrow> 'u conn_loop \<Rightarrow> bool" where
  "moves lax k l l' \<longleftrightarrow> conn_ok lax k l' \<and> rank (state_of k l) \<le> rank (state_of k l')
     \<and> (\<not> lax \<longrightarrow> in_poller k l \<longrightarrow> in_poller k l')"

abbreviation advances :: "addr \<Rightarrow> 'u conn_loop \<Rightarrow> 'u conn_loop \<Rightarrow> bool" where
  "advances \<equiv> moves False"

lemma advances_def: "advances k l l' \<longleftrightarrow> conn_inv k l' \<and> rank (state_of k l) \<le> rank (state_of k l')
     \<and> (in_poller k l \<longrightarrow> in_poller k l')"
  by (simp add: moves_def)

definition tolerated :: "cpp_error \<Rightarrow> bool" where
  "tolerated e \<longleftrightarrow> e = LengthError \<or> e = OutOfBounds \<or> e = BadFunctionCall"

definition fine :: "bool \<Rightarrow> addr \<Rightarrow> 'u conn_loop \<Rightarrow> 'u conn_loop res \<Rightarrow> bool" where
  "fine lax k l r \<longleftrightarrow> (case r of Inl e \<Rightarrow> tolerated e | Inr l' \<Rightarrow> moves lax k l l')"

abbreviation good :: "addr \<Rightarrow> 'u conn_loop \<Rightarrow> 'u conn_loop res \<Rightarrow> bool" where
  "good \<equiv> fine False"

lemma good_Inr [simp]: "fine lax k l (Inr l') \<longleftrightarrow> moves lax k l l'"
  by (simp add: fine_def)

lemma good_Inl [simp]: "fine lax k l (Inl e) \<longleftrightarrow> tolerated e"
  by (simp add: fine_def)

lemma advances_refl: "conn_ok lax k l \<Longrightarrow> moves lax k l l"
  by (simp add: moves_def)

lemma advances_inv: "moves lax k l l' \<Longrightarrow> conn_ok lax k l'"
  by (simp add: moves_def)

lemma advances_trans: "moves lax k l m \<Longrightarrow> moves lax k m n \<Longrightarrow> moves lax k l n"
  by (auto simp: moves_def)

lemma good_trans: "moves lax k l m \<Longrightarrow> fine lax k m r \<Longrightarrow> fine lax k l r"
  by (cases r) (auto intro: advances_trans)

lemma good_bind:
  assumes "fine lax k l r" and "\<And>m. r = Inr m \<Longrightarrow> moves lax k l m \<Longrightarrow> fine lax k m (f m)"
  shows "fine lax k l (bindR r f)"
  using assms by (cases r) (auto intro: good_trans)

lemma queue_if_frame [simp]:
  "conns (queue_if self cb f l) = conns l" "chanHeap (queue_if self cb f l) = chanHeap l"
  "kernel_out (queue_if self cb f l) = kernel_out l" "pollChannels (queue_if self cb f l) = pollChannels l"
  "loopId (queue_if self cb f l) = loopId l" "threadId (queue_if self cb f l) = threadId l"
  "shutdown_calls (queue_if self cb f l) = shutdown_calls l"
  by (simp_all add: queue_if_def queue_defs split: option.splits)

section \<open>Output\<close>

text \<open>The functors that a write queues, when the callbacks are set.\<close>

definition wc_functors :: "addr \<Rightarrow> 'u tcp_conn \<Rightarrow> 'u conn_functor list" where
  "wc_functors k cn = (case writeCompleteCallback cn of None \<Rightarrow> [] | Some u \<Rightarrow> [WriteComplete u k])"

definition hw_functors :: "addr \<Rightarrow> 'u tcp_conn \<Rightarrow> nat \<Rightarrow> 'u conn_functor list" where
  "hw_functors k cn n = (case highWaterMarkCallback cn of None \<Rightarrow> [] | Some u \<Rightarrow> [HighWaterMark u k n])"

lemma queue_if_pending [simp]:
  "pendingFunctors (queue_if self (writeCompleteCallback cn) (\<lambda>u. WriteComplete u k) l) = pendingFunctors l @ wc_functors k cn"
  "pendingFunctors (queue_if self (highWaterMarkCallback cn) (\<lambda>u. HighWaterMark u k n) l)
     = pendingFunctors l @ hw_functors k cn n"
  by (simp_all add: queue_if_def queue_defs wc_functors_def hw_functors_def split: option.splits)

lemma conn_viewD:
  assumes "conn_view k cn ch l"
  shows "conns l k = Some cn" "chanHeap l (conn_channel cn) = Some ch" "reactor_inv l"
    "ch_fd ch = conn_fd cn" "buf_inv (inputBuffer cn)" "buf_inv (outputBuffer cn)"
    "get_conn k l = Inr cn" "get_chan (conn_channel cn) l = Inr ch"
  using assms by (auto simp: conn_view_def)

lemma shutdownInLoop_view:
  assumes "conn_view k cn ch l"
  shows "shutdownInLoop k l = Inr (if isWriting ch then l
    else l\<lparr>shutdown_calls := shutdown_calls l @ [(conn_fd cn, SHUT_RD)]\<rparr>)"
  using conn_viewD [OF assms]
  by (simp add: shutdownInLoop_def Socket_shutdownWrite_def sockets_shutdownWrite_def)

lemma shutdownInLoop_frame:
  assumes v: "conn_view k cn ch l"
  shows "\<exists>l'. shutdownInLoop k l = Inr l' \<and> conn_view k cn ch l' \<and> conns l' = conns l
    \<and> kernel_out l' = kernel_out l \<and> pendingFunctors l' = pendingFunctors l"
  using shutdownInLoop_view [OF v] v
  by (cases "isWriting ch") (auto intro: view_frame)

text \<open>The part of \<open>handleWrite\<close> when the kernel took something.\<close>

lemma handleWrite_took:
  assumes v: "conn_view k cn ch l" and p: "phase_of lax cn ch" and w: "isWriting ch"
    and n: "0 < n" "n \<le> length (content (outputBuffer cn))"
  shows "\<exists>l' b ch'. conn_handleWrite (WriteOk n) self k l = Inr l' \<and> conn_view k (cn\<lparr>outputBuffer := b\<rparr>) ch' l'
    \<and> phase_of lax (cn\<lparr>outputBuffer := b\<rparr>) ch' \<and> content b = drop n (content (outputBuffer cn))
    \<and> conns l' = (conns l)(k \<mapsto> cn\<lparr>outputBuffer := b\<rparr>)
    \<and> kernel_out l' = (kernel_out l)(conn_fd cn := kernel_out l (conn_fd cn) @ take n (content (outputBuffer cn)))
    \<and> events ch' = (if n = length (content (outputBuffer cn)) then events ch AND NOT kWriteEvent else events ch)
    \<and> pendingFunctors l' = pendingFunctors l @ (if n = length (content (outputBuffer cn)) then wc_functors k cn else [])
    \<and> shutdown_calls l' = shutdown_calls l
        @ (if n = length (content (outputBuffer cn)) \<and> conn_state cn = kDisconnecting then [(conn_fd cn, SHUT_RD)] else [])
    \<and> (index ch \<noteq> KNew \<longrightarrow> index ch' \<noteq> KNew)"
proof -
  note V = conn_viewD [OF v]
  let ?out = "content (outputBuffer cn)"
  from retrieve_ok [OF V(6) n(2)] obtain b where b: "retrieve n (outputBuffer cn) = Inr b" "buf_inv b"
    "content b = drop n ?out" by blast
  have live: "conn_state cn \<noteq> kDisconnected"
    using p w by (auto simp: phase_of_def isNoneEvent_def isWriting_def)
  let ?l1 = "l\<lparr>kernel_out := (kernel_out l)(conn_fd cn := kernel_out l (conn_fd cn) @ take n ?out)\<rparr>"
  let ?cn = "cn\<lparr>outputBuffer := b\<rparr>"
  let ?l2 = "put_conn k ?cn ?l1"
  have v1: "conn_view k cn ch ?l1" by (rule view_frame [OF v]) simp_all
  have v2: "conn_view k ?cn ch ?l2" by (rule view_put [OF v1]) (use V b in simp_all)
  have unfold: "conn_handleWrite (WriteOk n) self k l =
    (if readableBytes b = 0
     then bindR (disableWriting (conn_channel cn) ?l2) (\<lambda>l3.
       let l4 = queue_if self (writeCompleteCallback cn) (\<lambda>u. WriteComplete u k) l3
       in if conn_state cn = kDisconnecting then shutdownInLoop k l4 else Inr l4)
     else Inr ?l2)"
    using V w n b buf_slice_peek [OF V(6), of "length ?out"]
    by (simp add: conn_handleWrite_def sockets_write_def written_def readableBytes_content
        del: readableBytes_inv length_content)
  show ?thesis
  proof (cases "content b = []")
    case False
    with b(2) have "readableBytes b \<noteq> 0"
      by (simp add: readableBytes_content del: readableBytes_inv length_content)
    moreover have "phase_of lax ?cn ch" using p w False live by (simp add: phase_of_def)
    moreover have "n \<noteq> length ?out" using False b(3) by (metis drop_all order_refl)
    ultimately show ?thesis
      using unfold v2 b by - (rule exI [of _ ?l2], rule exI [of _ b], rule exI [of _ ch], simp)
  next
    case True
    then have all: "n = length ?out" using b(3) n(2) by simp
    from True b(2) have e: "readableBytes b = 0"
      by (simp add: readableBytes_content del: readableBytes_inv length_content)
    from view_modify [OF v2, of "\<lambda>e. e AND NOT kWriteEvent"] obtain l3 ch3 where
      l3: "disableWriting (conn_channel cn) ?l2 = Inr l3" "conn_view k ?cn ch3 l3"
      "events ch3 = events ch AND NOT kWriteEvent" "index ch3 \<noteq> KNew" "kernel_out l3 = kernel_out ?l2"
      "conns l3 = conns ?l2" "pendingFunctors l3 = pendingFunctors l" "shutdown_calls l3 = shutdown_calls l"
      by (auto simp: event_ops)
    have quiet: "\<not> isWriting ch3" using l3(3) by (simp add: isWriting_def has_bits_cleared)
    let ?l4 = "queue_if self (writeCompleteCallback cn) (\<lambda>u. WriteComplete u k) l3"
    have v4: "conn_view k ?cn ch3 ?l4" by (rule view_frame [OF l3(2)]) simp_all
    have ph: "phase_of lax ?cn ch3"
      using l3(3,4) True live by (simp add: phase_of_def isWriting_def has_bits_cleared)
    let ?l5 = "?l4\<lparr>shutdown_calls := shutdown_calls ?l4 @ [(conn_fd cn, SHUT_RD)]\<rparr>"
    have l5: "shutdownInLoop k ?l4 = Inr ?l5" using shutdownInLoop_view [OF v4] quiet by simp
    have v5: "conn_view k ?cn ch3 ?l5" by (rule view_frame [OF v4]) simp_all
    let ?l' = "if conn_state cn = kDisconnecting then ?l5 else ?l4"
    have "conn_handleWrite (WriteOk n) self k l = Inr ?l'"
      using unfold e l3(1) l5 by (simp add: Let_def)
    then show ?thesis
      using l3(3-8) v4 v5 ph b all by - (rule exI [of _ ?l'], rule exI [of _ b], rule exI [of _ ch3], simp)
  qed
qed

lemma handleWrite_nothing:
  assumes v: "conn_view k cn ch l" and w: "isWriting ch" and n: "written answer = 0"
  shows "conn_handleWrite answer self k l = Inr l"
proof -
  note V = conn_viewD [OF v]
  have same: "sockets_write answer (conn_fd cn) bs (length bs) l
    = Inr (l\<lparr>kernel_out := (kernel_out l)(conn_fd cn := kernel_out l (conn_fd cn) @ [])\<rparr>)" for bs
    using n by (cases answer) (auto simp: sockets_write_def written_def)
  have "conn_handleWrite answer self k l =
    (if conn_state cn = kDisconnecting then shutdownInLoop k l else Inr l)"
    using V w n buf_slice_peek [OF V(6), of "length (content (outputBuffer cn))"]
      same [of "content (outputBuffer cn)"]
    by (simp add: conn_handleWrite_def readableBytes_content del: readableBytes_inv length_content)
  with shutdownInLoop_view [OF v] w show ?thesis by simp
qed

lemma handleWrite_idle:
  "conn_view k cn ch l \<Longrightarrow> \<not> isWriting ch \<Longrightarrow> conn_handleWrite answer self k l = Inr l"
  by (simp add: conn_handleWrite_def conn_viewD)

text \<open>What every write event preserves.\<close>

lemma handleWrite_ok:
  assumes v: "conn_view k cn ch l" and p: "phase_of lax cn ch"
    and n: "written answer \<le> length (content (outputBuffer cn))"
  shows "\<exists>l' cn' ch'. conn_handleWrite answer self k l = Inr l' \<and> conn_view k cn' ch' l'
    \<and> phase_of lax cn' ch' \<and> conn_state cn' = conn_state cn \<and> (index ch \<noteq> KNew \<longrightarrow> index ch' \<noteq> KNew)"
proof (cases "isWriting ch \<and> written answer > 0")
  case True
  then have a: "answer = WriteOk (written answer)" by (cases answer) (auto simp: written_def)
  from True handleWrite_took [OF v p _ _ n, of self] obtain l' b ch' where
    "conn_handleWrite (WriteOk (written answer)) self k l = Inr l'" "conn_view k (cn\<lparr>outputBuffer := b\<rparr>) ch' l'"
    "phase_of lax (cn\<lparr>outputBuffer := b\<rparr>) ch'" "index ch \<noteq> KNew \<longrightarrow> index ch' \<noteq> KNew" by blast
  with a show ?thesis by - (rule exI [of _ l'], rule exI [of _ "cn\<lparr>outputBuffer := b\<rparr>"], rule exI [of _ ch'], simp)
next
  case False
  then have "conn_handleWrite answer self k l = Inr l"
    using handleWrite_idle [OF v] handleWrite_nothing [OF v] by auto
  with v p show ?thesis by auto
qed

subsection \<open>Sending\<close>

text \<open>Queueing the rest of a message, with the functor of the high water mark.\<close>

lemma send_rest_ok:
  assumes v: "conn_view k cn ch l" and live: "conn_state cn \<noteq> kDisconnected"
    and opn: "\<not> lax \<Longrightarrow> open_state (conn_state cn) \<Longrightarrow> index ch \<noteq> KNew"
    and len: "0 < len" "len \<le> max_size" and app: "buf_append (drop nw mem) len (outputBuffer cn) = Inr b"
  shows "\<exists>l' ch'. send_rest self k mem nw len l = Inr l' \<and> conn_view k (cn\<lparr>outputBuffer := b\<rparr>) ch' l'
    \<and> phase_of lax (cn\<lparr>outputBuffer := b\<rparr>) ch' \<and> conns l' = (conns l)(k \<mapsto> cn\<lparr>outputBuffer := b\<rparr>)
    \<and> content b = content (outputBuffer cn) @ take len (drop nw mem)
    \<and> isWriting ch' \<and> events ch' = (if isWriting ch then events ch else events ch OR kWriteEvent)
    \<and> pendingFunctors l' = pendingFunctors l
        @ (let n = readableBytes (outputBuffer cn)
           in if szadd n len \<ge> highWaterMark cn \<and> n < highWaterMark cn then hw_functors k cn (szadd n len) else [])
    \<and> kernel_out l' = kernel_out l \<and> shutdown_calls l' = shutdown_calls l \<and> (index ch \<noteq> KNew \<longrightarrow> index ch' \<noteq> KNew)"
proof -
  note V = conn_viewD [OF v]
  from buf_append_success [OF V(6) len(2) app] have mem: "len \<le> length (drop nw mem)"
    and b: "buf_append (drop nw mem) len (outputBuffer cn) = Inr b" "buf_inv b"
    "content b = content (outputBuffer cn) @ take len (drop nw mem)" using app by auto
  then have ne: "content b \<noteq> []" using len by auto
  let ?n = "readableBytes (outputBuffer cn)"
  let ?l1 = "if szadd ?n len \<ge> highWaterMark cn \<and> ?n < highWaterMark cn
    then queue_if self (highWaterMarkCallback cn) (\<lambda>u. HighWaterMark u k (szadd ?n len)) l else l"
  let ?cn = "cn\<lparr>outputBuffer := b\<rparr>"
  let ?l2 = "put_conn k ?cn ?l1"
  have v1: "conn_view k cn ch ?l1" by (rule view_frame [OF v]) simp_all
  have v2: "conn_view k ?cn ch ?l2" by (rule view_put [OF v1]) (use V b in simp_all)
  have pend: "pendingFunctors ?l1 = pendingFunctors l @ (let n = ?n in if szadd n len \<ge> highWaterMark cn
    \<and> n < highWaterMark cn then hw_functors k cn (szadd n len) else [])" by (simp only: Let_def) simp
  have frame: "conns ?l1 = conns l" "kernel_out ?l1 = kernel_out l" "shutdown_calls ?l1 = shutdown_calls l" by simp_all
  have unfold: "send_rest self k mem nw len l =
    (if \<not> isWriting ch then enableWriting (conn_channel cn) ?l2 else Inr ?l2)"
    unfolding send_rest_def V(7) bindR_Inr Let_def b(1) using conn_viewD(8) [OF v2] by simp
  show ?thesis
  proof (cases "isWriting ch")
    case True
    moreover have "phase_of lax ?cn ch" using True live opn ne by (simp add: phase_of_def)
    ultimately show ?thesis
      using unfold v2 b by - (rule exI [of _ ?l2], rule exI [of _ ch], simp only: pend frame put_conn_simps, simp)
  next
    case False
    from view_modify [OF v2, of "\<lambda>e. e OR kWriteEvent"] obtain l3 ch3 where
      l3: "enableWriting (conn_channel cn) ?l2 = Inr l3" "conn_view k ?cn ch3 l3"
      "events ch3 = events ch OR kWriteEvent" "index ch3 \<noteq> KNew" "kernel_out l3 = kernel_out ?l2"
      "conns l3 = conns ?l2" "pendingFunctors l3 = pendingFunctors ?l2" "shutdown_calls l3 = shutdown_calls ?l2"
      by (auto simp: event_ops)
    have w: "isWriting ch3" using l3(3) by (simp add: isWriting_def has_bits_or)
    then have "phase_of lax ?cn ch3" using l3(4) live ne by (simp add: phase_of_def)
    with l3 w show ?thesis
      using unfold False b by - (rule exI [of _ l3], rule exI [of _ ch3], simp only: pend frame put_conn_simps, simp)
  qed
qed

lemma send_rest_short:
  assumes v: "conn_view k cn ch l" and mem: "length mem < nw + len" and len: "0 < len" "len \<le> max_size"
    and room: "writerIndex (outputBuffer cn) + len \<le> max_size"
  shows "send_rest self k mem nw len l = Inl OutOfBounds"
proof -
  note V = conn_viewD [OF v]
  have "\<exists>e. buf_append (drop nw mem) len (outputBuffer cn) = Inl e"
    using mem len by (cases "ensureWritableBytes len (outputBuffer cn)") (auto simp: buf_append_def)
  with buf_append_error [OF V(6) len(2), of "drop nw mem"] room
  have "buf_append (drop nw mem) len (outputBuffer cn) = Inl OutOfBounds" by fastforce
  with V show ?thesis by (simp add: send_rest_def Let_def)
qed

text \<open>The direct write, then the rest: the state between the two.\<close>

definition fault :: "write_result \<Rightarrow> bool" where
  "fault answer \<longleftrightarrow> (case answer of WriteOk n \<Rightarrow> False | WriteErr e \<Rightarrow> e = EPIPE \<or> e = ECONNRESET)"

lemma sendInLoop_idle:
  assumes v: "conn_view k cn ch l" and p: "phase_of lax cn ch" and live: "conn_state cn \<noteq> kDisconnected"
    and idle: "\<not> isWriting ch" and mem: "len \<le> length mem"
  shows "\<exists>l1. conn_view k cn ch l1 \<and> conns l1 = conns l \<and> shutdown_calls l1 = shutdown_calls l
    \<and> kernel_out l1 = (kernel_out l)(conn_fd cn := kernel_out l (conn_fd cn) @ take (written answer) mem)
    \<and> pendingFunctors l1 = pendingFunctors l @ (if answer = WriteOk 0 then wc_functors k cn else [])
    \<and> (fault answer \<longrightarrow> l1 = l)
    \<and> sendInLoop answer self k mem len l =
        (if \<not> fault answer \<and> len > 0 then send_rest self k mem (written answer) len l1 else Inr l1)"
proof -
  note V = conn_viewD [OF v]
  have e: "content (outputBuffer cn) = []" using p live idle by (simp add: phase_of_def)
  have z: "readableBytes (outputBuffer cn) = 0"
    using e V(6) by (simp add: readableBytes_content del: readableBytes_inv)
  let ?l1 = "l\<lparr>kernel_out := (kernel_out l)(conn_fd cn := kernel_out l (conn_fd cn) @ take (written answer) mem)\<rparr>"
  let ?l2 = "if answer = WriteOk 0 then queue_if self (writeCompleteCallback cn) (\<lambda>u. WriteComplete u k) ?l1
    else ?l1"
  have v2: "conn_view k cn ch ?l2" by (rule view_frame [OF v]) simp_all
  have E: "EPIPE \<noteq> EWOULDBLOCK" "ECONNRESET \<noteq> EWOULDBLOCK"
    by (simp_all add: EPIPE_def EWOULDBLOCK_def ECONNRESET_def)
  have "sendInLoop answer self k mem len l =
      (if \<not> fault answer \<and> len > 0 then send_rest self k mem (written answer) len ?l2 else Inr ?l2)"
    unfolding sendInLoop_def V(7) bindR_Inr using V(4,8) live idle z mem E
    by (cases answer) (auto simp: sockets_write_def written_def fault_def Let_def)
  moreover have "?l2 = l" if "fault answer" using that by (cases answer) (auto simp: fault_def written_def)
  ultimately show ?thesis using v2 by - (rule exI [of _ ?l2], simp)
qed

lemma sendInLoop_busy:
  assumes v: "conn_view k cn ch l" and "conn_state cn = kDisconnected \<or> isWriting ch"
  shows "sendInLoop answer self k mem len l = Inr l"
  unfolding sendInLoop_def conn_viewD(7) [OF v] bindR_Inr using conn_viewD(8) [OF v] assms(2) by auto

text \<open>A message handed to a live connection with no output pending.\<close>

lemma sendInLoop_queued:
  assumes v: "conn_view k cn ch l" and p: "phase_of lax cn ch"
    and live: "conn_state cn \<noteq> kDisconnected" and idle: "\<not> isWriting ch" and ok: "\<not> fault answer"
    and mem: "written answer + len \<le> length mem" and len: "0 < len" and room: "writerIndex (outputBuffer cn) + len \<le> max_size"
  shows "\<exists>l' b ch'. sendInLoop answer self k mem len l = Inr l' \<and> conn_view k (cn\<lparr>outputBuffer := b\<rparr>) ch' l'
    \<and> phase_of lax (cn\<lparr>outputBuffer := b\<rparr>) ch' \<and> conns l' = (conns l)(k \<mapsto> cn\<lparr>outputBuffer := b\<rparr>)
    \<and> content b = take len (drop (written answer) mem) \<and> isWriting ch' \<and> events ch' = events ch OR kWriteEvent
    \<and> kernel_out l' = (kernel_out l)(conn_fd cn := kernel_out l (conn_fd cn) @ take (written answer) mem)
    \<and> pendingFunctors l' = pendingFunctors l @ (if answer = WriteOk 0 then wc_functors k cn else [])
        @ (if highWaterMark cn \<le> len \<and> 0 < highWaterMark cn then hw_functors k cn len else [])
    \<and> shutdown_calls l' = shutdown_calls l"
proof -
  have max: "len \<le> max_size" using room by simp
  have empty: "content (outputBuffer cn) = []" using p live idle by (simp add: phase_of_def)
  have z: "readableBytes (outputBuffer cn) = 0"
    using empty conn_viewD(6) [OF v] by (simp add: readableBytes_content del: readableBytes_inv)
  have add: "szadd 0 len = len" using max by (simp add: szadd_def max_size_def size_mod_def)
  from mem have len': "len \<le> length mem" and dr: "len \<le> length (drop (written answer) mem)" by simp_all
  from sendInLoop_idle [OF v p live idle len', of answer self] ok len obtain l1 where
    l1: "conn_view k cn ch l1" "conns l1 = conns l" "shutdown_calls l1 = shutdown_calls l"
    "kernel_out l1 = (kernel_out l)(conn_fd cn := kernel_out l (conn_fd cn) @ take (written answer) mem)"
    "pendingFunctors l1 = pendingFunctors l @ (if answer = WriteOk 0 then wc_functors k cn else [])"
    "sendInLoop answer self k mem len l = send_rest self k mem (written answer) len l1" by auto
  have opn: "index ch \<noteq> KNew" if "\<not> lax" "open_state (conn_state cn)" using p that by (simp add: phase_of_def)
  from buf_append_ok [OF conn_viewD(6) [OF v] dr room] obtain b where
    "buf_append (drop (written answer) mem) len (outputBuffer cn) = Inr b" by blast
  from send_rest_ok [where self = self and lax = lax, OF l1(1) live opn len max this] obtain l' ch' where
    l': "send_rest self k mem (written answer) len l1 = Inr l'" "conn_view k (cn\<lparr>outputBuffer := b\<rparr>) ch' l'"
    "phase_of lax (cn\<lparr>outputBuffer := b\<rparr>) ch'" "conns l' = (conns l1)(k \<mapsto> cn\<lparr>outputBuffer := b\<rparr>)"
    "content b = content (outputBuffer cn) @ take len (drop (written answer) mem)" "isWriting ch'"
    "events ch' = events ch OR kWriteEvent" "kernel_out l' = kernel_out l1" "shutdown_calls l' = shutdown_calls l1"
    "pendingFunctors l' = pendingFunctors l1 @ (if highWaterMark cn \<le> len \<and> 0 < highWaterMark cn then hw_functors k cn len else [])"
    unfolding z add Let_def using idle by auto
  show ?thesis
    by (rule exI [of _ l'], rule exI [of _ b], rule exI [of _ ch']) (use l1 l' empty in simp)
qed

lemma sendInLoop_fault:
  assumes v: "conn_view k cn ch l" and p: "phase_of lax cn ch" and live: "conn_state cn \<noteq> kDisconnected"
    and idle: "\<not> isWriting ch" and mem: "len \<le> length mem" and "fault answer"
  shows "sendInLoop answer self k mem len l = Inr l"
  using sendInLoop_idle [OF v p live idle mem, of answer self] assms(6) by auto

lemma sendInLoop_short:
  assumes v: "conn_view k cn ch l" and p: "phase_of lax cn ch" and live: "conn_state cn \<noteq> kDisconnected"
    and idle: "\<not> isWriting ch" and mem: "len \<le> length mem" "length mem < written answer + len" and ok: "\<not> fault answer"
    and len: "0 < len" and room: "writerIndex (outputBuffer cn) + len \<le> max_size"
  shows "sendInLoop answer self k mem len l = Inl OutOfBounds"
proof -
  from sendInLoop_idle [OF v p live idle mem(1), of answer self] ok len obtain l1 where
    "conn_view k cn ch l1" "sendInLoop answer self k mem len l = send_rest self k mem (written answer) len l1" by auto
  with send_rest_short [OF this(1) mem(2) len _ room] room show ?thesis by simp
qed

lemma sendInLoop_live:
  assumes v: "conn_view k cn ch l" and p: "phase_of lax cn ch"
    and live: "conn_state cn \<noteq> kDisconnected" and idle: "\<not> isWriting ch"
    and mem: "len \<le> length mem" and len: "0 < len" and room: "writerIndex (outputBuffer cn) + len \<le> max_size"
  shows "if \<not> fault answer \<and> length mem < written answer + len then sendInLoop answer self k mem len l = Inl OutOfBounds
    else \<exists>l' cn' ch'. sendInLoop answer self k mem len l = Inr l' \<and> conn_view k cn' ch' l' \<and> phase_of lax cn' ch'
      \<and> conn_state cn' = conn_state cn \<and> inputBuffer cn' = inputBuffer cn
      \<and> stream k l' = stream k l @ (if fault answer then [] else take (written answer) mem @ take len (drop (written answer) mem))"
proof -
  have empty: "content (outputBuffer cn) = []" using p live idle by (simp add: phase_of_def)
  consider (fault) "fault answer" | (short) "\<not> fault answer" "length mem < written answer + len"
    | (room) "\<not> fault answer" "written answer + len \<le> length mem" by linarith
  then show ?thesis
  proof cases
    case fault
    with sendInLoop_fault [OF v p live idle mem, of answer self] v p show ?thesis by auto
  next
    case short
    with sendInLoop_short [OF v p live idle mem short(2,1) len assms(7)] show ?thesis by simp
  next
    case room
    from sendInLoop_queued [OF v p live idle room len assms(7), of self] obtain l' b ch' where
      l': "sendInLoop answer self k mem len l = Inr l'" "conn_view k (cn\<lparr>outputBuffer := b\<rparr>) ch' l'"
      "phase_of lax (cn\<lparr>outputBuffer := b\<rparr>) ch'" "content b = take len (drop (written answer) mem)"
      "kernel_out l' = (kernel_out l)(conn_fd cn := kernel_out l (conn_fd cn) @ take (written answer) mem)" by blast
    have "stream k l' = stream k l @ take (written answer) mem @ take len (drop (written answer) mem)"
      using l'(4,5) conn_viewD(1) [OF l'(2)] conn_viewD(1) [OF v] empty by (simp add: stream_def)
    with l'(1-3) have "\<exists>l' cn' ch'. sendInLoop answer self k mem len l = Inr l' \<and> conn_view k cn' ch' l'
      \<and> phase_of lax cn' ch' \<and> conn_state cn' = conn_state cn \<and> inputBuffer cn' = inputBuffer cn
      \<and> stream k l' = stream k l @ take (written answer) mem @ take len (drop (written answer) mem)"
      by - (rule exI [of _ l'], rule exI [of _ "cn\<lparr>outputBuffer := b\<rparr>"], rule exI [of _ ch'], simp)
    with room show ?thesis by simp
  qed
qed

section \<open>Operations that keep the invariant\<close>

lemma conn_invE:
  assumes "conn_ok lax k l"
  obtains cn ch where "conn_view k cn ch l" "phase_of lax cn ch" "state_of k l = conn_state cn"
    "in_poller k l \<longleftrightarrow> index ch \<noteq> KNew"
  using assms by (auto simp: conn_ok_def state_of_def in_poller_def conn_view_def)

lemma conn_invI: "conn_view k cn ch l \<Longrightarrow> phase_of lax cn ch \<Longrightarrow> conn_ok lax k l"
  by (auto simp: conn_ok_def)

lemma goodI:
  assumes "conn_view k cn ch l" and "conn_view k cn' ch' l'" and "phase_of lax cn' ch'"
    and "rank (conn_state cn) \<le> rank (conn_state cn')" and "index ch \<noteq> KNew \<Longrightarrow> index ch' \<noteq> KNew"
  shows "fine lax k l (Inr l')"
  using assms conn_viewD(1,2) [OF assms(1)] conn_viewD(1,2) [OF assms(2)]
  by (auto simp: moves_def state_of_def in_poller_def intro: conn_invI)

text \<open>Changes of the state that do not concern the connection.\<close>

lemma good_frame:
  assumes "conn_ok lax k l" and "conns l' = conns l" and "chanHeap l' = chanHeap l"
    and "pollChannels l' = pollChannels l" and "loopId l' = loopId l"
  shows "fine lax k l (Inr l')"
proof -
  from assms(1) obtain cn ch where v: "conn_view k cn ch l" and p: "phase_of lax cn ch" by (rule conn_invE)
  show ?thesis by (rule goodI [OF v view_frame [OF v assms(2-5)] p]) simp_all
qed

lemma good_quene: "conn_ok lax k l \<Longrightarrow> fine lax k l (Inr (queneInLoop self f l))"
  by (erule good_frame) (simp_all add: queue_defs)

lemma sendInLoop_good:
  assumes inv: "conn_ok lax k l" and len: "len \<le> length mem" "len \<le> max_size"
  shows "fine lax k l (sendInLoop answer self k mem len l)"
proof -
  from inv obtain cn ch where v: "conn_view k cn ch l" and p: "phase_of lax cn ch" by (rule conn_invE)
  show ?thesis
  proof (cases "conn_state cn = kDisconnected \<or> isWriting ch")
    case True
    with sendInLoop_busy [OF v] inv show ?thesis by (simp add: advances_refl)
  next
    case False
    then have live: "conn_state cn \<noteq> kDisconnected" and idle: "\<not> isWriting ch" by auto
    from sendInLoop_idle [OF v p live idle len(1), of answer self] obtain l1 where
      v1: "conn_view k cn ch l1" and eq: "sendInLoop answer self k mem len l =
        (if \<not> fault answer \<and> len > 0 then send_rest self k mem (written answer) len l1 else Inr l1)" by blast
    have g1: "fine lax k l (Inr l1)" by (rule goodI [OF v v1 p]) simp_all
    show ?thesis
    proof (cases "\<not> fault answer \<and> len > 0")
      case False
      with eq g1 show ?thesis by simp
    next
      case True
      then have eq: "sendInLoop answer self k mem len l = send_rest self k mem (written answer) len l1"
        using eq by simp
      show ?thesis
      proof (cases "buf_append (drop (written answer) mem) len (outputBuffer cn)")
        case (Inl e)
        with buf_append_error [OF conn_viewD(6) [OF v] len(2) Inl] conn_viewD(7) [OF v1] show ?thesis
          by (auto simp: eq send_rest_def tolerated_def Let_def)
      next
        case (Inr b)
        have opn: "index ch \<noteq> KNew" if "\<not> lax" "open_state (conn_state cn)"
          using p that by (simp add: phase_of_def)
        from send_rest_ok [where self = self and lax = lax, OF v1 live opn _ len(2) Inr] True obtain l' ch' where
          "send_rest self k mem (written answer) len l1 = Inr l'" "conn_view k (cn\<lparr>outputBuffer := b\<rparr>) ch' l'"
          "phase_of lax (cn\<lparr>outputBuffer := b\<rparr>) ch'" "index ch \<noteq> KNew \<Longrightarrow> index ch' \<noteq> KNew" by blast
        with eq goodI [OF v, of "cn\<lparr>outputBuffer := b\<rparr>" ch' l'] show ?thesis by simp
      qed
    qed
  qed
qed

lemma shutdownInLoop_good:
  assumes "conn_ok lax k l"
  shows "fine lax k l (shutdownInLoop k l)"
proof -
  from assms obtain cn ch where v: "conn_view k cn ch l" and p: "phase_of lax cn ch" by (rule conn_invE)
  from shutdownInLoop_frame [OF v] obtain l' where "shutdownInLoop k l = Inr l'" "conn_view k cn ch l'" by blast
  with goodI [OF v _ p] show ?thesis by simp
qed

lemma handleWrite_good:
  assumes "conn_ok lax k l" and "\<And>cn. conns l k = Some cn \<Longrightarrow> written answer \<le> length (content (outputBuffer cn))"
  shows "fine lax k l (conn_handleWrite answer self k l)"
proof -
  from assms(1) obtain cn ch where v: "conn_view k cn ch l" and p: "phase_of lax cn ch" by (rule conn_invE)
  from handleWrite_ok [OF v p assms(2), of self] conn_viewD(1) [OF v] obtain l' cn' ch' where
    "conn_handleWrite answer self k l = Inr l'" "conn_view k cn' ch' l'" "phase_of lax cn' ch'"
    "conn_state cn' = conn_state cn" "index ch \<noteq> KNew \<Longrightarrow> index ch' \<noteq> KNew" by blast
  with goodI [OF v, of cn' ch' l'] show ?thesis by simp
qed

text \<open>Closing: the new state, then the channel disabled.\<close>

lemma close_channel:
  assumes v: "conn_view k cn ch l"
  shows "\<exists>l1 l2 ch2. setState k kDisconnected l = Inr l1 \<and> disableAll (conn_channel cn) l1 = Inr l2
    \<and> conn_view k (cn\<lparr>conn_state := kDisconnected\<rparr>) ch2 l2 \<and> isNoneEvent ch2 \<and> index ch2 \<noteq> KNew
    \<and> conns l2 = (conns l)(k \<mapsto> cn\<lparr>conn_state := kDisconnected\<rparr>) \<and> kernel_out l2 = kernel_out l
    \<and> pendingFunctors l2 = pendingFunctors l
    \<and> fine lax k l (Inr l2)"
proof -
  note V = conn_viewD [OF v]
  let ?cn = "cn\<lparr>conn_state := kDisconnected\<rparr>"
  have v1: "conn_view k ?cn ch (put_conn k ?cn l)" by (rule view_put [OF v]) (use V in simp_all)
  from view_modify [OF v1, of "\<lambda>_. kNoneEvent"] obtain l2 ch2 where
    l2: "disableAll (conn_channel cn) (put_conn k ?cn l) = Inr l2" "conn_view k ?cn ch2 l2"
    "isNoneEvent ch2" "index ch2 \<noteq> KNew" "conns l2 = (conns l)(k \<mapsto> ?cn)" "kernel_out l2 = kernel_out l"
    "pendingFunctors l2 = pendingFunctors l"
    by (auto simp: event_ops isNoneEvent_def)
  have "fine lax k l (Inr l2)"
    by (rule goodI [OF v l2(2)])
      (use l2 isNoneEvent_quiet [OF l2(3)] in \<open>auto simp: phase_of_def open_state_def intro: rank.elims [of "conn_state cn"]\<close>)
  with l2 V show ?thesis by (auto simp: setState_def)
qed

lemma stopReadInLoop_good:
  assumes "conn_ok lax k l"
  shows "fine lax k l (stopReadInLoop k l)"
proof -
  from assms obtain cn ch where v: "conn_view k cn ch l" and p: "phase_of lax cn ch" by (rule conn_invE)
  note V = conn_viewD [OF v]
  show ?thesis
  proof (cases "conn_reading cn \<or> isReading ch")
    case False
    with V assms show ?thesis by (simp add: stopReadInLoop_def advances_refl)
  next
    case True
    from view_modify [OF v, of "\<lambda>e. e AND NOT kReadEvent"] obtain l1 ch1 where
      l1: "disableReading (conn_channel cn) l = Inr l1" "conn_view k cn ch1 l1"
      "events ch1 = events ch AND NOT kReadEvent" "index ch1 \<noteq> KNew" by (auto simp: event_ops)
    let ?cn = "cn\<lparr>conn_reading := False\<rparr>"
    have v2: "conn_view k ?cn ch1 (put_conn k ?cn l1)" by (rule view_put [OF l1(2)]) (use V in simp_all)
    have "phase_of lax ?cn ch1"
      using p l1(3,4) by (auto simp: phase_of_def isWriting_def isNoneEvent_def kNoneEvent_def
          has_bits_and_not [OF mask_disjoint(1)])
    from goodI [OF v v2 this] True V l1(1,4) show ?thesis by (simp add: stopReadInLoop_def)
  qed
qed

lemma startReadInLoop_good:
  assumes inv: "conn_ok lax k l" and live: "lax \<or> state_of k l \<noteq> kDisconnected"
  shows "fine lax k l (startReadInLoop k l)"
proof -
  from inv obtain cn ch where v: "conn_view k cn ch l" and p: "phase_of lax cn ch"
    and st: "state_of k l = conn_state cn" by (rule conn_invE)
  note V = conn_viewD [OF v]
  show ?thesis
  proof (cases "\<not> conn_reading cn \<or> \<not> isReading ch")
    case False
    with V inv show ?thesis by (simp add: startReadInLoop_def advances_refl)
  next
    case True
    from view_modify [OF v, of "\<lambda>e. e OR kReadEvent"] obtain l1 ch1 where
      l1: "enableReading (conn_channel cn) l = Inr l1" "conn_view k cn ch1 l1"
      "events ch1 = events ch OR kReadEvent" "index ch1 \<noteq> KNew" by (auto simp: event_ops)
    let ?cn = "cn\<lparr>conn_reading := True\<rparr>"
    have v2: "conn_view k ?cn ch1 (put_conn k ?cn l1)" by (rule view_put [OF l1(2)]) (use V in simp_all)
    have "isWriting ch1 \<longleftrightarrow> isWriting ch" using l1(3) by (simp add: isWriting_def has_bits_or)
    then have "phase_of lax ?cn ch1" using p l1(4) live st by (auto simp: phase_of_def)
    from goodI [OF v v2 this] True V l1(1,4) show ?thesis by (simp add: startReadInLoop_def)
  qed
qed

text \<open>Changing members that the invariant does not mention.\<close>

lemma put_member_good:
  assumes inv: "conn_ok lax k l" and cn: "conns l k = Some cn"
    and same: "conn_state cn' = conn_state cn" "conn_channel cn' = conn_channel cn" "conn_fd cn' = conn_fd cn"
      "outputBuffer cn' = outputBuffer cn" "buf_inv (inputBuffer cn')"
  shows "fine lax k l (Inr (put_conn k cn' l))"
proof -
  from inv obtain cm ch where v: "conn_view k cm ch l" and p: "phase_of lax cm ch" by (rule conn_invE)
  with cn have v: "conn_view k cn ch l" and p: "phase_of lax cn ch" using conn_viewD(1) [OF v] by auto
  have v1: "conn_view k cn' ch (put_conn k cn' l)" by (rule view_put [OF v]) (use conn_viewD [OF v] same in simp_all)
  from p same have "phase_of lax cn' ch" by (simp add: phase_of_def)
  from goodI [OF v v1 this] same show ?thesis by simp
qed

text \<open>Taking any channel out of the poller.\<close>

lemma remove_keeps:
  assumes v: "conn_view k cn ch l" and p: "phase_of True cn ch" and rm: "Channel_remove c l = Inr l'"
  shows "\<exists>ch'. conn_view k cn ch' l' \<and> phase_of True cn ch'"
proof -
  from Channel_remove_cases [OF conn_viewD(3) [OF v] rm] obtain dh where
    dh: "chanHeap l c = Some dh" "l' = after_remove c dh l" "index dh \<noteq> KNew" .
  let ?ch = "the (chanHeap l' (conn_channel cn))"
  have "reactor_inv l'" using after_remove_inv [OF conn_viewD(3) [OF v] dh(1,3)] dh(2) by simp
  with v dh have "conn_view k cn ?ch l'" by (auto simp: conn_view_def after_remove_def)
  moreover have "isWriting ?ch \<longleftrightarrow> isWriting ch"
    using dh conn_viewD(2) [OF v] by (auto simp: after_remove_def isWriting_def)
  then have "phase_of True cn ?ch" using p by (simp add: phase_of_def)
  ultimately show ?thesis by blast
qed

section \<open>The contract of the user's callbacks\<close>

fun up_conn :: "up_call \<Rightarrow> addr" where
  "up_conn (UpConnection k) = k"
| "up_conn (UpMessage k t) = k"
| "up_conn (UpWriteComplete k) = k"
| "up_conn (UpHighWaterMark k n) = k"
| "up_conn (UpClose k) = k"

text \<open>
  The functors of connection \<open>k\<close>. A queued message has the length of a string. Without \<open>lax\<close>, the
  connection is not destroyed, and \<open>startReadInLoop\<close> finds it not closed.
\<close>

fun functor_of :: "addr \<Rightarrow> bool \<Rightarrow> 'u conn_loop \<Rightarrow> 'u conn_functor \<Rightarrow> bool" where
  "functor_of k lax l (SendInLoop k' m) \<longleftrightarrow> k' = k \<and> length m \<le> max_size"
| "functor_of k lax l (ShutdownInLoop k') \<longleftrightarrow> k' = k"
| "functor_of k lax l (ForceCloseInLoop k') \<longleftrightarrow> k' = k"
| "functor_of k lax l (StartReadInLoop k') \<longleftrightarrow> k' = k \<and> (lax \<or> state_of k l \<noteq> kDisconnected)"
| "functor_of k lax l (StopReadInLoop k') \<longleftrightarrow> k' = k"
| "functor_of k lax l (WriteComplete u k') \<longleftrightarrow> k' = k"
| "functor_of k lax l (HighWaterMark u k' n) \<longleftrightarrow> k' = k"
| "functor_of k lax l (ConnectEstablished k') \<longleftrightarrow> k' = k"
| "functor_of k lax l (ConnectDestroyed k') \<longleftrightarrow> k' = k \<and> lax"
| "functor_of k lax l (SetCloseCallback k' u) \<longleftrightarrow> k' = k"

text \<open>
  A callback that is given a connection keeps its invariant, never moves its state back and never
  takes its channel out of the loop. It may fail, but not by breaking an assertion of the library.
\<close>

locale conn_user =
  fixes lax :: bool and user :: "'u user"
  assumes user_good: "conn_ok lax (up_conn up) l \<Longrightarrow> fine lax (up_conn up) l (user u up l)"
begin

lemma call_user_good:
  assumes "conn_ok lax k l" and "up_conn up = k"
  shows "fine lax k l (call_user user cb up l)"
  using user_good [of up l] assms by (cases cb) (auto simp: call_user_def tolerated_def)

lemma handleClose_good:
  assumes inv: "conn_ok lax k l" and opn: "open_state (state_of k l)"
  shows "fine lax k l (conn_handleClose user k l)"
proof -
  from inv obtain cn ch where v: "conn_view k cn ch l" and st: "state_of k l = conn_state cn"
    by (rule conn_invE)
  from close_channel [OF v] obtain l1 l2 where
    l2: "setState k kDisconnected l = Inr l1" "disableAll (conn_channel cn) l1 = Inr l2" "fine lax k l (Inr l2)"
    by blast
  have unfold: "conn_handleClose user k l = bindR (call_user user (connectionCallback cn) (UpConnection k) l2)
    (\<lambda>l3. bindR (get_conn k l3) (\<lambda>cn3. call_user user (conn_closeCallback cn3) (UpClose k) l3))"
    using opn st l2 conn_viewD(7) [OF v]
    by (simp add: conn_handleClose_def open_state_def cassert_def)
  have adv: "moves lax k l l2" using l2(3) by simp
  have "fine lax k l2 (conn_handleClose user k l)"
    unfolding unfold
  proof (rule good_bind)
    show "fine lax k l2 (call_user user (connectionCallback cn) (UpConnection k) l2)"
      by (rule call_user_good [OF advances_inv [OF adv]]) simp
  next
    fix m assume "moves lax k l2 m"
    then have m: "conn_ok lax k m" by (rule advances_inv)
    then obtain cn3 where "get_conn k m = Inr cn3" by (auto elim!: conn_invE dest: conn_viewD(7))
    then show "fine lax k m (bindR (get_conn k m) (\<lambda>cn3. call_user user (conn_closeCallback cn3) (UpClose k) m))"
      using call_user_good [OF m, of "UpClose k"] by simp
  qed
  then show ?thesis by (rule good_trans [OF adv])
qed

lemma handleClose_closed:
  "get_conn k l = Inr cn \<Longrightarrow> \<not> open_state (conn_state cn) \<Longrightarrow> conn_handleClose user k l = Inl AssertFailed"
  by (simp add: conn_handleClose_def open_state_def cassert_def)

lemma handleClose_moves:
  assumes inv: "conn_ok lax k l" and r: "conn_handleClose user k l = Inr l'"
  shows "moves lax k l l'"
proof -
  from inv obtain cn ch where v: "conn_view k cn ch l" and st: "state_of k l = conn_state cn" by (rule conn_invE)
  with handleClose_closed [OF conn_viewD(7) [OF v]] r have "open_state (state_of k l)" by auto
  from handleClose_good [OF inv this] r show ?thesis by simp
qed

text \<open>Reading: data goes to the message callback, the end of the stream closes.\<close>

lemma handleRead_eof:
  assumes inv: "conn_ok lax k l" and fits: "readv_fits readv"
    and room: "\<And>cn. conns l k = Some cn \<Longrightarrow> length (buf_data (inputBuffer cn)) + extrabuf_size \<le> max_size"
    and opn: "conn_handleRead user readv k t l \<noteq> Inl AssertFailed \<or> open_state (state_of k l)"
  shows "fine lax k l (conn_handleRead user readv k t l)"
proof -
  from inv obtain cn ch where v: "conn_view k cn ch l" and p: "phase_of lax cn ch"
    and st: "state_of k l = conn_state cn" by (rule conn_invE)
  note V = conn_viewD [OF v]
  show ?thesis
  proof (cases "readv (readFd_iov (writableBytes (inputBuffer cn)))")
    case (IoErr e)
    then have rd: "readFd readv (inputBuffer cn) = Inr (IoErr e, inputBuffer cn)"
      by (simp only: readFd_def Let_def io_result.case)
    let ?cn = "cn\<lparr>inputBuffer := inputBuffer cn\<rparr>"
    have v1: "conn_view k ?cn ch (put_conn k ?cn l)" by (rule view_put [OF v]) (use V in simp_all)
    have "phase_of lax ?cn ch" using p by (simp add: phase_of_def)
    from goodI [OF v v1 this] V(7) rd conn_viewD(7,8) [OF v1] show ?thesis
      by (simp add: conn_handleRead_def conn_handleError_def)
  next
    case (IoBytes bs)
    from readFd_room [OF V(5) fits room [OF V(1)] this] obtain b where
      b: "readFd readv (inputBuffer cn) = Inr (IoBytes bs, b)" "buf_inv b" by blast
    let ?cn = "cn\<lparr>inputBuffer := b\<rparr>"
    let ?l1 = "put_conn k ?cn l"
    have v1: "conn_view k ?cn ch ?l1" by (rule view_put [OF v]) (use V b in simp_all)
    have p1: "phase_of lax ?cn ch" using p by (simp add: phase_of_def)
    have adv: "moves lax k l ?l1" using goodI [OF v v1 p1] by simp
    have eq: "conn_handleRead user readv k t l = (if length bs > 0
      then call_user user (messageCallback cn) (UpMessage k t) ?l1 else conn_handleClose user k ?l1)"
      using V(7) b(1) by (simp add: conn_handleRead_def Let_def)
    have "open_state (state_of k ?l1)" if "bs = []"
      using opn that eq st handleClose_closed [of k ?l1] conn_viewD(7) [OF v1] by (auto simp: state_of_def)
    with call_user_good [OF advances_inv [OF adv]] handleClose_good [OF advances_inv [OF adv]]
    have "fine lax k ?l1 (conn_handleRead user readv k t l)" unfolding eq by simp
    then show ?thesis by (rule good_trans [OF adv])
  qed
qed

lemma handleRead_good:
  assumes "conn_ok lax k l" and "open_state (state_of k l)" and "readv_fits readv"
    and "\<And>cn. conns l k = Some cn \<Longrightarrow> length (buf_data (inputBuffer cn)) + extrabuf_size \<le> max_size"
  shows "fine lax k l (conn_handleRead user readv k t l)"
  by (rule handleRead_eof) (use assms in auto)

lemma forceCloseInLoop_good: "conn_ok lax k l \<Longrightarrow> fine lax k l (forceCloseInLoop user k l)"
  using handleClose_good [of k l] advances_refl [of lax k l]
  by (cases "open_state (state_of k l)")
    (auto simp: forceCloseInLoop_def open_state_def elim!: conn_invE dest!: conn_viewD(7))

lemma connectEstablished_enters:
  assumes inv: "conn_ok lax k l" and st: "state_of k l = kConnecting"
  shows "\<exists>m. connectEstablished user k l = call_user user (connectionCallback (the (conns l k))) (UpConnection k) m
    \<and> moves lax k l m \<and> in_poller k m \<and> state_of k m = kConnected"
proof -
  from inv obtain cn ch where v: "conn_view k cn ch l" and p: "phase_of lax cn ch"
    and stc: "state_of k l = conn_state cn" by (rule conn_invE)
  note V = conn_viewD [OF v]
  let ?cn = "cn\<lparr>conn_state := kConnected\<rparr>"
  let ?l1 = "put_conn k ?cn l"
  have v1: "conn_view k ?cn ch ?l1" by (rule view_put [OF v]) (use V in simp_all)
  let ?ch = "ch\<lparr>ch_tie := Some k, tied := True\<rparr>"
  let ?l2 = "?l1\<lparr>chanHeap := (chanHeap ?l1)(conn_channel cn \<mapsto> ?ch)\<rparr>"
  have tie: "Channel_tie (conn_channel cn) k ?l1 = Inr ?l2" using V(2) by (simp add: Channel_tie_def)
  have "reactor_inv ?l2"
    by (rule set_chan_keeps_inv [OF conn_viewD(3) [OF v1]]) (use tie in \<open>auto simp: Channel_tie_def\<close>)
  with v1 have v2: "conn_view k ?cn ?ch ?l2" by (simp add: conn_view_def)
  from view_modify [OF v2, of "\<lambda>e. e OR kReadEvent"] obtain l3 ch3 where
    l3: "enableReading (conn_channel cn) ?l2 = Inr l3" "conn_view k ?cn ch3 l3"
    "events ch3 = events ch OR kReadEvent" "index ch3 \<noteq> KNew" by (auto simp: event_ops)
  have "phase_of lax ?cn ch3"
    using p l3(3,4) st stc by (simp add: phase_of_def isWriting_def has_bits_or)
  from goodI [OF v l3(2) this] st stc l3(4) have adv: "moves lax k l l3" by simp
  have "connectEstablished user k l = call_user user (connectionCallback cn) (UpConnection k) l3"
    using V(1,7) st stc tie l3(1) by (simp add: connectEstablished_def setState_def)
  moreover have "in_poller k l3" "state_of k l3 = kConnected"
    using conn_viewD(1,2) [OF l3(2)] l3(4) by (simp_all add: in_poller_def state_of_def)
  ultimately show ?thesis using adv V(1) by auto
qed

lemma connectEstablished_good:
  assumes inv: "conn_ok lax k l" and st: "state_of k l = kConnecting"
  shows "fine lax k l (connectEstablished user k l)"
proof -
  from connectEstablished_enters [OF assms] obtain m where
    m: "connectEstablished user k l = call_user user (connectionCallback (the (conns l k))) (UpConnection k) m" "moves lax k l m" by blast
  from good_trans [OF m(2) call_user_good [OF advances_inv [OF m(2)]]] m(1) show ?thesis by simp
qed

lemma connectEstablished_in_poller:
  assumes inv: "conn_ok lax k l" and st: "state_of k l = kConnecting" and r: "connectEstablished user k l = Inr l'"
    and strict: "\<not> lax"
  shows "in_poller k l'"
proof -
  from connectEstablished_enters [OF inv st] obtain m where
    m: "call_user user (connectionCallback (the (conns l k))) (UpConnection k) m = Inr l'" "moves lax k l m" "in_poller k m" using r by auto
  from call_user_good [OF advances_inv [OF m(2)], of "UpConnection k" "connectionCallback (the (conns l k))"] m(1,3) strict show ?thesis by (simp add: moves_def)
qed

lemma connectEstablished_moves:
  assumes inv: "conn_ok lax k l" and r: "connectEstablished user k l = Inr l'"
  shows "moves lax k l l'"
proof -
  from inv obtain cn ch where v: "conn_view k cn ch l" and st: "state_of k l = conn_state cn" by (rule conn_invE)
  with r conn_viewD(7) [OF v] have "state_of k l = kConnecting" by (simp add: connectEstablished_def cassert_eq_Inr)
  from connectEstablished_good [OF inv this] r show ?thesis by simp
qed

lemma connectDestroyed_moves:
  assumes inv: "conn_ok lax k l" and lax and r: "connectDestroyed user k l = Inr l'"
  shows "moves lax k l l'"
proof -
  from inv obtain cn ch where v: "conn_view k cn ch l" by (rule conn_invE)
  have "\<exists>m. moves lax k l m \<and> Channel_remove (conn_channel cn) m = Inr l'"
  proof (cases "conn_state cn = kConnected")
    case False
    with r conn_viewD(7) [OF v] advances_refl [OF inv] show ?thesis by (auto simp: connectDestroyed_def)
  next
    case True
    from close_channel [OF v] obtain l1 l2 where
      l2: "setState k kDisconnected l = Inr l1" "disableAll (conn_channel cn) l1 = Inr l2" "fine lax k l (Inr l2)" by blast
    with r True conn_viewD(7) [OF v] obtain m where m: "call_user user (connectionCallback cn) (UpConnection k) l2 = Inr m"
      "Channel_remove (conn_channel cn) m = Inr l'" by (auto simp: connectDestroyed_def bindR_eq_Inr)
    from l2(3) have adv: "moves lax k l l2" by simp
    from call_user_good [OF advances_inv [OF adv], of "UpConnection k" "connectionCallback cn"] m(1)
    have "moves lax k l2 m" by simp
    with adv m(2) show ?thesis by (blast intro: advances_trans)
  qed
  then obtain m where m: "moves lax k l m" "Channel_remove (conn_channel cn) m = Inr l'" by blast
  from advances_inv [OF m(1)] \<open>lax\<close> obtain cm dh where vm: "conn_view k cm dh m" "phase_of True cm dh"
    by (auto elim!: conn_invE)
  from remove_keeps [OF vm m(2)] obtain eh where e: "conn_view k cm eh l'" "phase_of True cm eh" by blast
  have "moves lax k m l'"
    using conn_viewD(1) [OF vm(1)] conn_viewD(1) [OF e(1)] conn_invI [OF e] \<open>lax\<close> by (simp add: moves_def state_of_def)
  with m(1) show ?thesis by (rule advances_trans)
qed

text \<open>Whatever functor of the connection runs, in whatever order.\<close>

lemma exec_functor_moves:
  assumes inv: "conn_ok lax k l" and f: "functor_of k lax l f" and r: "exec_conn_functor user answer f l = Inr l'"
  shows "moves lax k l l'"
proof -
  from inv obtain cn ch where v: "conn_view k cn ch l" by (rule conn_invE)
  note V = conn_viewD [OF v]
  have "fine lax k l (exec_conn_functor user answer f l)"
  proof (cases f)
    case (SendInLoop k' m)
    with f sendInLoop_good [OF inv, of "length m" "m @ [0]"] show ?thesis by (simp add: sendInLoop_string_def)
  next
    case (ConnectEstablished k')
    with f r connectEstablished_moves [OF inv] show ?thesis by simp
  next
    case (ConnectDestroyed k')
    with f r connectDestroyed_moves [OF inv] show ?thesis by simp
  next
    case (SetCloseCallback k' u)
    with f V put_member_good [OF inv V(1), of "cn\<lparr>conn_closeCallback := Some u\<rparr>"] show ?thesis
      by (simp add: conn_setCloseCallback_def)
  next
    case (WriteComplete u k')
    with f user_good [of "UpWriteComplete k" l u] inv show ?thesis by simp
  next
    case (HighWaterMark u k' n)
    with f user_good [of "UpHighWaterMark k n" l u] inv show ?thesis by simp
  qed (use f inv in \<open>simp_all add: shutdownInLoop_good forceCloseInLoop_good startReadInLoop_good stopReadInLoop_good\<close>)
  with r show ?thesis by simp
qed

end

subsection \<open>Calls on a connection, from any thread\<close>

lemma runInLoop_good:
  assumes "conn_ok lax k l" and "isInLoopThread self l \<Longrightarrow> fine lax k l (exec f l)"
  shows "fine lax k l (runInLoop exec self f l)"
  using assms good_quene [OF assms(1)] by (simp add: runInLoop_def)

lemma setState_disconnecting:
  assumes inv: "conn_ok lax k l" and opn: "open_state (state_of k l)"
  shows "fine lax k l (setState k kDisconnecting l)"
proof -
  from inv obtain cn ch where v: "conn_view k cn ch l" and p: "phase_of lax cn ch"
    and st: "state_of k l = conn_state cn" by (rule conn_invE)
  note V = conn_viewD [OF v]
  let ?cn = "cn\<lparr>conn_state := kDisconnecting\<rparr>"
  have v1: "conn_view k ?cn ch (put_conn k ?cn l)" by (rule view_put [OF v]) (use V in simp_all)
  have "phase_of lax ?cn ch" using p opn st by (auto simp: phase_of_def open_state_def)
  from goodI [OF v v1 this] opn st V(7) show ?thesis
    by (auto simp: setState_def open_state_def)
qed

lemma send_string_good:
  assumes inv: "conn_ok lax k l" and "length m \<le> max_size"
  shows "fine lax k l (send_string user answer self k m l)"
  using inv sendInLoop_good [OF inv, of "length m" "m @ [0]"] assms(2) advances_refl [OF inv] good_quene [OF inv]
  by (auto simp: send_string_def sendInLoop_string_def runInLoop_def elim!: conn_invE dest!: conn_viewD(7))

lemma send_ptr_good:
  assumes inv: "conn_ok lax k l" and len: "0 \<le> len" "nat len \<le> length m" "len < 2 ^ 31"
  shows "fine lax k l (send_ptr answer self k m len l)"
proof -
  have "nat (len mod int size_mod) = nat len" "nat len \<le> max_size"
    using len(1,3) by (simp_all add: size_mod_def max_size_def)
  with sendInLoop_good [OF inv len(2)] show ?thesis by (simp add: send_ptr_def)
qed

lemma send_buffer_good:
  assumes inv: "conn_ok lax k l" and b: "buf_inv b"
  shows "fine lax k l (bindR (send_buffer user answer self k b l) (\<lambda>(b', l1). Inr l1))"
proof -
  from inv obtain cn ch where "conn_view k cn ch l" by (rule conn_invE)
  note cn = conn_viewD(7) [OF this]
  have len: "readableBytes b \<le> length (drop (peek b) (buf_data b))" "readableBytes b \<le> max_size"
    using b readableBytes_inv [OF b] by (auto simp: buf_inv_def peek_def)
  from sendInLoop_good [OF inv len] have
    "fine lax k l (sendInLoop answer self k (drop (peek b) (buf_data b)) (readableBytes b) l)" .
  moreover have "\<exists>bs b'. retrieveAllAsString b = Inr (bs, b')"
    using retrieveAsString_ok [OF b, of "readableBytes b"] readableBytes_content [OF b] by (auto simp: retrieveAllAsString_def)
  ultimately show ?thesis
    using cn advances_refl [OF inv] good_quene [OF inv]
    by (auto simp: send_buffer_def runInLoop_def bindR_def fine_def split: sum.splits)
qed

lemma conn_shutdown_good:
  assumes inv: "conn_ok lax k l"
  shows "fine lax k l (conn_shutdown user answer self k l)"
proof -
  from inv obtain cn ch where v: "conn_view k cn ch l" and st: "state_of k l = conn_state cn" by (rule conn_invE)
  show ?thesis
  proof (cases "conn_state cn = kConnected")
    case False
    with conn_viewD(7) [OF v] advances_refl [OF inv] show ?thesis by (simp add: conn_shutdown_def)
  next
    case True
    then have "fine lax k l (setState k kDisconnecting l)"
      using setState_disconnecting [OF inv] st by (simp add: open_state_def)
    then have "fine lax k l (bindR (setState k kDisconnecting l)
      (runInLoop (exec_conn_functor user answer) self (ShutdownInLoop k)))"
      by (rule good_bind) (auto simp: advances_inv intro!: runInLoop_good shutdownInLoop_good)
    with True conn_viewD(7) [OF v] show ?thesis by (simp add: conn_shutdown_def)
  qed
qed

lemma forceClose_good:
  assumes inv: "conn_ok lax k l"
  shows "fine lax k l (forceClose self k l)"
proof -
  from inv obtain cn ch where v: "conn_view k cn ch l" and st: "state_of k l = conn_state cn" by (rule conn_invE)
  show ?thesis
  proof (cases "open_state (conn_state cn)")
    case False
    with conn_viewD(7) [OF v] advances_refl [OF inv] show ?thesis by (simp add: forceClose_def open_state_def)
  next
    case True
    then have "fine lax k l (setState k kDisconnecting l)" using setState_disconnecting [OF inv] st by simp
    then have "fine lax k l (bindR (setState k kDisconnecting l)
      (\<lambda>l1. Inr (queneInLoop self (ForceCloseInLoop k) l1)))"
      by (rule good_bind) (rule good_quene, rule advances_inv)
    with True conn_viewD(7) [OF v] show ?thesis by (simp add: forceClose_def open_state_def)
  qed
qed

lemma startRead_good:
  "conn_ok lax k l \<Longrightarrow> lax \<or> state_of k l \<noteq> kDisconnected \<Longrightarrow> fine lax k l (startRead user answer self k l)"
  by (auto simp: startRead_def intro!: runInLoop_good startReadInLoop_good)

lemma stopRead_good: "conn_ok lax k l \<Longrightarrow> fine lax k l (stopRead user answer self k l)"
  by (auto simp: stopRead_def intro!: runInLoop_good stopReadInLoop_good)

lemma put_with_good:
  assumes inv: "conn_ok lax k l"
    and same: "\<And>cn. buf_inv (inputBuffer cn) \<Longrightarrow> conn_state (f cn) = conn_state cn \<and> conn_channel (f cn) = conn_channel cn
      \<and> conn_fd (f cn) = conn_fd cn \<and> outputBuffer (f cn) = outputBuffer cn \<and> buf_inv (inputBuffer (f cn))"
  shows "fine lax k l (bindR (get_conn k l) (\<lambda>cn. Inr (put_conn k (f cn) l)))"
proof -
  from inv obtain cn ch where "conn_view k cn ch l" by (rule conn_invE)
  note V = conn_viewD [OF this]
  from put_member_good [OF inv V(1), of "f cn"] same [OF V(5)] V(7) show ?thesis by simp
qed

lemma consume_good: "conn_ok lax k l \<Longrightarrow> fine lax k l (defaultMessageCallback k l)"
  unfolding defaultMessageCallback_def by (rule put_with_good) simp_all

text \<open>
  Callbacks made of calls on their connection, from the loop thread: sending (with what the kernel
  answers to the direct write), shutting down, force-closing, ceasing to read, consuming the input.
\<close>

datatype conn_call = CallSend "byte list" write_result | CallShutdown | CallForceClose | CallStopRead | CallConsume

text \<open>In the loop thread none of these calls runs user code.\<close>

definition quiet_user :: "'u user" where
  "quiet_user u up l = Inr l"

fun exec_conn_call :: "addr \<Rightarrow> conn_call \<Rightarrow> 'u conn_loop \<Rightarrow> 'u conn_loop res" where
  "exec_conn_call k (CallSend m answer) l =
     (if length m \<le> max_size then send_string quiet_user answer (threadId l) k m l else Inr l)"
| "exec_conn_call k CallShutdown l = conn_shutdown quiet_user (WriteOk 0) (threadId l) k l"
| "exec_conn_call k CallForceClose l = forceClose (threadId l) k l"
| "exec_conn_call k CallStopRead l = stopRead quiet_user (WriteOk 0) (threadId l) k l"
| "exec_conn_call k CallConsume l = defaultMessageCallback k l"

definition script_user :: "conn_call list user" where
  "script_user calls up l = foldR (exec_conn_call (up_conn up)) calls l"

lemma exec_conn_call_good: "conn_ok lax k l \<Longrightarrow> fine lax k l (exec_conn_call k c l)"
  by (cases c) (simp_all add: send_string_good conn_shutdown_good forceClose_good stopRead_good consume_good advances_refl)

lemma script_good:
  assumes "conn_ok lax k l"
  shows "fine lax k l (foldR (exec_conn_call k) calls l)"
  using assms
proof (induction calls arbitrary: l)
  case Nil
  then show ?case by (simp add: advances_refl)
next
  case (Cons c calls)
  show ?case
    unfolding foldR.simps
    by (rule good_bind [OF exec_conn_call_good [OF Cons.prems]]) (rule Cons.IH, rule advances_inv)
qed

interpretation scripted: conn_user False script_user
  by unfold_locales (simp add: script_user_def script_good)

section \<open>The connection as a state machine\<close>

text \<open>
  Everything the interface of a connection offers to its users: the three ways of sending (with what the
  kernel answers to a direct write; the pointer form has a length that its memory has), shutting down,
  force-closing, starting and ceasing to read, consuming the input, the options and the callbacks. User code
  is a list of such requests; callbacks can also be replaced. Without \<open>lax\<close>, nobody restarts
  reading on a connection that is closed.
\<close>

datatype request =
    ReqSend "byte list" write_result
  | ReqSendPtr "byte list" int write_result
  | ReqSendBuffer buffer write_result
  | ReqShutdown
  | ReqForceClose
  | ReqStartRead
  | ReqStopRead
  | ReqConsume
  | ReqTcpNoDelay bool
  | ReqOnConnection "request list option"
  | ReqOnMessage "request list option"
  | ReqOnWriteComplete "request list option"
  | ReqOnHighWaterMark "request list option" nat
  | ReqOnClose "request list option"

text \<open>A request made by the thread \<open>self\<close>. In the loop thread, none of these runs user code.\<close>

fun exec_request :: "bool \<Rightarrow> tid \<Rightarrow> addr \<Rightarrow> request \<Rightarrow> request list conn_loop \<Rightarrow> request list conn_loop res" where
  "exec_request lax self k (ReqSend m answer) l =
     (if length m \<le> max_size then send_string quiet_user answer self k m l else Inr l)"
| "exec_request lax self k (ReqSendPtr m len answer) l =
     (if 0 \<le> len \<and> nat len \<le> length m \<and> len < 2 ^ 31 then send_ptr answer self k m len l else Inr l)"
| "exec_request lax self k (ReqSendBuffer b answer) l =
     (if buf_inv b then bindR (send_buffer quiet_user answer self k b l) (\<lambda>(b', l1). Inr l1) else Inr l)"
| "exec_request lax self k ReqShutdown l = conn_shutdown quiet_user (WriteOk 0) self k l"
| "exec_request lax self k ReqForceClose l = forceClose self k l"
| "exec_request lax self k ReqStartRead l =
     (if lax \<or> state_of k l \<noteq> kDisconnected then startRead quiet_user (WriteOk 0) self k l else Inr l)"
| "exec_request lax self k ReqStopRead l = stopRead quiet_user (WriteOk 0) self k l"
| "exec_request lax self k ReqConsume l = defaultMessageCallback k l"
| "exec_request lax self k (ReqTcpNoDelay on) l = conn_setTcpNoDelay k on l"
| "exec_request lax self k (ReqOnConnection cb) l = setConnectionCallback k cb l"
| "exec_request lax self k (ReqOnMessage cb) l = setMessageCallback k cb l"
| "exec_request lax self k (ReqOnWriteComplete cb) l = setWriteCompleteCallback k cb l"
| "exec_request lax self k (ReqOnHighWaterMark cb mark) l = setHighWaterMarkCallback k cb mark l"
| "exec_request lax self k (ReqOnClose cb) l = conn_setCloseCallback k cb l"

definition request_user :: "bool \<Rightarrow> request list user" where
  "request_user lax reqs up l = foldR (exec_request lax (threadId l) (up_conn up)) reqs l"

lemmas setter_defs = setConnectionCallback_def setMessageCallback_def setWriteCompleteCallback_def
  setHighWaterMarkCallback_def conn_setCloseCallback_def

lemma exec_request_good:
  assumes inv: "conn_ok lax k l"
  shows "fine lax k l (exec_request lax self k c l)"
proof (cases c)
  case (ReqTcpNoDelay on)
  from inv obtain cn ch where "conn_view k cn ch l" by (rule conn_invE)
  note cn = conn_viewD(7) [OF this]
  from good_frame [OF inv, of "Socket_setTcpNoDelay (conn_fd cn) on l"] ReqTcpNoDelay cn show ?thesis
    by (simp add: conn_setTcpNoDelay_def Socket_setTcpNoDelay_def)
next
  case ReqStartRead
  with startRead_good [OF inv] advances_refl [OF inv] show ?thesis
    by (cases "lax \<or> state_of k l \<noteq> kDisconnected") auto
qed (simp_all add: inv send_string_good send_ptr_good send_buffer_good conn_shutdown_good forceClose_good
  stopRead_good consume_good advances_refl put_with_good setter_defs)

lemma requests_good: "conn_ok lax k l \<Longrightarrow> fine lax k l (foldR (exec_request lax self k) reqs l)"
proof (induction reqs arbitrary: l)
  case Nil
  then show ?case by (simp add: advances_refl)
next
  case (Cons c reqs)
  show ?case
    unfolding foldR.simps
    by (rule good_bind [OF exec_request_good [OF Cons.prems]]) (rule Cons.IH, rule advances_inv)
qed

interpretation requested: conn_user lax "request_user lax" for lax
  by unfold_locales (simp add: request_user_def requests_good)

text \<open>
  What can happen to a connection from its construction on: every event of its channel, every functor queued
  for it (whatever the order), every request from any thread, and what other code of the loop does to the
  rest of the state. The input buffer has room for one more read, and the kernel takes no more than it is
  given. A step that breaks an assertion ends the program and has no result. Each request is one step: that
  \<open>shutdown\<close> and \<open>forceClose\<close> test and set the state without a lock is not modelled.
\<close>

inductive conn_step :: "bool \<Rightarrow> addr \<Rightarrow> request list conn_loop \<Rightarrow> request list conn_loop \<Rightarrow> bool" for lax k where
  readable: "readv_fits readv \<Longrightarrow>
    length (buf_data (inputBuffer (the (conns l k)))) + extrabuf_size \<le> max_size \<Longrightarrow>
    conn_handleRead (request_user lax) readv k t l = Inr l' \<Longrightarrow> conn_step lax k l l'"
| writable: "written answer \<le> length (content (outputBuffer (the (conns l k)))) \<Longrightarrow>
    conn_handleWrite answer (threadId l) k l = Inr l' \<Longrightarrow> conn_step lax k l l'"
| hangup: "conn_handleClose (request_user lax) k l = Inr l' \<Longrightarrow> conn_step lax k l l'"
| failing: "conn_handleError k l = Inr l' \<Longrightarrow> conn_step lax k l l'"
| request: "exec_request lax self k c l = Inr l' \<Longrightarrow> conn_step lax k l l'"
| deferred: "functor_of k lax l f \<Longrightarrow> exec_conn_functor (request_user lax) answer f l = Inr l' \<Longrightarrow> conn_step lax k l l'"
| elsewhere: "reactor_inv l' \<Longrightarrow> conns l' k = conns l k \<Longrightarrow>
    chanHeap l' (conn_channel (the (conns l k))) = chanHeap l (conn_channel (the (conns l k))) \<Longrightarrow>
    pollChannels l' (conn_fd (the (conns l k))) = pollChannels l (conn_fd (the (conns l k))) \<Longrightarrow> conn_step lax k l l'"

lemma conn_step_moves:
  assumes "conn_step lax k l l'" and inv: "conn_ok lax k l"
  shows "moves lax k l l'"
  using assms(1)
proof cases
  case (readable readv t)
  then have "length (buf_data (inputBuffer cn)) + extrabuf_size \<le> max_size" if "conns l k = Some cn" for cn
    using that by simp
  with requested.handleRead_eof [OF inv readable(1), of t] readable(3) show ?thesis by simp
next
  case (writable answer)
  then have "written answer \<le> length (content (outputBuffer cn))" if "conns l k = Some cn" for cn
    using that by simp
  with handleWrite_good [OF inv, of answer "threadId l"] writable(2) show ?thesis by simp
next
  case hangup
  with requested.handleClose_moves [OF inv] show ?thesis by simp
next
  case failing
  with advances_refl [OF inv] show ?thesis by (auto simp: conn_handleError_def bindR_eq_Inr)
next
  case (request self c)
  with exec_request_good [OF inv, of self c] show ?thesis by simp
next
  case (deferred f answer)
  with requested.exec_functor_moves [OF inv] show ?thesis by blast
next
  case elsewhere
  from inv obtain cn ch where v: "conn_view k cn ch l" and p: "phase_of lax cn ch" by (rule conn_invE)
  with elsewhere have "conn_view k cn ch l'" by (simp add: conn_view_def)
  from goodI [OF v this p] show ?thesis by simp
qed

interpretation conn_machine: transition_system "\<lambda>l. conn_ok lax k l0 \<and> l = l0" "conn_step lax k" "moves lax k l0"
  for lax k l0
  by unfold_locales (auto intro: advances_refl advances_trans conn_step_moves advances_inv)

section \<open>Birth and death\<close>

lemma kInitialSize_ok: "\<exists>b. mkBuffer kInitialSize = Inr b \<and> buf_inv b \<and> content b = []"
  using mkBuffer_ok [of kInitialSize] by (auto simp: kInitialSize_def kCheapPrepend_def max_size_def)

lemma ctor_inv:
  assumes inv: "reactor_inv l" and c: "chanHeap l c = None" and fd: "pollChannels l fd = None"
  shows "\<exists>l'. TcpConnection_ctor k c name fd la pa l = Inr l' \<and> conn_ok lax k l' \<and> state_of k l' = kConnecting
    \<and> stream k l' = kernel_out l fd"
proof -
  from kInitialSize_ok obtain b where b: "mkBuffer kInitialSize = Inr b" "buf_inv b" "content b = []" by blast
  let ?f = "\<lambda>ch. ch\<lparr>readCallback := Some (ConnHandleRead k), writeCallback := Some (ConnHandleWrite k),
    closeCallback := Some (ConnHandleClose k), errorCallback := Some (ConnHandleError k)\<rparr>"
  let ?ch = "?f (mkChannel (loopId l) fd)" and ?cn = "new_conn name fd la pa c b b :: 'a tcp_conn"
  let ?l4 = "l\<lparr>chanHeap := (chanHeap l)(c \<mapsto> ?ch)\<rparr>"
  let ?l' = "Socket_setKeepAlive fd True (put_conn k ?cn ?l4)"
  have r4: "reactor_inv ?l4"
    by (rule set_chan_keeps_inv [OF newChannel_reactor [OF inv c, of fd], of c ?f]) (simp_all add: newChannel_def)
  have "conn_view k ?cn ?ch ?l'"
    using reactor_inv_cong [of ?l' ?l4] r4 b(2) fd
    by (simp add: conn_view_def Socket_setKeepAlive_def new_conn_def mkChannel_def put_conn_def)
  moreover have "phase_of lax ?cn ?ch"
    using b(3) by (simp add: phase_of_def new_conn_def open_state_def isWriting_def mkChannel_def has_bits_def)
  moreover have "TcpConnection_ctor k c name fd la pa l = Inr ?l'"
    by (simp add: TcpConnection_ctor_def b(1) setReadCallback_def setWriteCallback_def setCloseCallback_def
        setErrorCallback_def newChannel_def)
  ultimately show ?thesis
    using b(3) by (auto simp: state_of_def stream_def new_conn_def Socket_setKeepAlive_def put_conn_def Let_def
        intro: conn_invI)
qed

text \<open>The statistics are always printed in full: the buffer of 1024 characters is large enough.\<close>

lemma tcp_info_length:
  "length (concat (map2 (\<lambda>nm v. nm @ ''='' @ show_nat (unat (v :: 32 word)) @ '' '') nms vs)) \<le> (\<Sum>nm\<leftarrow>nms. length nm + 12)"
proof (induction nms arbitrary: vs)
  case (Cons nm nms)
  have "length (show_nat (unat (v :: 32 word))) \<le> 10" for v using unat_bound [of v] by (intro length_show_nat) simp_all
  with Cons show ?case by (cases vs) (simp_all add: add_mono add.assoc)
qed simp

lemma tcp_info_complete:
  "conn_getTcpInfoString (Some tcpi) = tcp_info_text tcpi" "conn_getTcpInfoString None = []"
proof -
  have "length (tcp_info_text tcpi) \<le> (\<Sum>nm\<leftarrow>tcp_info_fields. length nm + 12)"
    unfolding tcp_info_text_def length_butlast by (rule le_trans [OF diff_le_self tcp_info_length])
  then have "length (tcp_info_text tcpi) < 1024" by (simp add: tcp_info_fields_def)
  then show "conn_getTcpInfoString (Some tcpi) = tcp_info_text tcpi" "conn_getTcpInfoString None = []"
    by (simp_all add: conn_getTcpInfoString_def Socket_getTcpInfoString_def Socket_getTcpInfo_def)
qed

text \<open>Taking a closed connection out of the loop.\<close>

lemma destroy_closed:
  assumes v: "conn_view k cn ch l" and st: "conn_state cn = kDisconnected" and none: "isNoneEvent ch"
    and reg: "index ch \<noteq> KNew" and idle: "\<not> eventHandling l"
  shows "connectDestroyed user k l = Inr (after_remove (conn_channel cn) ch l)"
  using conn_viewD [OF v] st Channel_remove_ok [OF conn_viewD(3,2) [OF v] reg none] idle
  by (simp add: connectDestroyed_def)

lemma dtor_after_remove:
  assumes v: "conn_view k cn ch l" and st: "conn_state cn = kDisconnected" and idle: "\<not> ch_eventHandling ch"
  shows "\<exists>l'. TcpConnection_dtor k (after_remove (conn_channel cn) ch l) = Inr l' \<and> conns l' k = None
    \<and> chanHeap l' (conn_channel cn) = None"
  using conn_viewD [OF v] st idle
  by (simp add: TcpConnection_dtor_def after_remove_def Channel_dtor_def get_conn_def)

lemma dtor_in_poller:
  assumes "conn_ok lax k l" and "in_poller k l"
  shows "TcpConnection_dtor k l = Inl AssertFailed"
proof -
  from assms(1) obtain cn ch where v: "conn_view k cn ch l" by (rule conn_invE)
  note V = conn_viewD [OF v]
  have "index ch \<noteq> KNew" using assms(2) V(1,2) by (simp add: in_poller_def)
  then have "addedToLoop ch" using reactor_invD(1) [OF V(3,2)] by (simp add: chan_ok_def)
  then show ?thesis using V(7,8) by (simp add: TcpConnection_dtor_def Channel_dtor_def cassert_def)
qed

lemma destroy_twice:
  assumes v: "conn_view k cn ch l" and st: "conn_state cn = kDisconnected" and none: "isNoneEvent ch"
  shows "connectDestroyed user k (after_remove (conn_channel cn) ch l) = Inl AssertFailed"
  using conn_viewD [OF v] st none
  by (simp add: connectDestroyed_def after_remove_def get_conn_def Channel_remove_def EventLoop_removeChannel_def
      Epoller_removeChannel_def isNoneEvent_def cassert_def Let_def)

lemma destroy_busy:
  assumes v: "conn_view k cn ch l" and st: "conn_state cn \<noteq> kConnected" and busy: "\<not> isNoneEvent ch"
  shows "connectDestroyed user k l = Inl AssertFailed"
  using conn_viewD [OF v] st busy by (simp add: connectDestroyed_def Channel_remove_def)

lemma startRead_closed:
  assumes v: "conn_view k cn ch l" and "isNoneEvent ch"
  shows "\<exists>m cn' ch'. startReadInLoop k l = Inr m \<and> conn_view k cn' ch' m \<and> conn_state cn' = conn_state cn
    \<and> \<not> isNoneEvent ch'"
proof -
  note V = conn_viewD [OF v]
  from view_modify [OF v, of "\<lambda>e. e OR kReadEvent"] obtain l1 ch1 where
    l1: "enableReading (conn_channel cn) l = Inr l1" "conn_view k cn ch1 l1" "events ch1 = events ch OR kReadEvent"
    by (auto simp: event_ops)
  let ?cn = "cn\<lparr>conn_reading := True\<rparr>"
  have v2: "conn_view k ?cn ch1 (put_conn k ?cn l1)" by (rule view_put [OF l1(2)]) (use V in simp_all)
  have "\<not> isReading ch" using assms(2) by (simp add: isNoneEvent_def isReading_def)
  then have "startReadInLoop k l = Inr (put_conn k ?cn l1)" using V l1(1) by (simp add: startReadInLoop_def)
  moreover have "\<not> isNoneEvent ch1"
    using l1(3) assms(2) by (simp add: isNoneEvent_def kNoneEvent_def kReadEvent_def POLLIN_def POLLPRI_def)
  ultimately show ?thesis using v2 by - (rule exI [of _ "put_conn k ?cn l1"], rule exI [of _ ?cn], auto)
qed

section \<open>Properties\<close>

definition sample_net :: "conn_call list conn_loop" where
  "sample_net = event_loop.extend (loop_members 0 0)
     \<lparr>conns = Map.empty, kernel_out = (\<lambda>_. []), shutdown_calls = [], sockopts = []\<rparr>"

lemma sample_net_fields [simp]:
  "chanHeap sample_net = Map.empty" "pollChannels sample_net = Map.empty" "conns sample_net = Map.empty"
  "loopId sample_net = 0" "kernel_out sample_net x = []" "eventHandling sample_net = False" "reactor_inv sample_net"
  by (simp_all add: sample_net_def event_loop.defs loop_members_def reactor_inv_def)

definition sample_ends :: inet_address where
  "sample_ends = InetAddress_of6 (zero_saddr\<lparr>sa_family := AF_INET6\<rparr>)"

text \<open>An open connection at address 3 with channel 7 on descriptor 5.\<close>

definition sample_conn :: "StateE \<Rightarrow> conn_call list tcp_conn" where
  "sample_conn st = (new_conn ''c'' 5 sample_ends sample_ends 7 (mk_buf (replicate 100 0) 8 8) (mk_buf (replicate 100 0) 8 8))
     \<lparr>conn_state := st, connectionCallback := Some [], messageCallback := Some [CallConsume],
      conn_closeCallback := Some []\<rparr>"

definition sample_open :: "conn_call list conn_loop" where
  "sample_open = sample_net\<lparr>chanHeap := [7 \<mapsto> reading_channel 0 5 (ConnHandleRead 3)],
     pollChannels := [5 \<mapsto> 7], conns := [3 \<mapsto> sample_conn kConnected]\<rparr>"

lemma sample_open_view:
  "conn_view 3 (sample_conn kConnected) (reading_channel 0 5 (ConnHandleRead 3)) sample_open"
  by (simp add: conn_view_def sample_open_def sample_conn_def new_conn_def reactor_inv_def chan_ok_def
      reading_channel_def mkChannel_def buf_inv_def kCheapPrepend_def max_size_def KNew_def KAdded_def)

lemma sample_open_inv: "conn_inv 3 sample_open"
  by (rule conn_invI [OF sample_open_view])
    (simp add: conn_phase_def sample_conn_def new_conn_def content_def)

lemma sample_open_state: "open_state (state_of 3 sample_open)"
  by (simp add: sample_open_def sample_conn_def state_of_def open_state_def)

text \<open>
  C22. The state machine of a connection. Whatever events, queued functors (the queued messages,
  \<open>startReadInLoop\<close>, \<open>connectEstablished\<close> and \<open>connectDestroyed\<close> among them) and requests of any thread
  a connection goes through after its construction, with callbacks that make requests in turn: its
  buffers and the registry stay well formed, its channel waits for writability exactly when the connection is
  not closed and has output left, and its state only moves from connecting through connected and
  disconnecting to disconnected. As long as it is not destroyed and reading is not restarted on it once
  it is closed, an open connection is in the poller and a closed one waits for nothing.
\<close>

theorem connection_reachable:
  assumes "reactor_inv l0" and "chanHeap l0 c = None" and "pollChannels l0 fd = None"
    and "TcpConnection_ctor k c name fd la pa l0 = Inr l1" and "(conn_step lax k)\<^sup>*\<^sup>* l1 l"
  shows "(\<exists>cn ch. conns l k = Some cn \<and> chanHeap l (conn_channel cn) = Some ch \<and> reactor_inv l
      \<and> buf_inv (inputBuffer cn) \<and> buf_inv (outputBuffer cn)
      \<and> (conn_state cn \<noteq> kDisconnected \<longrightarrow> (isWriting ch \<longleftrightarrow> content (outputBuffer cn) \<noteq> []))
      \<and> (conn_state cn = kDisconnected \<longrightarrow> \<not> isWriting ch)
      \<and> (\<not> lax \<longrightarrow> conn_state cn \<in> {kConnected, kDisconnecting} \<longrightarrow> index ch \<noteq> KNew)
      \<and> (\<not> lax \<longrightarrow> conn_state cn = kDisconnected \<longrightarrow> isNoneEvent ch))
    \<and> (\<forall>l'. conn_step lax k l l' \<longrightarrow> rank (state_of k l) \<le> rank (state_of k l'))"
proof -
  from ctor_inv [OF assms(1-3), of k name la pa lax] assms(4) have "conn_ok lax k l1" by auto
  with conn_machine.reachable_inv [of lax k l1 l1 l] assms(5) have inv: "conn_ok lax k l"
    by (auto dest: advances_inv)
  have "rank (state_of k l) \<le> rank (state_of k l')" if "conn_step lax k l l'" for l'
    using conn_step_moves [OF that inv] by (simp add: moves_def)
  moreover from inv obtain cn ch where "conn_view k cn ch l" "phase_of lax cn ch" by (rule conn_invE)
  ultimately show ?thesis by (auto simp: conn_view_def phase_of_def open_state_def)
qed

definition sample_peer :: "request list conn_loop" where
  "sample_peer = event_loop.extend (loop_members 0 0)
     \<lparr>conns = Map.empty, kernel_out = (\<lambda>_. []), shutdown_calls = [], sockopts = []\<rparr>"

text \<open>A connection is given a callback that shuts it down, and is established.\<close>

theorem connection_reachable_witness:
  "\<exists>l1 l l'. TcpConnection_ctor 3 7 ''c'' 5 sample_ends sample_ends sample_peer = Inr l1 \<and> conn_step True 3 l1 l
    \<and> connectEstablished (request_user True) 3 l = Inr l' \<and> conn_step True 3 l l'
    \<and> (\<exists>cn ch. conns l 3 = Some cn \<and> chanHeap l (conn_channel cn) = Some ch \<and> reactor_inv l
      \<and> (conn_state cn \<noteq> kDisconnected \<longrightarrow> (isWriting ch \<longleftrightarrow> content (outputBuffer cn) \<noteq> [])))
    \<and> rank (state_of 3 l) \<le> rank (state_of 3 l')"
proof -
  have free: "reactor_inv sample_peer" "chanHeap sample_peer 7 = None" "pollChannels sample_peer 5 = None"
    by (simp_all add: sample_peer_def event_loop.defs loop_members_def reactor_inv_def)
  from ctor_inv [OF free, of 3 "''c''" sample_ends sample_ends True] obtain l1 where
    l1: "TcpConnection_ctor 3 7 ''c'' 5 sample_ends sample_ends sample_peer = Inr l1" "conn_ok True 3 l1"
      "state_of 3 l1 = kConnecting" by auto
  from l1(2) obtain cn ch where v: "conn_view 3 cn ch l1" by (rule conn_invE)
  let ?l = "put_conn 3 (cn\<lparr>connectionCallback := Some []\<rparr>) l1"
  have req: "exec_request True 0 3 (ReqOnConnection (Some [])) l1 = Inr ?l"
    using conn_viewD(7) [OF v] by (simp add: setConnectionCallback_def)
  then have step1: "conn_step True 3 l1 ?l" by (rule conn_step.request)
  from exec_request_good [OF l1(2), of 0 "ReqOnConnection (Some [])"] req have inv: "conn_ok True 3 ?l"
    by (simp add: moves_def)
  have "state_of 3 ?l = kConnecting" using l1(3) conn_viewD(1) [OF v] by (simp add: state_of_def)
  from requested.connectEstablished_enters [OF inv this] obtain m where
    "connectEstablished (request_user True) 3 ?l = call_user (request_user True) (Some []) (UpConnection 3) m" by auto
  then have est: "connectEstablished (request_user True) 3 ?l = Inr m" by (simp add: call_user_def request_user_def)
  have step2: "conn_step True 3 ?l m"
    by (rule conn_step.deferred [where f = "ConnectEstablished 3" and answer = "WriteOk 0"]) (simp_all add: est)
  have path: "(conn_step True 3)\<^sup>*\<^sup>* l1 ?l" using step1 by (rule r_into_rtranclp)
  from connection_reachable [OF free l1(1) path] l1(1) step1 est step2 show ?thesis
    by (intro exI [of _ l1] exI [of _ ?l] exI [of _ m]) auto
qed

text \<open>
  C23. No assertion in the handlers of an open connection can fail and no dead object is touched,
  whatever the callbacks do with the connection: a handler returns, or fails because a buffer
  cannot grow, because of an out-of-bounds read in a send, or because a callback is not set.
\<close>

theorem handlers_never_assert:
  assumes "conn_inv k l" and "open_state (state_of k l)" and "readv_fits readv"
    and "length (buf_data (inputBuffer (the (conns l k)))) + extrabuf_size \<le> max_size"
    and "written answer \<le> length (content (outputBuffer (the (conns l k))))"
  shows "\<forall>r \<in> {conn_handleRead script_user readv k t l, conn_handleWrite answer self k l,
      conn_handleClose script_user k l, forceCloseInLoop script_user k l, shutdownInLoop k l}.
    case r of Inr l' \<Rightarrow> conn_inv k l' \<and> rank (state_of k l) \<le> rank (state_of k l')
      | Inl e \<Rightarrow> e = LengthError \<or> e = OutOfBounds \<or> e = BadFunctionCall"
proof -
  have good: "case r of Inr l' \<Rightarrow> conn_inv k l' \<and> rank (state_of k l) \<le> rank (state_of k l')
      | Inl e \<Rightarrow> e = LengthError \<or> e = OutOfBounds \<or> e = BadFunctionCall" if "good k l r" for r
    using that by (cases r) (auto simp: advances_def tolerated_def)
  have "good k l (conn_handleRead script_user readv k t l)"
    by (rule scripted.handleRead_good [OF assms(1-3)]) (use assms(4) in simp)
  moreover have "good k l (conn_handleWrite answer self k l)"
    by (rule handleWrite_good [OF assms(1)]) (use assms(5) in simp)
  ultimately show ?thesis using good scripted.handleClose_good [OF assms(1,2)] scripted.forceCloseInLoop_good [OF assms(1)]
    shutdownInLoop_good [OF assms(1)] by blast
qed

theorem handlers_never_assert_witness:
  "\<exists>l'. conn_handleRead script_user (\<lambda>_. IoBytes [1, 2, 3]) 3 9 sample_open = Inr l'
    \<and> conn_inv 3 l' \<and> rank (state_of 3 sample_open) \<le> rank (state_of 3 l')"
proof -
  have fits: "readv_fits (\<lambda>lens. if sum_list lens \<ge> 3 then IoBytes [1, 2, 3] else IoErr 11)"
    by (simp add: readv_fits_def)
  have room: "length (buf_data (inputBuffer (the (conns sample_open 3)))) + extrabuf_size \<le> max_size"
    by (simp add: sample_open_def sample_conn_def new_conn_def extrabuf_size_def max_size_def)
  have same: "conn_handleRead script_user (\<lambda>_. IoBytes [1, 2, 3]) 3 9 sample_open
    = conn_handleRead script_user (\<lambda>lens. if sum_list lens \<ge> 3 then IoBytes [1, 2, 3] else IoErr 11) 3 9 sample_open"
    by (simp add: conn_handleRead_def sample_open_def sample_conn_def new_conn_def readFd_def readFd_iov_def
        extrabuf_size_def writableBytes_def szsub_def size_mod_def Let_def)
  have run: "\<exists>l'. conn_handleRead script_user (\<lambda>_. IoBytes [1, 2, 3]) 3 9 sample_open = Inr l'"
    by (simp add: conn_handleRead_def sample_open_def sample_conn_def new_conn_def readFd_def
        writableBytes_def szsub_def size_mod_def Let_def buf_copy_def call_user_def script_user_def
        defaultMessageCallback_def get_conn_def)
  show ?thesis
    using handlers_never_assert [OF sample_open_inv sample_open_state fits room,
        of "WriteOk 0" 9 0] run by (auto simp: written_def same)
qed

text \<open>
  C24. A write event. When the channel waits for it and the kernel takes \<open>n > 0\<close> bytes, exactly the first
  \<open>n\<close> bytes of the output have moved to the socket and the rest stays, so nothing is lost, doubled
  or reordered. When that empties the buffer, and only then, waiting for writability ends, the write
  complete callback is queued, and a connection that is being shut down gets its shutdown call. In
  all other cases nothing changes.
\<close>

theorem handleWrite_stream:
  assumes "conn_inv k l" and "conns l k = Some cn" and "chanHeap l (conn_channel cn) = Some ch"
    and "written answer \<le> length (content (outputBuffer cn))"
  shows "if \<not> isWriting ch \<or> written answer = 0 then conn_handleWrite answer self k l = Inr l
    else let out = content (outputBuffer cn); n = written answer; emptied = (n = length out) in
      \<exists>l' b ch'. conn_handleWrite answer self k l = Inr l' \<and> stream k l' = stream k l
        \<and> conns l' = (conns l)(k \<mapsto> cn\<lparr>outputBuffer := b\<rparr>) \<and> content b = drop n out
        \<and> kernel_out l' = (kernel_out l)(conn_fd cn := kernel_out l (conn_fd cn) @ take n out)
        \<and> chanHeap l' (conn_channel cn) = Some ch'
        \<and> events ch' = (if emptied then events ch AND NOT kWriteEvent else events ch) \<and> (isWriting ch' \<longleftrightarrow> \<not> emptied)
        \<and> pendingFunctors l' = pendingFunctors l @ (if emptied
            then case writeCompleteCallback cn of None \<Rightarrow> [] | Some u \<Rightarrow> [WriteComplete u k] else [])
        \<and> shutdown_calls l' = shutdown_calls l
            @ (if emptied \<and> conn_state cn = kDisconnecting then [(conn_fd cn, SHUT_RD)] else [])"
proof (cases "\<not> isWriting ch \<or> written answer = 0")
  case True
  from assms(1-3) have "conn_view k cn ch l" by (auto simp: conn_view_def conn_inv_def)
  with True handleWrite_idle [OF this] handleWrite_nothing [OF this] show ?thesis by (cases "isWriting ch") auto
next
  case False
  from assms(1-3) have v: "conn_view k cn ch l" and p: "conn_phase cn ch" by (auto simp: conn_view_def conn_inv_def)
  from False have w: "isWriting ch" and n: "0 < written answer" by auto
  then have a: "answer = WriteOk (written answer)" by (cases answer) (auto simp: written_def)
  let ?out = "content (outputBuffer cn)" and ?n = "written answer"
  from handleWrite_took [OF v p w n assms(4), of self] obtain l' b ch' where
    l': "conn_handleWrite (WriteOk ?n) self k l = Inr l'" "conn_view k (cn\<lparr>outputBuffer := b\<rparr>) ch' l'"
    "content b = drop ?n ?out" "conns l' = (conns l)(k \<mapsto> cn\<lparr>outputBuffer := b\<rparr>)"
    "kernel_out l' = (kernel_out l)(conn_fd cn := kernel_out l (conn_fd cn) @ take ?n ?out)"
    "events ch' = (if ?n = length ?out then events ch AND NOT kWriteEvent else events ch)"
    "pendingFunctors l' = pendingFunctors l @ (if ?n = length ?out then wc_functors k cn else [])"
    "shutdown_calls l' = shutdown_calls l
        @ (if ?n = length ?out \<and> conn_state cn = kDisconnecting then [(conn_fd cn, SHUT_RD)] else [])" by blast
  have "stream k l' = stream k l" using l'(3-5) conn_viewD(1) [OF v] by (simp add: stream_def)
  moreover have "isWriting ch' \<longleftrightarrow> ?n \<noteq> length ?out" using l'(6) w by (simp add: isWriting_def has_bits_cleared)
  moreover have "chanHeap l' (conn_channel cn) = Some ch'" using conn_viewD(2) [OF l'(2)] by simp
  ultimately show ?thesis
    unfolding Let_def if_not_P [OF False] wc_functors_def [symmetric] using a l'
    by - (rule exI [of _ l'], rule exI [of _ b], rule exI [of _ ch'], simp only: simp_thms)
qed

text \<open>A connection that is being shut down, with three bytes of output; the kernel takes two, or all three.\<close>

definition sample_sending :: "conn_call list conn_loop" where
  "sample_sending = sample_open\<lparr>
     chanHeap := [7 \<mapsto> (reading_channel 0 5 (ConnHandleRead 3))\<lparr>events := kReadEvent OR kWriteEvent\<rparr>],
     conns := [3 \<mapsto> (sample_conn kDisconnecting)\<lparr>writeCompleteCallback := Some [CallConsume],
       outputBuffer := mk_buf (replicate 8 0 @ [65, 66, 67] @ replicate 89 0) 8 11\<rparr>]\<rparr>"

lemma sample_sending_inv:
  "conn_inv 3 sample_sending" "content (outputBuffer (the (conns sample_sending 3))) = [65, 66, 67]"
proof -
  let ?cn = "the (conns sample_sending 3)" and ?ch = "the (chanHeap sample_sending 7)"
  show c: "content (outputBuffer ?cn) = [65, 66, 67]" by (simp add: sample_sending_def content_def)
  have "conn_view 3 ?cn ?ch sample_sending"
    by (simp add: conn_view_def sample_sending_def sample_open_def sample_conn_def new_conn_def reactor_inv_def chan_ok_def
      reading_channel_def mkChannel_def buf_inv_def kCheapPrepend_def max_size_def KNew_def KAdded_def)
  moreover have "isWriting ?ch" by (simp add: sample_sending_def isWriting_def has_bits_or)
  then have "conn_phase ?cn ?ch" using c by (simp add: conn_phase_def sample_sending_def sample_conn_def new_conn_def
      reading_channel_def KNew_def KAdded_def)
  ultimately show "conn_inv 3 sample_sending" by (rule conn_invI)
qed

theorem handleWrite_stream_witness:
  "\<exists>l1 l2. conn_handleWrite (WriteOk 2) 0 3 sample_sending = Inr l1 \<and> kernel_out l1 5 = [65, 66]
    \<and> content (outputBuffer (the (conns l1 3))) = [67] \<and> pendingFunctors l1 = []
    \<and> conn_handleWrite (WriteOk 3) 0 3 sample_sending = Inr l2 \<and> kernel_out l2 5 = [65, 66, 67]
    \<and> content (outputBuffer (the (conns l2 3))) = [] \<and> pendingFunctors l2 = [WriteComplete [CallConsume] 3]
    \<and> shutdown_calls l2 = [(5, SHUT_RD)]"
proof -
  let ?cn = "the (conns sample_sending 3)" and ?ch = "the (chanHeap sample_sending 7)"
  have cn: "conns sample_sending 3 = Some ?cn" "chanHeap sample_sending (conn_channel ?cn) = Some ?ch" "isWriting ?ch"
    "conn_fd ?cn = 5" "writeCompleteCallback ?cn = Some [CallConsume]" "conn_state ?cn = kDisconnecting"
    "kernel_out sample_sending 5 = []" "pendingFunctors sample_sending = []" "shutdown_calls sample_sending = []"
    by (simp_all add: sample_sending_def sample_open_def sample_net_def event_loop.defs loop_members_def
        sample_conn_def new_conn_def isWriting_def has_bits_or)
  note s = handleWrite_stream [OF sample_sending_inv(1) cn(1,2), of _ 0]
  show ?thesis
    using s [of "WriteOk 2"] s [of "WriteOk 3"] sample_sending_inv(2) cn(3-9) by (auto simp: written_def Let_def)
qed

text \<open>
  C25. What \<open>sendInLoop\<close> really does with a message of \<open>len\<close> bytes. While output is pending, or on
  a closed connection, it does nothing: the message is dropped. A broken pipe drops it, too. Otherwise
  \<open>len\<close> bytes from behind the bytes the kernel took are queued, and the channel waits for
  writability: when the kernel took nothing, they are the message, but when it took some bytes at once,
  \<open>remaining\<close> is not reduced, and bytes that follow the message in memory are queued after its end,
  or the read leaves the memory. The write complete callback is queued when the kernel took 0 bytes, and
  the callback of the high water mark when the message alone reaches the mark.
\<close>

theorem sendInLoop_outcome:
  assumes "conn_inv k l" and "conns l k = Some cn" and "chanHeap l (conn_channel cn) = Some ch"
    and "len \<le> length mem" and "0 < len" and "writerIndex (outputBuffer cn) + len \<le> max_size"
  shows "if conn_state cn = kDisconnected \<or> isWriting ch \<or> fault answer then sendInLoop answer self k mem len l = Inr l
    else if length mem < written answer + len then sendInLoop answer self k mem len l = Inl OutOfBounds
    else \<exists>l' b ch'. sendInLoop answer self k mem len l = Inr l'
      \<and> stream k l' = stream k l @ take (written answer) mem @ take len (drop (written answer) mem)
      \<and> conns l' = (conns l)(k \<mapsto> cn\<lparr>outputBuffer := b\<rparr>) \<and> content b = take len (drop (written answer) mem)
      \<and> kernel_out l' = (kernel_out l)(conn_fd cn := kernel_out l (conn_fd cn) @ take (written answer) mem)
      \<and> chanHeap l' (conn_channel cn) = Some ch' \<and> isWriting ch' \<and> events ch' = events ch OR kWriteEvent
      \<and> pendingFunctors l' = pendingFunctors l
          @ (if answer = WriteOk 0 then case writeCompleteCallback cn of None \<Rightarrow> [] | Some u \<Rightarrow> [WriteComplete u k] else [])
          @ (if highWaterMark cn \<le> len \<and> 0 < highWaterMark cn
             then case highWaterMarkCallback cn of None \<Rightarrow> [] | Some u \<Rightarrow> [HighWaterMark u k len] else [])
      \<and> shutdown_calls l' = shutdown_calls l"
proof -
  from assms(1-3) have v: "conn_view k cn ch l" and p: "conn_phase cn ch"
    by (auto simp: conn_view_def conn_inv_def)
  note V = conn_viewD [OF v]
  consider (nothing) "conn_state cn = kDisconnected \<or> isWriting ch"
    | (fault) "conn_state cn \<noteq> kDisconnected" "\<not> isWriting ch" "fault answer"
    | (short) "conn_state cn \<noteq> kDisconnected" "\<not> isWriting ch" "\<not> fault answer" "length mem < written answer + len"
    | (queued) "conn_state cn \<noteq> kDisconnected" "\<not> isWriting ch" "\<not> fault answer" "written answer + len \<le> length mem"
    by linarith
  then show ?thesis
  proof cases
    case nothing
    with sendInLoop_busy [OF v nothing] show ?thesis by auto
  next
    case fault
    with sendInLoop_fault [OF v p fault(1,2) assms(4) fault(3)] show ?thesis by simp
  next
    case short
    with sendInLoop_short [OF v p short(1,2) assms(4) short(4,3) assms(5,6)] show ?thesis by simp
  next
    case queued
    have empty: "content (outputBuffer cn) = []" using p queued(1,2) by (simp add: conn_phase_def)
    from sendInLoop_queued [OF v p queued assms(5,6), of self] obtain l' b ch' where
      l': "sendInLoop answer self k mem len l = Inr l'" "conn_view k (cn\<lparr>outputBuffer := b\<rparr>) ch' l'"
      "conns l' = (conns l)(k \<mapsto> cn\<lparr>outputBuffer := b\<rparr>)" "content b = take len (drop (written answer) mem)"
      "isWriting ch'" "events ch' = events ch OR kWriteEvent"
      "kernel_out l' = (kernel_out l)(conn_fd cn := kernel_out l (conn_fd cn) @ take (written answer) mem)"
      "pendingFunctors l' = pendingFunctors l @ (if answer = WriteOk 0 then wc_functors k cn else [])
        @ (if highWaterMark cn \<le> len \<and> 0 < highWaterMark cn then hw_functors k cn len else [])"
      "shutdown_calls l' = shutdown_calls l" by blast
    have "stream k l' = stream k l @ take (written answer) mem @ take len (drop (written answer) mem)"
      using l'(3,4,7) V(1) empty by (simp add: stream_def)
    with queued l' conn_viewD(2) [OF l'(2)] show ?thesis
      unfolding wc_functors_def [symmetric] hw_functors_def [symmetric]
      by (simp only: not_less simp_thms if_False not_le [symmetric])
        (rule exI [of _ l'], rule exI [of _ b], rule exI [of _ ch'], simp)
  qed
qed

theorem sendInLoop_outcome_witness:
  "sendInLoop (WriteOk 2) 0 3 [65, 66, 67] 3 sample_open = Inl OutOfBounds
    \<and> sendInLoop (WriteErr 32) 0 3 [65, 66, 67] 3 sample_open = Inr sample_open
    \<and> (\<exists>l'. sendInLoop (WriteErr 11) 0 3 [65, 66, 67] 3 sample_open = Inr l'
        \<and> content (outputBuffer (the (conns l' 3))) = [65, 66, 67])
    \<and> (\<exists>l'. sendInLoop (WriteOk 1) 0 3 [65, 66, 67, 0] 3 sample_open = Inr l' \<and> kernel_out l' 5 = [65]
        \<and> content (outputBuffer (the (conns l' 3))) = [66, 67, 0])"
proof -
  let ?cn = "sample_conn kConnected" and ?ch = "reading_channel 0 5 (ConnHandleRead 3)"
  note s = sendInLoop_outcome [OF sample_open_inv conn_viewD(1,2) [OF sample_open_view],
      of 3 _ _ 0]
  have room: "writerIndex (outputBuffer ?cn) + 3 \<le> max_size" and st: "conn_state ?cn = kConnected" "conn_fd ?cn = 5"
    by (simp_all add: sample_conn_def new_conn_def max_size_def)
  have idle: "\<not> isWriting ?ch" and out: "kernel_out sample_open 5 = []"
    by (simp_all add: isWriting_def reading_channel_def has_bits_def kReadEvent_def kWriteEvent_def POLLIN_def
        POLLPRI_def POLLOUT_def sample_open_def)
  note a = fault_def written_def EPIPE_def ECONNRESET_def
  have "sendInLoop (WriteOk 2) 0 3 [65, 66, 67] 3 sample_open = Inl OutOfBounds"
    using s [of "[65, 66, 67]" "WriteOk 2"] room st idle by (simp add: a)
  moreover have "sendInLoop (WriteErr 32) 0 3 [65, 66, 67] 3 sample_open = Inr sample_open"
    using s [of "[65, 66, 67]" "WriteErr 32"] room st idle by (simp add: a)
  moreover have "\<exists>l'. sendInLoop (WriteErr 11) 0 3 [65, 66, 67] 3 sample_open = Inr l'
        \<and> content (outputBuffer (the (conns l' 3))) = [65, 66, 67]"
    using s [of "[65, 66, 67]" "WriteErr 11"] room st idle by (auto simp: a)
  moreover have "\<exists>l'. sendInLoop (WriteOk 1) 0 3 [65, 66, 67, 0] 3 sample_open = Inr l' \<and> kernel_out l' 5 = [65]
        \<and> content (outputBuffer (the (conns l' 3))) = [66, 67, 0]"
    using s [of "[65, 66, 67, 0]" "WriteOk 1"] room st idle out by (auto simp: a)
  ultimately show ?thesis by blast
qed

text \<open>
  C26. The end of a connection. \<open>handleClose\<close> of an open connection (\<open>forceCloseInLoop\<close> is the same) sets
  the state to disconnected, makes the channel wait for nothing, and then calls the connection callback
  and the close callback, once each. After that, \<open>handleClose\<close> aborts and \<open>forceCloseInLoop\<close> does nothing; \<open>connectDestroyed\<close>
  takes the channel out of the loop, and only then can the connection be deleted; a second \<open>connectDestroyed\<close> aborts,
  and so does the first one when \<open>startRead\<close> was called on the closed connection. \<open>connectDestroyed\<close>
  of a connected connection closes it in the same way, without its close callback; of one that
  is disconnecting and still reads, as when the peer has not yet closed, it aborts in \<open>Channel::remove\<close>.
\<close>

theorem connection_end:
  assumes "conn_inv k l" and "conns l k = Some cn" and "chanHeap l (conn_channel cn) = Some ch"
    and "in_poller k l" and "\<not> eventHandling l" and "\<not> ch_eventHandling ch"
  shows "(conn_state cn \<in> {kConnected, kDisconnecting} \<longrightarrow>
      (\<exists>m ch'. conns m = (conns l)(k \<mapsto> cn\<lparr>conn_state := kDisconnected\<rparr>)
        \<and> chanHeap m (conn_channel cn) = Some ch' \<and> isNoneEvent ch'
        \<and> conn_handleClose user k l = bindR (call_user user (connectionCallback cn) (UpConnection k) m)
            (\<lambda>m'. bindR (get_conn k m') (\<lambda>cn'. call_user user (conn_closeCallback cn') (UpClose k) m'))
        \<and> (conn_state cn = kConnected \<longrightarrow> connectDestroyed user k l =
            bindR (call_user user (connectionCallback cn) (UpConnection k) m) (Channel_remove (conn_channel cn))))
      \<and> forceCloseInLoop user k l = conn_handleClose user k l)
    \<and> (conn_state cn = kDisconnected \<longrightarrow>
      conn_handleClose user k l = Inl AssertFailed \<and> forceCloseInLoop user k l = Inr l
      \<and> (\<exists>l1 l2. connectDestroyed user k l = Inr l1 \<and> TcpConnection_dtor k l1 = Inr l2
        \<and> conns l2 k = None \<and> chanHeap l2 (conn_channel cn) = None \<and> connectDestroyed user k l1 = Inl AssertFailed)
      \<and> (\<exists>m. startReadInLoop k l = Inr m \<and> connectDestroyed user k m = Inl AssertFailed))
    \<and> TcpConnection_dtor k l = Inl AssertFailed
    \<and> (conn_state cn = kDisconnecting \<longrightarrow> isReading ch \<longrightarrow> connectDestroyed user k l = Inl AssertFailed)"
proof -
  from assms(1-3) have v: "conn_view k cn ch l" and p: "conn_phase cn ch"
    by (auto simp: conn_view_def conn_inv_def)
  note V = conn_viewD [OF v]
  have reg: "index ch \<noteq> KNew" using assms(2-4) by (simp add: in_poller_def)
  show ?thesis
  proof (intro conjI impI)
    assume st: "conn_state cn \<in> {kConnected, kDisconnecting}"
    from close_channel [OF v] obtain l1 m ch' where m: "setState k kDisconnected l = Inr l1"
      "disableAll (conn_channel cn) l1 = Inr m" "conn_view k (cn\<lparr>conn_state := kDisconnected\<rparr>) ch' m" "isNoneEvent ch'"
      "conns m = (conns l)(k \<mapsto> cn\<lparr>conn_state := kDisconnected\<rparr>)" by blast
    have "chanHeap m (conn_channel cn) = Some ch'" using conn_viewD(2) [OF m(3)] by simp
    moreover have "conn_handleClose user k l = bindR (call_user user (connectionCallback cn) (UpConnection k) m)
            (\<lambda>m'. bindR (get_conn k m') (\<lambda>cn'. call_user user (conn_closeCallback cn') (UpClose k) m'))"
      using st m(1,2) V(7) by (auto simp: conn_handleClose_def cassert_def)
    moreover have "connectDestroyed user k l =
            bindR (call_user user (connectionCallback cn) (UpConnection k) m) (Channel_remove (conn_channel cn))"
      if "conn_state cn = kConnected" using that m(1,2) V(7) by (simp add: connectDestroyed_def)
    ultimately show "\<exists>m ch'. conns m = (conns l)(k \<mapsto> cn\<lparr>conn_state := kDisconnected\<rparr>)
        \<and> chanHeap m (conn_channel cn) = Some ch' \<and> isNoneEvent ch'
        \<and> conn_handleClose user k l = bindR (call_user user (connectionCallback cn) (UpConnection k) m)
            (\<lambda>m'. bindR (get_conn k m') (\<lambda>cn'. call_user user (conn_closeCallback cn') (UpClose k) m'))
        \<and> (conn_state cn = kConnected \<longrightarrow> connectDestroyed user k l =
            bindR (call_user user (connectionCallback cn) (UpConnection k) m) (Channel_remove (conn_channel cn)))"
      using m(4,5) by blast
    show "forceCloseInLoop user k l = conn_handleClose user k l" using st V(7) by (auto simp: forceCloseInLoop_def)
  next
    assume st: "conn_state cn = kDisconnected"
    then have none: "isNoneEvent ch" using p by (simp add: conn_phase_def)
    show "conn_handleClose user k l = Inl AssertFailed" "forceCloseInLoop user k l = Inr l"
      using st V(7) by (simp_all add: conn_handleClose_def forceCloseInLoop_def cassert_def)
    from destroy_closed [OF v st none reg assms(5)] dtor_after_remove [OF v st assms(6)] destroy_twice [OF v st none]
    show "\<exists>l1 l2. connectDestroyed user k l = Inr l1 \<and> TcpConnection_dtor k l1 = Inr l2
        \<and> conns l2 k = None \<and> chanHeap l2 (conn_channel cn) = None \<and> connectDestroyed user k l1 = Inl AssertFailed" by blast
    from startRead_closed [OF v none] obtain m cn' ch' where
      "startReadInLoop k l = Inr m" "conn_view k cn' ch' m" "conn_state cn' = conn_state cn" "\<not> isNoneEvent ch'"
      by blast
    with destroy_busy [of k cn' ch' m user] st
    show "\<exists>m. startReadInLoop k l = Inr m \<and> connectDestroyed user k m = Inl AssertFailed" by auto
  next
    show "TcpConnection_dtor k l = Inl AssertFailed" by (rule dtor_in_poller [OF assms(1,4)])
  next
    assume st: "conn_state cn = kDisconnecting" and "isReading ch"
    then have "\<not> isNoneEvent ch" by (cases "events ch = kNoneEvent") (auto simp: isNoneEvent_def isReading_def)
    with destroy_busy [OF v] st show "connectDestroyed user k l = Inl AssertFailed" by simp
  qed
qed

definition sample_closing :: "conn_call list conn_loop" where
  "sample_closing = sample_open\<lparr>conns := [3 \<mapsto> sample_conn kDisconnecting]\<rparr>"

definition sample_closed :: "conn_call list conn_loop" where
  "sample_closed = sample_open\<lparr>chanHeap := [7 \<mapsto> (reading_channel 0 5 (ConnHandleRead 3))\<lparr>events := kNoneEvent, index := KDeleted\<rparr>],
     conns := [3 \<mapsto> sample_conn kDisconnected]\<rparr>"

theorem connection_end_witness:
  "connectDestroyed script_user 3 sample_closing = Inl AssertFailed
    \<and> (\<exists>m. conn_state (the (conns m 3)) = kDisconnected \<and> conn_handleClose script_user 3 sample_closing = Inr m)
    \<and> conn_handleClose script_user 3 sample_closed = Inl AssertFailed
    \<and> (\<exists>l1 l2. connectDestroyed script_user 3 sample_closed = Inr l1 \<and> TcpConnection_dtor 3 l1 = Inr l2
        \<and> connectDestroyed script_user 3 l1 = Inl AssertFailed)"
proof -
  let ?ch = "reading_channel 0 5 (ConnHandleRead 3)"
  have v: "conn_view 3 (sample_conn kDisconnecting) ?ch sample_closing"
    using sample_open_view reactor_inv_cong [of sample_closing sample_open]
    by (simp add: conn_view_def sample_closing_def sample_conn_def new_conn_def)
  have i: "conn_inv 3 sample_closing"
    by (rule conn_invI [OF v]) (simp add: conn_phase_def sample_conn_def new_conn_def content_def)
  let ?ch' = "the (chanHeap sample_closed 7)"
  have v': "conn_view 3 (sample_conn kDisconnected) ?ch' sample_closed"
    by (simp add: conn_view_def sample_closed_def sample_open_def sample_conn_def new_conn_def reactor_inv_def chan_ok_def
      reading_channel_def mkChannel_def buf_inv_def kCheapPrepend_def max_size_def KNew_def KDeleted_def KAdded_def kNoneEvent_def)
  have i': "conn_inv 3 sample_closed"
    by (rule conn_invI [OF v']) (simp add: conn_phase_def sample_conn_def new_conn_def open_state_def isNoneEvent_def
        sample_closed_def)
  have p: "in_poller 3 sample_closing" "in_poller 3 sample_closed" and
    idle: "\<not> eventHandling sample_closing" "\<not> eventHandling sample_closed" "\<not> ch_eventHandling ?ch" "\<not> ch_eventHandling ?ch'"
    by (simp_all add: in_poller_def sample_closing_def sample_closed_def sample_open_def sample_conn_def new_conn_def
        reading_channel_def mkChannel_def KNew_def KAdded_def KDeleted_def)
  have rd: "isReading ?ch" by (simp add: isReading_def reading_channel_def kReadEvent_def has_bits_def POLLIN_def POLLPRI_def)
  note s = connection_end [OF i conn_viewD(1,2) [OF v] p(1) idle(1,3), of script_user]
    and s' = connection_end [OF i' conn_viewD(1,2) [OF v'] p(2) idle(2,4), of script_user]
  have st: "conn_state (sample_conn kDisconnecting) = kDisconnecting" "conn_state (sample_conn kDisconnected) = kDisconnected"
    "connectionCallback (sample_conn kDisconnecting) = Some []" "conn_closeCallback (sample_conn kDisconnecting) = Some []"
    by (simp_all add: sample_conn_def new_conn_def)
  show ?thesis
    using s s' st rd by (auto simp: call_user_def script_user_def)
qed

end
