(* ===== verification/Timers.thy ===== *)
theory Timers
  imports Event_Loop "HOL-Library.Product_Lexorder" "HOL-Library.Signed_Division"
begin

text \<open>
  \<open>base/Atomic\<close>, \<open>base/TimeStamp\<close>, \<open>net/Timer\<close>, \<open>net/TimerId\<close> and \<open>net/TimerQueue\<close>. Times are
  microseconds since the epoch; an operation that leaves the range of \<open>int64_t\<close> fails. A
  \<open>double\<close> is a mantissa and a binary exponent, and the one multiplication the code does with it
  rounds to 53 bits, ties to even. The system clock is the sequence of the answers of
  \<open>gettimeofday\<close>, kept in the state with the number of readings so far.
\<close>

section \<open>Atomic counters\<close>

text \<open>
  Each operation is one atomic instruction, or one followed by arithmetic on its result.
  \<open>get\<close> is a compare-and-swap of 0 by 0. Every operation returns its result and the new value.
\<close>

definition atomic_init :: "'w::len word" where
  "atomic_init = 0"

definition atomic_get :: "'w::len word \<Rightarrow> 'w word \<times> 'w word" where
  "atomic_get v = (v, if v = 0 then 0 else v)"

definition getAndAdd :: "'w::len word \<Rightarrow> 'w word \<Rightarrow> 'w word \<times> 'w word" where
  "getAndAdd x v = (v, v + x)"

definition addAndGet :: "'w::len word \<Rightarrow> 'w word \<Rightarrow> 'w word \<times> 'w word" where
  "addAndGet x v = (let (r, v') = getAndAdd x v in (r + x, v'))"

definition incrementAndGet :: "'w::len word \<Rightarrow> 'w word \<times> 'w word" where
  "incrementAndGet v = addAndGet 1 v"

definition decermentAndGet :: "'w::len word \<Rightarrow> 'w word \<times> 'w word" where
  "decermentAndGet v = addAndGet (- 1) v"

definition atomic_add :: "'w::len word \<Rightarrow> 'w word \<Rightarrow> 'w word" where
  "atomic_add x v = snd (getAndAdd x v)"

definition atomic_increment :: "'w::len word \<Rightarrow> 'w word" where
  "atomic_increment v = snd (incrementAndGet v)"

definition atomic_decrement :: "'w::len word \<Rightarrow> 'w word" where
  "atomic_decrement v = snd (decermentAndGet v)"

definition getAndSet :: "'w::len word \<Rightarrow> 'w word \<Rightarrow> 'w word \<times> 'w word" where
  "getAndSet newValue v = (v, newValue)"

section \<open>Time stamps\<close>

definition i64 :: "int \<Rightarrow> int res" where
  "i64 x = (if - (2 ^ 63) \<le> x \<and> x < 2 ^ 63 then Inr x else Inl Overflow)"

text \<open>\<open>Finite m e\<close> is the number \<open>m * 2 ^ e\<close>.\<close>

datatype double = Finite int int | Infinite bool | NaN

fun double_pos :: "double \<Rightarrow> bool" where
  "double_pos (Finite m e) \<longleftrightarrow> m > 0"
| "double_pos (Infinite neg) \<longleftrightarrow> \<not> neg"
| "double_pos NaN \<longleftrightarrow> False"

fun bit_length :: "nat \<Rightarrow> nat" where
  "bit_length n = (if n = 0 then 0 else Suc (bit_length (n div 2)))"

declare bit_length.simps [simp del]

definition round_half_even :: "nat \<Rightarrow> nat \<Rightarrow> nat" where
  "round_half_even n k =
     (let q = n div 2 ^ k; r = n mod 2 ^ k
      in if 2 * r < 2 ^ k \<or> (2 * r = 2 ^ k \<and> even q) then q else q + 1)"

definition round53 :: "int \<Rightarrow> int \<Rightarrow> double" where
  "round53 m e =
     (let k = bit_length (nat \<bar>m\<bar>) - 53
      in Finite (sgn m * int (round_half_even (nat \<bar>m\<bar>) k)) (e + int k))"

fun double_times :: "double \<Rightarrow> int \<Rightarrow> double" where
  "double_times (Finite m e) n = round53 (m * n) e"
| "double_times d n = d"

fun double_to_int64 :: "double \<Rightarrow> int res" where
  "double_to_int64 (Finite m e) =
     i64 (if e \<ge> 0 then m * 2 ^ nat e else sgn m * (\<bar>m\<bar> div 2 ^ nat (- e)))"
| "double_to_int64 d = Inl Overflow"

definition KMicronSecondsPerSecond :: int where
  "KMicronSecondsPerSecond = 1000 * 1000"

definition TimeStamp_valid :: "int \<Rightarrow> bool" where
  "TimeStamp_valid t \<longleftrightarrow> t > 0"

definition SecondSinceEpoch :: "int \<Rightarrow> int" where
  "SecondSinceEpoch t = t sdiv KMicronSecondsPerSecond"

definition TimeStamp_swap :: "int \<times> int \<Rightarrow> int \<times> int" where
  "TimeStamp_swap p = (snd p, fst p)"

definition addTime :: "int \<Rightarrow> double \<Rightarrow> int res" where
  "addTime timestamp seconds =
     bindR (double_to_int64 (double_times seconds KMicronSecondsPerSecond))
       (\<lambda>delta. i64 (timestamp + delta))"

text \<open>What \<open>%06ld\<close> prints of a number that is not negative.\<close>

definition pad6 :: "int \<Rightarrow> string" where
  "pad6 i = (let s = show_int i in replicate (6 - length s) CHR ''0'' @ s)"

definition TimeStamp_toString :: "int \<Rightarrow> string" where
  "TimeStamp_toString t =
     (let second = t sdiv KMicronSecondsPerSecond;
          micronSecond = t AND KMicronSecondsPerSecond
      in take 31 (show_int second @ ''.'' @ pad6 micronSecond))"

section \<open>Timers\<close>

record 'k timer =
  tm_callback :: 'k
  tm_expiration :: int
  tm_interval :: double
  tm_repeat :: bool
  tm_sequence :: "64 word"

record timer_id =
  id_timer :: addr
  id_sequence :: "64 word"

definition TimerId_null :: timer_id where
  "TimerId_null = \<lparr>id_timer = 0, id_sequence = 0\<rparr>"

definition Timer_ctor :: "'k \<Rightarrow> int \<Rightarrow> double \<Rightarrow> 64 word \<Rightarrow> 'k timer \<times> 64 word" where
  "Timer_ctor cb when interval numCreated =
     (let (seq, numCreated') = incrementAndGet numCreated
      in (\<lparr>tm_callback = cb, tm_expiration = when, tm_interval = interval,
           tm_repeat = double_pos interval, tm_sequence = seq\<rparr>, numCreated'))"

definition Timer_restart :: "int \<Rightarrow> 'k timer \<Rightarrow> 'k timer res" where
  "Timer_restart now t =
     (if tm_repeat t
      then bindR (addTime now (tm_interval t)) (\<lambda>e. Inr (t\<lparr>tm_expiration := e\<rparr>))
      else Inr (t\<lparr>tm_expiration := 0\<rparr>))"

section \<open>The timer queue\<close>

text \<open>
  Timers live on the heap: \<open>timers_\<close> is the ordered set of expiration and pointer,
  \<open>activeTimers_\<close> the set of pointer and sequence number. \<open>idHeap\<close> holds the \<open>TimerId\<close> objects
  whose address is passed to \<open>TimerQueue::cancel\<close>. \<open>settimes\<close> is the history of the values given
  to \<open>timerfd_settime\<close> (seconds and nanoseconds, relative, one shot), whose result the code only
  logs. The queue's own functors are \<open>addTimerInLoop\<close> and \<open>cancelInLoop\<close> with their argument.
\<close>

datatype timer_functor = AddTimerInLoop addr | CancelInLoop addr

type_synonym timer_entry = "int \<times> addr"
type_synonym active_timer = "addr \<times> 64 word"

record ('cb, 'k) timer_loop = "('cb, timer_functor) event_loop" +
  clock :: "nat \<Rightarrow> int \<times> int"
  clockReads :: nat
  timerHeap :: "addr \<rightharpoonup> 'k timer"
  idHeap :: "addr \<rightharpoonup> timer_id"
  numCreated :: "64 word"
  timers :: "timer_entry list"
  activeTimers :: "active_timer set"
  callingExpiredTimers :: bool
  cancelingTimers :: "active_timer set"
  settimes :: "(int \<times> int) list"

definition TimeStamp_now :: "('cb, 'k) timer_loop \<Rightarrow> int \<times> ('cb, 'k) timer_loop" where
  "TimeStamp_now l =
     (let (sec, usec) = clock l (clockReads l)
      in (sec * KMicronSecondsPerSecond + usec, l\<lparr>clockReads := Suc (clockReads l)\<rparr>))"

definition howMuchTimeFromNow :: "int \<Rightarrow> int \<Rightarrow> (int \<times> int) res" where
  "howMuchTimeFromNow when now =
     bindR (i64 (when - now)) (\<lambda>d.
       let microseconds = (if d < 100 then 100 else d)
       in Inr (microseconds sdiv KMicronSecondsPerSecond,
               (microseconds smod KMicronSecondsPerSecond) * 1000))"

definition resetTimerfd :: "int \<Rightarrow> ('cb, 'k) timer_loop \<Rightarrow> ('cb, 'k) timer_loop res" where
  "resetTimerfd expiration l =
     (let (now, l1) = TimeStamp_now l
      in bindR (howMuchTimeFromNow expiration now)
          (\<lambda>ts. Inr (l1\<lparr>settimes := settimes l1 @ [ts]\<rparr>)))"

definition get_timer :: "addr \<Rightarrow> ('cb, 'k) timer_loop \<Rightarrow> 'k timer res" where
  "get_timer a l = (case timerHeap l a of None \<Rightarrow> Inl UseAfterFree | Some t \<Rightarrow> Inr t)"

definition put_timer :: "addr \<Rightarrow> 'k timer \<Rightarrow> ('cb, 'k) timer_loop \<Rightarrow> ('cb, 'k) timer_loop" where
  "put_timer a t l = l\<lparr>timerHeap := (timerHeap l)(a \<mapsto> t)\<rparr>"

definition delete_timer :: "addr \<Rightarrow> ('cb, 'k) timer_loop \<Rightarrow> ('cb, 'k) timer_loop res" where
  "delete_timer a l = bindR (get_timer a l) (\<lambda>_. Inr (l\<lparr>timerHeap := (timerHeap l)(a := None)\<rparr>))"

definition sizes_agree :: "('cb, 'k) timer_loop \<Rightarrow> bool" where
  "sizes_agree l \<longleftrightarrow> length (timers l) = card (activeTimers l)"

definition TimerQueue_insert :: "addr \<Rightarrow> ('cb, 'k) timer_loop \<Rightarrow> (bool \<times> ('cb, 'k) timer_loop) res" where
  "TimerQueue_insert timer l =
     cassert (sizes_agree l)
      (bindR (get_timer timer l) (\<lambda>t.
        let when = tm_expiration t; earliestChanged = (timers l = [])
        in cassert ((when, timer) \<notin> set (timers l))
            (let l1 = l\<lparr>timers := insort (when, timer) (timers l)\<rparr>
             in cassert ((timer, tm_sequence t) \<notin> activeTimers l1)
                 (let l2 = l1\<lparr>activeTimers := insert (timer, tm_sequence t) (activeTimers l1)\<rparr>
                  in cassert (sizes_agree l2) (Inr (earliestChanged, l2))))))"

definition addTimerInLoop :: "addr \<Rightarrow> ('cb, 'k) timer_loop \<Rightarrow> ('cb, 'k) timer_loop res" where
  "addTimerInLoop timer l =
     bindR (TimerQueue_insert timer l) (\<lambda>(earliestChanged, l1).
       if earliestChanged
       then bindR (get_timer timer l1) (\<lambda>t. resetTimerfd (tm_expiration t) l1)
       else Inr l1)"

definition cancelInLoop :: "addr \<Rightarrow> ('cb, 'k) timer_loop \<Rightarrow> ('cb, 'k) timer_loop res" where
  "cancelInLoop timerId l =
     cassert (sizes_agree l)
      (case idHeap l timerId of
         None \<Rightarrow> Inl UseAfterFree
       | Some tid \<Rightarrow>
           (let timer = (id_timer tid, id_sequence tid)
            in bindR
                (if timer \<in> activeTimers l
                 then bindR (get_timer (fst timer) l) (\<lambda>t.
                        cassert ((tm_expiration t, fst timer) \<in> set (timers l))
                         (bindR (delete_timer (fst timer)
                            (l\<lparr>timers := remove1 (tm_expiration t, fst timer) (timers l)\<rparr>))
                           (\<lambda>l1. Inr (l1\<lparr>activeTimers := activeTimers l1 - {timer}\<rparr>))))
                 else if callingExpiredTimers l
                 then Inr (l\<lparr>cancelingTimers := insert timer (cancelingTimers l)\<rparr>)
                 else Inr l)
                (\<lambda>l2. cassert (sizes_agree l2) (Inr l2))))"

text \<open>What running one of the queue's functors does.\<close>

fun exec_timer_functor :: "timer_functor \<Rightarrow> ('cb, 'k) timer_loop \<Rightarrow> ('cb, 'k) timer_loop res" where
  "exec_timer_functor (AddTimerInLoop a) l = addTimerInLoop a l"
| "exec_timer_functor (CancelInLoop p) l = cancelInLoop p l"

text \<open>
  \<open>alloc\<close> is the heap allocator behind \<open>new Timer\<close>: \<open>None\<close> stands for \<open>std::bad_alloc\<close>.
\<close>

type_synonym 'k allocator = "(addr \<rightharpoonup> 'k timer) \<Rightarrow> addr option"

definition addTimer :: "'k allocator \<Rightarrow> tid \<Rightarrow> 'k \<Rightarrow> int \<Rightarrow> double \<Rightarrow> ('cb, 'k) timer_loop
    \<Rightarrow> (timer_id \<times> ('cb, 'k) timer_loop) res" where
  "addTimer alloc self cb when interval l =
     (case alloc (timerHeap l) of
        None \<Rightarrow> Inl BadAlloc
      | Some a \<Rightarrow>
          (let (t, n) = Timer_ctor cb when interval (numCreated l);
               l1 = put_timer a t (l\<lparr>numCreated := n\<rparr>)
           in bindR (runInLoop exec_timer_functor self (AddTimerInLoop a) l1)
               (\<lambda>l2. Inr (\<lparr>id_timer = a, id_sequence = tm_sequence t\<rparr>, l2))))"

definition TimerQueue_cancel :: "tid \<Rightarrow> addr \<Rightarrow> ('cb, 'k) timer_loop \<Rightarrow> ('cb, 'k) timer_loop res" where
  "TimerQueue_cancel self timerId l = runInLoop exec_timer_functor self (CancelInLoop timerId) l"

text \<open>The loop's interface: \<open>frame\<close> is the address of \<open>cancel\<close>'s parameter, gone when it returns.\<close>

definition EventLoop_runAt :: "'k allocator \<Rightarrow> tid \<Rightarrow> int \<Rightarrow> 'k \<Rightarrow> ('cb, 'k) timer_loop
    \<Rightarrow> (timer_id \<times> ('cb, 'k) timer_loop) res" where
  "EventLoop_runAt alloc self time cb l = addTimer alloc self cb time (Finite 0 0) l"

definition EventLoop_runEvery :: "'k allocator \<Rightarrow> tid \<Rightarrow> double \<Rightarrow> 'k \<Rightarrow> ('cb, 'k) timer_loop
    \<Rightarrow> (timer_id \<times> ('cb, 'k) timer_loop) res" where
  "EventLoop_runEvery alloc self interval cb l =
     (let (now, l1) = TimeStamp_now l
      in bindR (addTime now interval) (\<lambda>time. addTimer alloc self cb time interval l1))"

definition EventLoop_runAfter :: "'k allocator \<Rightarrow> tid \<Rightarrow> double \<Rightarrow> 'k \<Rightarrow> ('cb, 'k) timer_loop
    \<Rightarrow> (timer_id \<times> ('cb, 'k) timer_loop) res" where
  "EventLoop_runAfter alloc self delay cb l =
     (let (now, l1) = TimeStamp_now l
      in bindR (addTime now delay) (\<lambda>time. EventLoop_runAt alloc self time cb l1))"

definition EventLoop_cancel :: "tid \<Rightarrow> addr \<Rightarrow> timer_id \<Rightarrow> ('cb, 'k) timer_loop
    \<Rightarrow> ('cb, 'k) timer_loop res" where
  "EventLoop_cancel self frame timerId l =
     bindR (TimerQueue_cancel self frame (l\<lparr>idHeap := (idHeap l)(frame \<mapsto> timerId)\<rparr>))
       (\<lambda>l1. Inr (l1\<lparr>idHeap := (idHeap l1)(frame := None)\<rparr>))"

subsection \<open>Expiry\<close>

definition UINTPTR_MAX :: addr where
  "UINTPTR_MAX = 2 ^ 64 - 1"

text \<open>\<open>lower_bound(sentry)\<close> splits the set: the expired entries are those below the sentry.\<close>

definition erase_active :: "timer_entry \<Rightarrow> ('cb, 'k) timer_loop \<Rightarrow> ('cb, 'k) timer_loop res" where
  "erase_active it l =
     bindR (get_timer (snd it) l) (\<lambda>t.
       let timer = (snd it, tm_sequence t)
       in cassert (timer \<in> activeTimers l) (Inr (l\<lparr>activeTimers := activeTimers l - {timer}\<rparr>)))"

definition getExpired :: "int \<Rightarrow> ('cb, 'k) timer_loop
    \<Rightarrow> (timer_entry list \<times> ('cb, 'k) timer_loop) res" where
  "getExpired now l =
     cassert (sizes_agree l)
      (let sentry = (now, UINTPTR_MAX);
           expired = takeWhile (\<lambda>e. e < sentry) (timers l);
           rest = dropWhile (\<lambda>e. e < sentry) (timers l)
       in cassert (rest = [] \<or> now < fst (hd rest))
           (bindR (foldR erase_active expired (l\<lparr>timers := rest\<rparr>))
             (\<lambda>l1. cassert (sizes_agree l1) (Inr (expired, l1)))))"

text \<open>One pass of the loop in \<open>reset\<close>; \<open>nextExpire\<close> is declared outside of it.\<close>

definition reset_one :: "int \<Rightarrow> timer_entry \<Rightarrow> int \<times> ('cb, 'k) timer_loop
    \<Rightarrow> (int \<times> ('cb, 'k) timer_loop) res" where
  "reset_one now it s =
     (let (nextExpire, l) = s
      in bindR (get_timer (snd it) l) (\<lambda>t.
         bindR (if tm_repeat t \<and> (snd it, tm_sequence t) \<notin> cancelingTimers l
                then bindR (Timer_restart now t)
                      (\<lambda>t'. bindR (TimerQueue_insert (snd it) (put_timer (snd it) t' l)) (\<lambda>r. Inr (snd r)))
                else delete_timer (snd it) l)
           (\<lambda>l1. bindR (if timers l1 \<noteq> []
                        then bindR (get_timer (snd (hd (timers l1))) l1) (\<lambda>u. Inr (tm_expiration u))
                        else Inr nextExpire)
             (\<lambda>next. bindR (if TimeStamp_valid next then resetTimerfd next l1 else Inr l1)
               (\<lambda>l2. Inr (next, l2))))))"

definition TimerQueue_reset :: "timer_entry list \<Rightarrow> int \<Rightarrow> ('cb, 'k) timer_loop
    \<Rightarrow> ('cb, 'k) timer_loop res" where
  "TimerQueue_reset expired now l =
     bindR (foldR (reset_one now) expired (0, l)) (\<lambda>s. Inr (snd s))"

definition run_expired :: "('k \<Rightarrow> ('cb, 'k) timer_loop \<Rightarrow> ('cb, 'k) timer_loop res) \<Rightarrow> timer_entry
    \<Rightarrow> ('cb, 'k) timer_loop \<Rightarrow> ('cb, 'k) timer_loop res" where
  "run_expired run it l = bindR (get_timer (snd it) l) (\<lambda>t. run (tm_callback t) l)"

text \<open>The handler of the timer descriptor; \<open>run\<close> is what calling a timer's callback does.\<close>

definition TimerQueue_handleRead :: "('k \<Rightarrow> ('cb, 'k) timer_loop \<Rightarrow> ('cb, 'k) timer_loop res)
    \<Rightarrow> ('cb, 'k) timer_loop \<Rightarrow> ('cb, 'k) timer_loop res" where
  "TimerQueue_handleRead run l =
     (let (now, l1) = TimeStamp_now l
      in bindR (getExpired now l1) (\<lambda>(expired, l2).
           bindR (foldR (run_expired run) expired
                   (l2\<lparr>callingExpiredTimers := True, cancelingTimers := {}\<rparr>))
             (\<lambda>l3. TimerQueue_reset expired now (l3\<lparr>callingExpiredTimers := False\<rparr>))))"

section \<open>The invariant of the queue\<close>

definition active_of :: "(addr \<rightharpoonup> 'k timer) \<Rightarrow> timer_entry set \<Rightarrow> active_timer set" where
  "active_of h es = (\<lambda>e. (snd e, tm_sequence (the (h (snd e))))) ` es"

text \<open>
  Both sets hold the same timers; an entry carries the expiration its timer has and points to a
  live object; no object is at the address the sentry uses.
\<close>

definition tq_inv :: "('cb, 'k) timer_loop \<Rightarrow> bool" where
  "tq_inv l \<longleftrightarrow> sorted (timers l) \<and> distinct (timers l)
     \<and> (\<forall>e \<in> set (timers l). \<exists>t. timerHeap l (snd e) = Some t \<and> tm_expiration t = fst e)
     \<and> activeTimers l = active_of (timerHeap l) (set (timers l))
     \<and> (\<forall>a t. timerHeap l a = Some t \<longrightarrow> a < UINTPTR_MAX)"

text \<open>The timers that exist and are not in the queue.\<close>

definition idle_timers :: "('cb, 'k) timer_loop \<Rightarrow> (addr \<rightharpoonup> 'k timer)" where
  "idle_timers l = timerHeap l |` (- (snd ` set (timers l)))"

lemma tq_invD:
  assumes "tq_inv l"
  shows "sorted (timers l)" "distinct (timers l)"
    "e \<in> set (timers l) \<Longrightarrow> \<exists>t. timerHeap l (snd e) = Some t \<and> tm_expiration t = fst e"
    "activeTimers l = active_of (timerHeap l) (set (timers l))"
    "timerHeap l a = Some t \<Longrightarrow> a < UINTPTR_MAX"
  using assms by (auto simp: tq_inv_def)

lemma entries_inj: "tq_inv l \<Longrightarrow> inj_on snd (set (timers l))"
  by (rule inj_onI) (metis option.inject prod_eqI tq_invD(3))

lemma active_card:
  assumes "inj_on snd es"
  shows "card (active_of h es) = card es"
proof -
  have "inj_on (\<lambda>e. (snd e, tm_sequence (the (h (snd e))))) es"
    using assms by (auto simp: inj_on_def)
  then show ?thesis by (simp add: active_of_def card_image)
qed

lemma tq_sizes: "tq_inv l \<Longrightarrow> sizes_agree l"
  using active_card [OF entries_inj, of l "timerHeap l"] tq_invD(2) [of l]
  by (simp add: sizes_agree_def tq_invD(4) distinct_card)

lemma get_timer_Some [simp]: "timerHeap l a = Some t \<Longrightarrow> get_timer a l = Inr t"
  by (simp add: get_timer_def)

lemma idle_timers_Some:
  "idle_timers l a = Some t \<longleftrightarrow> timerHeap l a = Some t \<and> a \<notin> snd ` set (timers l)"
  by (simp add: idle_timers_def restrict_map_def)

lemma not_active:
  "tq_inv l \<Longrightarrow> a \<notin> snd ` set (timers l) \<Longrightarrow> (a, s) \<notin> activeTimers l"
  by (auto simp: tq_invD(4) active_of_def)

lemma is_active:
  assumes "tq_inv l" and "timerHeap l a = Some t"
  shows "(a, s) \<in> activeTimers l \<longleftrightarrow> s = tm_sequence t \<and> (tm_expiration t, a) \<in> set (timers l)"
  using assms tq_invD(3) [OF assms(1)] by (force simp: tq_invD(4) active_of_def)

lemma is_active_live: "tq_inv l \<Longrightarrow> (a, s) \<in> activeTimers l \<Longrightarrow> timerHeap l a \<noteq> None"
  using tq_invD(3) [of l] by (force simp: tq_invD(4) active_of_def)

subsection \<open>Insertion and cancellation\<close>

definition inserted :: "addr \<Rightarrow> 'k timer \<Rightarrow> ('cb, 'k) timer_loop \<Rightarrow> ('cb, 'k) timer_loop" where
  "inserted a t l = l\<lparr>timers := insort (tm_expiration t, a) (timers l),
     activeTimers := insert (a, tm_sequence t) (activeTimers l)\<rparr>"

lemma inserted_inv:
  assumes inv: "tq_inv l" and idle: "idle_timers l a = Some t"
  shows "tq_inv (inserted a t l)"
proof -
  from idle have a: "timerHeap l a = Some t" "a \<notin> snd ` set (timers l)"
    by (simp_all add: idle_timers_Some)
  have new: "(tm_expiration t, a) \<notin> set (timers l)" using a(2) by force
  have "activeTimers (inserted a t l) = active_of (timerHeap l) (set (timers (inserted a t l)))"
    using a(1) by (simp add: inserted_def tq_invD(4) [OF inv] active_of_def set_insort_key)
  then show ?thesis
    using tq_invD [OF inv] a new
    by (simp add: tq_inv_def inserted_def sorted_insort distinct_insort set_insort_key)
qed

lemma TimerQueue_insert_ok:
  assumes inv: "tq_inv l" and idle: "idle_timers l a = Some t"
  shows "TimerQueue_insert a l = Inr (timers l = [], inserted a t l)"
proof -
  from idle have a: "timerHeap l a = Some t" "a \<notin> snd ` set (timers l)"
    by (simp_all add: idle_timers_Some)
  have new: "(tm_expiration t, a) \<notin> set (timers l)" using a(2) by force
  show ?thesis
    using tq_sizes [OF inv] tq_sizes [OF inserted_inv [OF inv idle]] a(1) new not_active [OF inv a(2)]
    by (simp add: TimerQueue_insert_def inserted_def Let_def)
qed

lemma idle_inserted: "idle_timers (inserted a t l) = (idle_timers l)(a := None)"
  by (auto simp: idle_timers_def inserted_def restrict_map_def fun_eq_iff set_insort_key)

definition removed :: "addr \<Rightarrow> 'k timer \<Rightarrow> ('cb, 'k) timer_loop \<Rightarrow> ('cb, 'k) timer_loop" where
  "removed a t l = l\<lparr>timers := remove1 (tm_expiration t, a) (timers l),
     timerHeap := (timerHeap l)(a := None),
     activeTimers := activeTimers l - {(a, tm_sequence t)}\<rparr>"

lemma removed_inv:
  assumes inv: "tq_inv l" and a: "timerHeap l a = Some t" "(tm_expiration t, a) \<in> set (timers l)"
  shows "tq_inv (removed a t l)"
proof -
  have set: "set (timers (removed a t l)) = set (timers l) - {(tm_expiration t, a)}"
    using tq_invD(2) [OF inv] by (simp add: removed_def)
  have others: "snd e \<noteq> a" if "e \<in> set (timers l) - {(tm_expiration t, a)}" for e
    using that inj_onD [OF entries_inj [OF inv], of e "(tm_expiration t, a)"] a(2) by auto
  have "activeTimers (removed a t l) = active_of (timerHeap l) (set (timers l)) - {(a, tm_sequence t)}"
    by (simp add: removed_def tq_invD(4) [OF inv])
  also have "\<dots> = active_of (timerHeap l) (set (timers l) - {(tm_expiration t, a)})"
    using a others by (auto simp: active_of_def)
  also have "\<dots> = active_of (timerHeap (removed a t l)) (set (timers (removed a t l)))"
    unfolding set using others by (auto simp: active_of_def removed_def intro!: image_cong)
  finally have act: "activeTimers (removed a t l)
    = active_of (timerHeap (removed a t l)) (set (timers (removed a t l)))" .
  have "\<exists>u. timerHeap (removed a t l) (snd e) = Some u \<and> tm_expiration u = fst e"
    if "e \<in> set (timers (removed a t l))" for e
    using that others tq_invD(3) [OF inv, of e] unfolding set by (auto simp: removed_def)
  with act tq_invD [OF inv] show ?thesis
    by (auto simp: tq_inv_def removed_def sorted_remove1 split: if_splits)
qed

lemma idle_removed:
  "tq_inv l \<Longrightarrow> timerHeap l a = Some t \<Longrightarrow> (tm_expiration t, a) \<in> set (timers l) \<Longrightarrow>
    idle_timers (removed a t l) = idle_timers l"
  using entries_inj [of l] tq_invD(2) [of l]
  by (force simp: idle_timers_def removed_def restrict_map_def fun_eq_iff inj_on_def)

lemma cancelInLoop_active:
  assumes inv: "tq_inv l" and p: "idHeap l p = Some i"
    and act: "(id_timer i, id_sequence i) \<in> activeTimers l"
  shows "\<exists>t. timerHeap l (id_timer i) = Some t \<and> tm_sequence t = id_sequence i
    \<and> (tm_expiration t, id_timer i) \<in> set (timers l)
    \<and> cancelInLoop p l = Inr (removed (id_timer i) t l)"
proof -
  from act obtain e where e: "e \<in> set (timers l)" "id_timer i = snd e"
    by (auto simp: tq_invD(4) [OF inv] active_of_def)
  with tq_invD(3) [OF inv e(1)] obtain t where t: "timerHeap l (id_timer i) = Some t" by auto
  with act is_active [OF inv t] have s: "id_sequence i = tm_sequence t"
    and q: "(tm_expiration t, id_timer i) \<in> set (timers l)" by auto
  have agree: "sizes_agree (removed (id_timer i) t l)"
    by (rule tq_sizes [OF removed_inv [OF inv t q]])
  show ?thesis
    using tq_sizes [OF inv] agree p act t s q
    by (simp add: cancelInLoop_def delete_timer_def removed_def get_timer_def)
qed

lemma cancelInLoop_other:
  assumes "tq_inv l" and "idHeap l p = Some i" and "(id_timer i, id_sequence i) \<notin> activeTimers l"
  shows "cancelInLoop p l = Inr (if callingExpiredTimers l
    then l\<lparr>cancelingTimers := insert (id_timer i, id_sequence i) (cancelingTimers l)\<rparr> else l)"
  using assms tq_sizes [OF assms(1)] by (simp add: cancelInLoop_def sizes_agree_def)

text \<open>
  What code running in a timer callback may do to the queue: keep its invariant and leave the
  timers outside of it, among them the expired ones, alone.
\<close>

definition client_step :: "('cb, 'k) timer_loop \<Rightarrow> ('cb, 'k) timer_loop \<Rightarrow> bool" where
  "client_step l l' \<longleftrightarrow> tq_inv l' \<and> idle_timers l \<subseteq>\<^sub>m idle_timers l'"

lemma client_step_refl: "tq_inv l \<Longrightarrow> client_step l l"
  by (simp add: client_step_def)

lemma client_step_trans: "client_step a b \<Longrightarrow> client_step b c \<Longrightarrow> client_step a c"
  by (auto simp: client_step_def intro: map_le_trans)

lemma queue_view:
  "timers l' = timers l \<Longrightarrow> timerHeap l' = timerHeap l \<Longrightarrow> activeTimers l' = activeTimers l \<Longrightarrow>
    tq_inv l' = tq_inv l \<and> idle_timers l' = idle_timers l"
  by (simp add: tq_inv_def idle_timers_def)

lemma cancelInLoop_client:
  assumes inv: "tq_inv l" and p: "idHeap l p = Some i"
  shows "\<exists>l'. cancelInLoop p l = Inr l' \<and> client_step l l'"
proof (cases "(id_timer i, id_sequence i) \<in> activeTimers l")
  case True
  with cancelInLoop_active [OF inv p] idle_removed [OF inv] removed_inv [OF inv] show ?thesis
    by (fastforce simp: client_step_def)
next
  case False
  let ?l' = "if callingExpiredTimers l
    then l\<lparr>cancelingTimers := insert (id_timer i, id_sequence i) (cancelingTimers l)\<rparr> else l"
  have "tq_inv ?l' = tq_inv l \<and> idle_timers ?l' = idle_timers l" by (rule queue_view) simp_all
  with cancelInLoop_other [OF inv p False] inv show ?thesis
    by (auto simp: client_step_def)
qed

lemma resetTimerfd_view:
  "resetTimerfd e l = Inr l' \<Longrightarrow> \<exists>ts. l' = l\<lparr>clockReads := Suc (clockReads l), settimes := settimes l @ [ts]\<rparr>
    \<and> howMuchTimeFromNow e (fst (TimeStamp_now l)) = Inr ts"
  by (auto simp: resetTimerfd_def TimeStamp_now_def bindR_eq_Inr Let_def split: prod.splits)

lemma resetTimerfd_error: "resetTimerfd e l = Inl err \<Longrightarrow> err = Overflow"
  by (auto simp: resetTimerfd_def TimeStamp_now_def bindR_eq_Inl howMuchTimeFromNow_def i64_def Let_def
      split: prod.splits if_splits)

lemma i64_error: "i64 x = Inl err \<Longrightarrow> err = Overflow"
  by (simp add: i64_def split: if_splits)

lemma double_to_int64_error: "double_to_int64 d = Inl err \<Longrightarrow> err = Overflow"
  by (cases d) (auto dest: i64_error simp del: i64_def)

lemma addTime_error: "addTime t d = Inl err \<Longrightarrow> err = Overflow"
  unfolding addTime_def bindR_eq_Inl using i64_error double_to_int64_error by blast

lemma resetTimerfd_client:
  assumes "resetTimerfd e l = Inr l'"
  shows "tq_inv l' = tq_inv l \<and> idle_timers l' = idle_timers l"
  by (rule queue_view) (use resetTimerfd_view [OF assms] in auto)

lemma addTimerInLoop_cases:
  assumes inv: "tq_inv l" and idle: "idle_timers l a = Some t"
  shows "addTimerInLoop a l =
    (if timers l = [] then resetTimerfd (tm_expiration t) (inserted a t l) else Inr (inserted a t l))"
  using TimerQueue_insert_ok [OF assms] idle
  by (simp add: addTimerInLoop_def idle_timers_Some inserted_def)

lemma addTimerInLoop_client:
  assumes inv: "tq_inv l" and idle: "idle_timers l a = Some t" and add: "addTimerInLoop a l = Inr l'"
  shows "tq_inv l' \<and> idle_timers l' = (idle_timers l)(a := None)"
  using add addTimerInLoop_cases [OF inv idle] inserted_inv [OF inv idle] resetTimerfd_client
  by (auto simp: idle_inserted split: if_splits)

subsection \<open>Expiry\<close>

lemma sorted_split:
  assumes "sorted xs"
  shows "takeWhile (\<lambda>e. e < s) xs = filter (\<lambda>e. e < s) xs \<and> dropWhile (\<lambda>e. e < s) xs = filter (\<lambda>e. \<not> e < s) xs"
  using assms
proof (induction xs)
  case Nil
  then show ?case by simp
next
  case (Cons x xs)
  show ?case
  proof (cases "x < s")
    case True
    with Cons show ?thesis by simp
  next
    case False
    with Cons.prems have "\<forall>y \<in> set xs. \<not> y < s" by auto
    then have "filter (\<lambda>e. e < s) xs = []" "filter (\<lambda>e. \<not> e < s) xs = xs"
      by (simp_all add: filter_empty_conv)
    with False show ?thesis by simp
  qed
qed

definition due_timers :: "int \<Rightarrow> ('cb, 'k) timer_loop \<Rightarrow> timer_entry list" where
  "due_timers now l = filter (\<lambda>e. fst e \<le> now) (timers l)"

definition without_due :: "int \<Rightarrow> ('cb, 'k) timer_loop \<Rightarrow> ('cb, 'k) timer_loop" where
  "without_due now l =
     (let rest = filter (\<lambda>e. now < fst e) (timers l)
      in l\<lparr>timers := rest, activeTimers := active_of (timerHeap l) (set rest)\<rparr>)"

lemma split_due:
  assumes inv: "tq_inv l"
  shows "takeWhile (\<lambda>e. e < (now, UINTPTR_MAX)) (timers l) = due_timers now l"
    "dropWhile (\<lambda>e. e < (now, UINTPTR_MAX)) (timers l) = filter (\<lambda>e. now < fst e) (timers l)"
proof -
  have "e < (now, UINTPTR_MAX) \<longleftrightarrow> fst e \<le> now" if "e \<in> set (timers l)" for e
    using tq_invD(3) [OF inv that] tq_invD(5) [OF inv] by (cases e) auto
  then show "takeWhile (\<lambda>e. e < (now, UINTPTR_MAX)) (timers l) = due_timers now l"
    "dropWhile (\<lambda>e. e < (now, UINTPTR_MAX)) (timers l) = filter (\<lambda>e. now < fst e) (timers l)"
    using sorted_split [OF tq_invD(1) [OF inv], of "(now, UINTPTR_MAX)"]
    by (simp_all add: due_timers_def not_le cong: filter_cong)
qed

lemma without_due_inv: "tq_inv l \<Longrightarrow> tq_inv (without_due now l)"
  unfolding tq_inv_def by (simp add: without_due_def Let_def sorted_wrt_filter)

lemma foldR_erase_active:
  assumes "distinct es" and "inj_on snd (set es)"
    and "\<And>e. e \<in> set es \<Longrightarrow> \<exists>t. timerHeap l (snd e) = Some t"
    and "active_of (timerHeap l) (set es) \<subseteq> activeTimers l"
  shows "foldR erase_active es l = Inr (l\<lparr>activeTimers := activeTimers l - active_of (timerHeap l) (set es)\<rparr>)"
  using assms
proof (induction es arbitrary: l)
  case Nil
  then show ?case by (simp add: active_of_def)
next
  case (Cons e es)
  from Cons.prems(3) [of e] obtain t where t: "timerHeap l (snd e) = Some t" by auto
  let ?m = "l\<lparr>activeTimers := activeTimers l - {(snd e, tm_sequence t)}\<rparr>"
  have e: "erase_active e l = Inr ?m"
    using Cons.prems(4) t by (simp add: erase_active_def active_of_def)
  have "snd e \<notin> snd ` set es"
    using Cons.prems(1,2) by (auto simp: inj_on_def)
  then have "active_of (timerHeap l) (set es) \<subseteq> activeTimers ?m"
    using Cons.prems(4) by (force simp: active_of_def image_iff)
  with Cons.IH [of ?m] Cons.prems have
    "foldR erase_active es ?m = Inr (?m\<lparr>activeTimers := activeTimers ?m - active_of (timerHeap l) (set es)\<rparr>)"
    by simp
  moreover have "activeTimers ?m - active_of (timerHeap l) (set es)
    = activeTimers l - active_of (timerHeap l) (set (e # es))"
    using t by (auto simp: active_of_def)
  ultimately show ?case by (simp add: e)
qed

lemma active_of_diff:
  "inj_on snd es \<Longrightarrow> ds \<subseteq> es \<Longrightarrow> active_of h es - active_of h ds = active_of h (es - ds)"
  by (auto simp: active_of_def inj_on_def)

lemma getExpired_ok:
  assumes inv: "tq_inv l"
  shows "getExpired now l = Inr (due_timers now l, without_due now l)"
proof -
  let ?rest = "filter (\<lambda>e. now < fst e) (timers l)"
  have sub: "set (due_timers now l) \<subseteq> set (timers l)" by (auto simp: due_timers_def)
  have rest: "set (timers l) - set (due_timers now l) = set ?rest" by (auto simp: due_timers_def)
  have "foldR erase_active (due_timers now l) (l\<lparr>timers := ?rest\<rparr>) = Inr (without_due now l)"
  proof (subst foldR_erase_active)
    show "distinct (due_timers now l)" using tq_invD(2) [OF inv] by (simp add: due_timers_def)
    show "inj_on snd (set (due_timers now l))"
      using inj_on_subset [OF entries_inj [OF inv] sub] .
    show "\<exists>t. timerHeap (l\<lparr>timers := ?rest\<rparr>) (snd e) = Some t" if "e \<in> set (due_timers now l)" for e
      using tq_invD(3) [OF inv, of e] that sub by auto
    show "active_of (timerHeap (l\<lparr>timers := ?rest\<rparr>)) (set (due_timers now l))
        \<subseteq> activeTimers (l\<lparr>timers := ?rest\<rparr>)"
      using sub by (auto simp: tq_invD(4) [OF inv] active_of_def)
    show "Inr (l\<lparr>timers := ?rest, activeTimers := activeTimers (l\<lparr>timers := ?rest\<rparr>)
        - active_of (timerHeap (l\<lparr>timers := ?rest\<rparr>)) (set (due_timers now l))\<rparr>)
      = Inr (without_due now l)"
      by (simp add: without_due_def Let_def tq_invD(4) [OF inv]
          active_of_diff [OF entries_inj [OF inv] sub] rest)
  qed
  moreover have "?rest = [] \<or> now < fst (hd ?rest)"
    using hd_in_set [of ?rest] by auto
  ultimately show ?thesis
    using tq_sizes [OF inv] tq_sizes [OF without_due_inv [OF inv]]
    unfolding getExpired_def split_due [OF inv] Let_def by simp
qed

lemma idle_without_due:
  assumes inv: "tq_inv l" and e: "e \<in> set (due_timers now l)"
  shows "\<exists>t. idle_timers (without_due now l) (snd e) = Some t \<and> timerHeap l (snd e) = Some t"
proof -
  from e have q: "e \<in> set (timers l)" "fst e \<le> now" by (auto simp: due_timers_def)
  have "snd e \<noteq> snd d" if "d \<in> set (timers (without_due now l))" for d
    using inj_onD [OF entries_inj [OF inv], of e d] q that by (auto simp: without_due_def Let_def)
  then have "snd e \<notin> snd ` set (timers (without_due now l))" by auto
  with tq_invD(3) [OF inv q(1)] show ?thesis
    by (auto simp: idle_timers_Some without_due_def Let_def)
qed

subsection \<open>Restarting\<close>

text \<open>What \<open>reset\<close> owes one expired timer: back into the queue, or freed.\<close>

definition restarts :: "('cb, 'k) timer_loop \<Rightarrow> addr \<Rightarrow> 'k timer \<Rightarrow> bool" where
  "restarts l a t \<longleftrightarrow> tm_repeat t \<and> (a, tm_sequence t) \<notin> cancelingTimers l"

definition settled :: "int \<Rightarrow> addr \<Rightarrow> 'k timer \<Rightarrow> ('cb, 'k) timer_loop \<Rightarrow> ('cb, 'k) timer_loop \<Rightarrow> bool" where
  "settled now a t l l' \<longleftrightarrow>
     (if restarts l a t
      then \<exists>w. addTime now (tm_interval t) = Inr w
        \<and> timerHeap l' = (timerHeap l)(a \<mapsto> t\<lparr>tm_expiration := w\<rparr>)
        \<and> set (timers l') = insert (w, a) (set (timers l))
      else timerHeap l' = (timerHeap l)(a := None) \<and> set (timers l') = set (timers l))"

text \<open>
  The descriptor is set for the first timer of the queue: the last value it was given is the time from
  the last reading of the clock to the expiration of that timer.
\<close>

definition last_now :: "('cb, 'k) timer_loop \<Rightarrow> int" where
  "last_now l = (let (sec, usec) = clock l (clockReads l - 1) in sec * KMicronSecondsPerSecond + usec)"

definition armed :: "('cb, 'k) timer_loop \<Rightarrow> bool" where
  "armed l \<longleftrightarrow> (timers l \<noteq> [] \<longrightarrow> fst (hd (timers l)) > 0 \<longrightarrow>
     settimes l \<noteq> [] \<and> howMuchTimeFromNow (fst (hd (timers l))) (last_now l) = Inr (last (settimes l)))"

lemma last_now_reset: "last_now (l\<lparr>clockReads := Suc (clockReads l), settimes := ts\<rparr>) = fst (TimeStamp_now l)"
  by (simp add: last_now_def TimeStamp_now_def Let_def split: prod.split)

lemma put_idle:
  assumes inv: "tq_inv l" and idle: "idle_timers l a = Some t"
  shows "tq_inv (put_timer a t' l) \<and> idle_timers (put_timer a t' l) = (idle_timers l)(a \<mapsto> t')"
proof -
  from idle have a: "timerHeap l a = Some t" "a \<notin> snd ` set (timers l)"
    by (simp_all add: idle_timers_Some)
  then have other: "snd e \<noteq> a" if "e \<in> set (timers l)" for e using that by auto
  have "active_of ((timerHeap l)(a \<mapsto> t')) (set (timers l)) = active_of (timerHeap l) (set (timers l))"
    unfolding active_of_def by (rule image_cong) (use other in auto)
  with tq_invD [OF inv] a other show ?thesis
    by (auto simp: tq_inv_def put_timer_def idle_timers_def restrict_map_def fun_eq_iff)
qed

lemma delete_idle:
  assumes inv: "tq_inv l" and idle: "idle_timers l a = Some t"
  shows "\<exists>l'. delete_timer a l = Inr l' \<and> tq_inv l' \<and> timers l' = timers l
    \<and> timerHeap l' = (timerHeap l)(a := None) \<and> cancelingTimers l' = cancelingTimers l"
proof -
  from idle have a: "timerHeap l a = Some t" "a \<notin> snd ` set (timers l)"
    by (simp_all add: idle_timers_Some)
  then have other: "snd e \<noteq> a" if "e \<in> set (timers l)" for e using that by auto
  let ?l' = "l\<lparr>timerHeap := (timerHeap l)(a := None)\<rparr>"
  have "active_of ((timerHeap l)(a := None)) (set (timers l)) = active_of (timerHeap l) (set (timers l))"
    unfolding active_of_def by (rule image_cong) (use other in auto)
  with tq_invD [OF inv] other have "tq_inv ?l'"
    by (auto simp: tq_inv_def split: if_splits)
  with a(1) show ?thesis by (simp add: delete_timer_def)
qed

lemma settle_one:
  assumes inv: "tq_inv l" and idle: "idle_timers l a = Some t"
    and r: "r = (if tm_repeat t \<and> (a, tm_sequence t) \<notin> cancelingTimers l
      then bindR (Timer_restart now t)
            (\<lambda>t'. bindR (TimerQueue_insert a (put_timer a t' l)) (\<lambda>r. Inr (snd r)))
      else delete_timer a l)"
  shows "r = Inl Overflow \<or> (\<exists>l'. r = Inr l' \<and> tq_inv l' \<and> settled now a t l l'
    \<and> cancelingTimers l' = cancelingTimers l)"
proof (cases "restarts l a t")
  case False
  with r have "r = delete_timer a l" by (auto simp: restarts_def)
  with False delete_idle [OF inv idle] show ?thesis by (auto simp: settled_def)
next
  case True
  then have rep: "tm_repeat t" "(a, tm_sequence t) \<notin> cancelingTimers l" by (auto simp: restarts_def)
  show ?thesis
  proof (cases "addTime now (tm_interval t)")
    case (Inl e)
    with addTime_error [OF Inl] rep r show ?thesis by (simp add: Timer_restart_def)
  next
    case (Inr w)
    let ?t = "t\<lparr>tm_expiration := w\<rparr>"
    from put_idle [OF inv idle, of ?t] have p: "tq_inv (put_timer a ?t l)"
      "idle_timers (put_timer a ?t l) a = Some ?t" by auto
    have "r = Inr (inserted a ?t (put_timer a ?t l))"
      using r rep Inr TimerQueue_insert_ok [OF p] by (simp add: Timer_restart_def)
    with inserted_inv [OF p] True Inr show ?thesis
      by (simp add: settled_def inserted_def put_timer_def set_insort_key)
  qed
qed

lemma reset_one_ok:
  assumes inv: "tq_inv l" and idle: "idle_timers l a = Some t"
  shows "reset_one now (v, a) (n, l) = Inl Overflow
    \<or> (\<exists>n' l'. reset_one now (v, a) (n, l) = Inr (n', l') \<and> tq_inv l' \<and> settled now a t l l'
        \<and> cancelingTimers l' = cancelingTimers l \<and> armed l')"
proof -
  from idle have a: "timerHeap l a = Some t" by (simp add: idle_timers_Some)
  define r where "r = (if tm_repeat t \<and> (a, tm_sequence t) \<notin> cancelingTimers l
      then bindR (Timer_restart now t)
            (\<lambda>t'. bindR (TimerQueue_insert a (put_timer a t' l)) (\<lambda>r. Inr (snd r)))
      else delete_timer a l)"
  have unfold: "reset_one now (v, a) (n, l) = bindR r (\<lambda>l1.
      bindR (if timers l1 \<noteq> []
             then bindR (get_timer (snd (hd (timers l1))) l1) (\<lambda>u. Inr (tm_expiration u)) else Inr n)
       (\<lambda>next. bindR (if TimeStamp_valid next then resetTimerfd next l1 else Inr l1)
         (\<lambda>l2. Inr (next, l2))))"
    by (simp only: reset_one_def r_def Let_def prod.case get_timer_Some [OF a] snd_conv bindR_Inr)
  from settle_one [OF inv idle r_def] consider "r = Inl Overflow"
    | m where "r = Inr m" "tq_inv m" "settled now a t l m" "cancelingTimers m = cancelingTimers l"
    by blast
  then show ?thesis
  proof cases
    case 1
    then show ?thesis by (simp add: unfold)
  next
    case (2 m)
    define nx where "nx = (if timers m \<noteq> [] then fst (hd (timers m)) else n)"
    have first: "(if timers m \<noteq> []
        then bindR (get_timer (snd (hd (timers m))) m) (\<lambda>u. Inr (tm_expiration u)) else Inr n) = Inr nx"
      using tq_invD(3) [OF 2(2), of "hd (timers m)"] by (auto simp: nx_def)
    have eq: "reset_one now (v, a) (n, l)
      = bindR (if TimeStamp_valid nx then resetTimerfd nx m else Inr m) (\<lambda>l2. Inr (nx, l2))"
      by (simp only: unfold 2(1) first bindR_Inr)
    show ?thesis
    proof (cases "TimeStamp_valid nx")
      case False
      then have "armed m" by (auto simp: armed_def nx_def TimeStamp_valid_def)
      with False 2 eq show ?thesis by simp
    next
      case True
      show ?thesis
      proof (cases "resetTimerfd nx m")
        case (Inl e)
        with True eq resetTimerfd_error [OF Inl] show ?thesis by simp
      next
        case (Inr l')
        from resetTimerfd_view [OF Inr] obtain ts where
          l': "l' = m\<lparr>clockReads := Suc (clockReads m), settimes := settimes m @ [ts]\<rparr>"
          and ts: "howMuchTimeFromNow nx (last_now l') = Inr ts" by (auto simp: last_now_reset)
        have "tq_inv l'" using resetTimerfd_client [OF Inr] 2(2) by simp
        moreover have "settled now a t l l'" using 2(3) by (simp add: settled_def l')
        moreover have "armed l'" using ts unfolding armed_def nx_def by (cases "timers m = []") (simp_all add: l')
        ultimately show ?thesis using True eq Inr 2(4) by (simp add: l')
      qed
    qed
  qed
qed

definition outcome :: "int \<Rightarrow> ('cb, 'k) timer_loop \<Rightarrow> ('cb, 'k) timer_loop \<Rightarrow> addr \<Rightarrow> bool" where
  "outcome now l l' a \<longleftrightarrow> (\<exists>t. timerHeap l a = Some t \<and>
     (if restarts l a t
      then \<exists>w. addTime now (tm_interval t) = Inr w \<and> timerHeap l' a = Some (t\<lparr>tm_expiration := w\<rparr>)
        \<and> (w, a) \<in> set (timers l')
      else timerHeap l' a = None))"

definition all_settled :: "int \<Rightarrow> addr set \<Rightarrow> ('cb, 'k) timer_loop \<Rightarrow> ('cb, 'k) timer_loop \<Rightarrow> bool" where
  "all_settled now as l l' \<longleftrightarrow> (\<forall>a \<in> as. outcome now l l' a)
     \<and> (\<forall>b. b \<notin> as \<longrightarrow> timerHeap l' b = timerHeap l b)
     \<and> {e \<in> set (timers l'). snd e \<notin> as} = set (timers l)
     \<and> cancelingTimers l' = cancelingTimers l"

lemma settled_idle:
  assumes "settled now a t l m" and "idle_timers l b = Some u" and "b \<noteq> a"
  shows "idle_timers m b = Some u"
  using assms by (auto simp: settled_def idle_timers_Some split: if_splits)

lemma settled_outcome:
  assumes "settled now a t l m" and "timerHeap l a = Some t" and "all_settled now as m l'" and "a \<notin> as"
  shows "outcome now l l' a"
  using assms by (auto simp: settled_def all_settled_def outcome_def split: if_splits)

lemma settled_all:
  assumes s: "settled now a t l m" and t: "idle_timers l a = Some t" and all: "all_settled now as m l'"
    and a: "a \<notin> as" and c: "cancelingTimers m = cancelingTimers l"
  shows "all_settled now (insert a as) l l'"
proof -
  from t have ta: "timerHeap l a = Some t" "a \<notin> snd ` set (timers l)" by (auto simp: idle_timers_Some)
  have heap: "timerHeap m b = timerHeap l b" if "b \<noteq> a" for b
    using s that by (auto simp: settled_def split: if_splits)
  have "outcome now l l' b" if "b \<in> as" for b
  proof -
    have "b \<noteq> a" using that a by blast
    moreover have "outcome now m l' b" using all that by (simp add: all_settled_def)
    ultimately show ?thesis using c heap [of b] by (simp add: outcome_def restarts_def)
  qed
  with settled_outcome [OF s ta(1) all a] have "\<forall>b \<in> insert a as. outcome now l l' b" by simp
  moreover have "\<forall>b. b \<notin> insert a as \<longrightarrow> timerHeap l' b = timerHeap l b"
    using all heap by (simp add: all_settled_def)
  moreover have "{e \<in> set (timers l'). snd e \<notin> insert a as} = {e \<in> set (timers m). snd e \<noteq> a}"
    using all by (auto simp: all_settled_def)
  moreover have "{e \<in> set (timers m). snd e \<noteq> a} = set (timers l)"
    using s ta(2) by (auto simp: settled_def split: if_splits)
  ultimately show ?thesis
    using all c by (simp add: all_settled_def)
qed

lemma foldR_reset:
  assumes "tq_inv l" and "distinct (map snd es)"
    and "\<And>e. e \<in> set es \<Longrightarrow> \<exists>t. idle_timers l (snd e) = Some t"
  shows "foldR (reset_one now) es (n, l) = Inl Overflow
    \<or> (\<exists>n' l'. foldR (reset_one now) es (n, l) = Inr (n', l') \<and> tq_inv l'
        \<and> all_settled now (snd ` set es) l l' \<and> (es \<noteq> [] \<longrightarrow> armed l'))"
  using assms
proof (induction es arbitrary: n l)
  case Nil
  then show ?case by (simp add: all_settled_def)
next
  case (Cons e es)
  obtain v a where e: "e = (v, a)" by (cases e)
  from Cons.prems(3) [of e] obtain t where t: "idle_timers l a = Some t" by (auto simp: e)
  from reset_one_ok [OF Cons.prems(1) t, of now v n] consider
    "reset_one now (v, a) (n, l) = Inl Overflow"
    | k m where "reset_one now (v, a) (n, l) = Inr (k, m)" "tq_inv m" "settled now a t l m"
      "cancelingTimers m = cancelingTimers l" "armed m" by blast
  then show ?case
  proof cases
    case 1
    then show ?thesis by (simp add: e)
  next
    case (2 k m)
    have a: "a \<notin> snd ` set es" using Cons.prems(2) by (simp add: e)
    have idle: "\<exists>t. idle_timers l (snd d) = Some t" if "d \<in> set es" for d
      using Cons.prems(3) that by simp
    have "\<exists>t. idle_timers m (snd d) = Some t" if "d \<in> set es" for d
      using settled_idle [OF 2(3)] idle [OF that] that a by (metis image_eqI)
    from Cons.IH [OF 2(2) _ this, of k] Cons.prems(2) consider
      "foldR (reset_one now) es (k, m) = Inl Overflow"
      | n' l' where "foldR (reset_one now) es (k, m) = Inr (n', l')" "tq_inv l'"
        "all_settled now (snd ` set es) m l'" "es \<noteq> [] \<longrightarrow> armed l'" by auto
    then show ?thesis
    proof cases
      case 1
      then show ?thesis by (simp add: e 2(1))
    next
      case (2 n' l')
      have "all_settled now (snd ` set (e # es)) l l'"
        using settled_all [OF \<open>settled now a t l m\<close> t 2(3) a \<open>cancelingTimers m = cancelingTimers l\<close>]
        by (simp add: e)
      moreover have "armed l'"
        using 2 \<open>armed m\<close> by (cases es) auto
      ultimately show ?thesis
        using 2 \<open>reset_one now (v, a) (n, l) = Inr (k, m)\<close> by (simp add: e)
    qed
  qed
qed

section \<open>Callbacks that use the queue\<close>

text \<open>
  The contract of the code a timer runs: whenever the allocator is sound, a call keeps the queue's
  invariant and the timers outside of the queue, and it fails only for lack of memory or because a
  time leaves the range of its type.
\<close>

definition calling :: "int \<Rightarrow> ('cb, 'k) timer_loop \<Rightarrow> ('cb, 'k) timer_loop" where
  "calling now l = (without_due now l)\<lparr>callingExpiredTimers := True, cancelingTimers := {}\<rparr>"

lemma calling_view:
  "tq_inv (calling now l) = tq_inv (without_due now l)
    \<and> idle_timers (calling now l) = idle_timers (without_due now l)"
  by (rule queue_view) (simp_all add: calling_def)

lemma clock_view:
  assumes "TimeStamp_now l = (now, l1)"
  shows "tq_inv l1 = tq_inv l" "idle_timers l1 = idle_timers l" "timers l1 = timers l"
    "timerHeap l1 = timerHeap l" "settimes l1 = settimes l" "threadId l1 = threadId l"
proof -
  from assms have l1: "l1 = l\<lparr>clockReads := Suc (clockReads l)\<rparr>"
    by (auto simp: TimeStamp_now_def Let_def split: prod.splits)
  show "tq_inv l1 = tq_inv l" "idle_timers l1 = idle_timers l"
    using queue_view [of l1 l] by (simp_all add: l1)
  show "timers l1 = timers l" "timerHeap l1 = timerHeap l" "settimes l1 = settimes l"
    "threadId l1 = threadId l" by (simp_all add: l1)
qed

lemma distinct_due: "tq_inv l \<Longrightarrow> distinct (map snd (due_timers now l))"
  using entries_inj [of l] tq_invD(2) [of l]
  by (auto simp: due_timers_def distinct_map intro: inj_on_subset)

definition good_alloc :: "'k allocator \<Rightarrow> bool" where
  "good_alloc alloc \<longleftrightarrow> (\<forall>h a. alloc h = Some a \<longrightarrow> h a = None \<and> 0 < a \<and> a < UINTPTR_MAX)"

definition benign :: "cpp_error \<Rightarrow> bool" where
  "benign e \<longleftrightarrow> e = BadAlloc \<or> e = Overflow"

locale timer_client =
  fixes alloc :: "'k allocator"
    and run :: "'k \<Rightarrow> ('cb, 'k) timer_loop \<Rightarrow> ('cb, 'k) timer_loop res"
  assumes run_step: "good_alloc alloc \<Longrightarrow> tq_inv l \<Longrightarrow> run k l = Inr l' \<Longrightarrow> client_step l l'"
    and run_error: "good_alloc alloc \<Longrightarrow> tq_inv l \<Longrightarrow> run k l = Inl e \<Longrightarrow> benign e"
begin

lemma run_expired_ok:
  assumes ga: "good_alloc alloc" and "tq_inv l"
    and "\<And>e. e \<in> set es \<Longrightarrow> \<exists>t. idle_timers l (snd e) = Some t"
  shows "(\<exists>err. foldR (run_expired run) es l = Inl err \<and> benign err)
    \<or> (\<exists>l'. foldR (run_expired run) es l = Inr l' \<and> client_step l l')"
  using assms(2,3)
proof (induction es arbitrary: l)
  case Nil
  then show ?case by (simp add: client_step_refl)
next
  case (Cons e es)
  from Cons.prems(2) [of e] obtain t where t: "idle_timers l (snd e) = Some t" by auto
  then have r: "run_expired run e l = run (tm_callback t) l"
    by (simp add: run_expired_def idle_timers_Some)
  show ?case
  proof (cases "run (tm_callback t) l")
    case (Inl err)
    with run_error [OF ga Cons.prems(1)] r show ?thesis by simp
  next
    case (Inr m)
    from run_step [OF ga Cons.prems(1) this] have st: "client_step l m" .
    then have inv: "tq_inv m" and le: "idle_timers l \<subseteq>\<^sub>m idle_timers m" by (auto simp: client_step_def)
    have "\<exists>t. idle_timers m (snd d) = Some t" if "d \<in> set es" for d
      using Cons.prems(2) [of d] le that by (auto simp: map_le_def dom_def)
    from Cons.IH [OF inv this] r Inr client_step_trans [OF st] show ?thesis by auto
  qed
qed

lemma handleRead_ok:
  assumes ga: "good_alloc alloc" and inv: "tq_inv l" and now: "TimeStamp_now l = (now, l1)"
  shows "(\<exists>err. TimerQueue_handleRead run l = Inl err \<and> benign err)
    \<or> (\<exists>m l'. foldR (run_expired run) (due_timers now l) (calling now l1) = Inr m
        \<and> TimerQueue_handleRead run l = Inr l' \<and> tq_inv l'
        \<and> all_settled now (snd ` set (due_timers now l)) m l'
        \<and> (due_timers now l \<noteq> [] \<longrightarrow> armed l'))"
proof -
  let ?es = "due_timers now l" and ?c = "calling now l1"
  note l1 = clock_view [OF now]
  have inv1: "tq_inv l1" using l1 inv by simp
  have due: "due_timers now l1 = ?es" using l1 by (simp add: due_timers_def)
  have invc: "tq_inv ?c" and idlec: "idle_timers ?c = idle_timers (without_due now l1)"
    using calling_view without_due_inv [OF inv1] by auto
  have idle: "\<exists>t. idle_timers ?c (snd e) = Some t" if "e \<in> set ?es" for e
    using idle_without_due [OF inv1, of e now] that by (auto simp: due idlec)
  have unfold: "TimerQueue_handleRead run l = bindR (foldR (run_expired run) ?es ?c)
      (\<lambda>l3. TimerQueue_reset ?es now (l3\<lparr>callingExpiredTimers := False\<rparr>))"
    by (simp add: TimerQueue_handleRead_def now getExpired_ok [OF inv1] due calling_def)
  from run_expired_ok [OF ga invc idle] consider
    err where "foldR (run_expired run) ?es ?c = Inl err" "benign err"
    | m where "foldR (run_expired run) ?es ?c = Inr m" "client_step ?c m" by blast
  then show ?thesis
  proof cases
    case 1
    then show ?thesis by (simp add: unfold)
  next
    case (2 m)
    let ?m = "m\<lparr>callingExpiredTimers := False\<rparr>"
    from 2(2) have "tq_inv ?m = tq_inv m \<and> idle_timers ?m = idle_timers m"
      by (intro queue_view) simp_all
    with 2(2) have invm: "tq_inv ?m" and le: "idle_timers ?c \<subseteq>\<^sub>m idle_timers ?m"
      by (auto simp: client_step_def)
    have idlem: "\<exists>t. idle_timers ?m (snd e) = Some t" if "e \<in> set ?es" for e
      using idle [OF that] le by (auto simp: map_le_def dom_def)
    have same: "all_settled now as ?m l' = all_settled now as m l'" for as l'
      by (simp add: all_settled_def outcome_def restarts_def)
    from foldR_reset [OF invm distinct_due [OF inv, of now] idlem, where now = now and n = 0]
      2(1) show ?thesis
      unfolding same by (auto simp: unfold TimerQueue_reset_def benign_def)
  qed
qed

end

text \<open>
  Callbacks made of calls of the loop's timer interface, from the loop thread; \<open>frame\<close> is where
  \<open>cancel\<close> has its parameter. They fulfil the contract.
\<close>

datatype timer_call =
    CallRunAt int "timer_call list"
  | CallRunAfter double "timer_call list"
  | CallRunEvery double "timer_call list"
  | CallCancel timer_id

fun exec_call :: "(timer_call list) allocator \<Rightarrow> addr \<Rightarrow> timer_call
    \<Rightarrow> ('cb, timer_call list) timer_loop \<Rightarrow> ('cb, timer_call list) timer_loop res" where
  "exec_call alloc frame (CallRunAt t k) l =
     bindR (EventLoop_runAt alloc (threadId l) t k l) (\<lambda>r. Inr (snd r))"
| "exec_call alloc frame (CallRunAfter d k) l =
     bindR (EventLoop_runAfter alloc (threadId l) d k l) (\<lambda>r. Inr (snd r))"
| "exec_call alloc frame (CallRunEvery d k) l =
     bindR (EventLoop_runEvery alloc (threadId l) d k l) (\<lambda>r. Inr (snd r))"
| "exec_call alloc frame (CallCancel i) l = EventLoop_cancel (threadId l) frame i l"

definition run_script :: "(timer_call list) allocator \<Rightarrow> addr \<Rightarrow> timer_call list
    \<Rightarrow> ('cb, timer_call list) timer_loop \<Rightarrow> ('cb, timer_call list) timer_loop res" where
  "run_script alloc frame = foldR (exec_call alloc frame)"

text \<open>A new timer is outside of the queue until it is inserted.\<close>

lemma new_timer_idle:
  assumes inv: "tq_inv l" and ga: "good_alloc alloc" and a: "alloc (timerHeap l) = Some a"
  shows "tq_inv (put_timer a t (l\<lparr>numCreated := n\<rparr>))
    \<and> idle_timers (put_timer a t (l\<lparr>numCreated := n\<rparr>)) = (idle_timers l)(a \<mapsto> t)
    \<and> idle_timers l a = None"
proof -
  from a ga have fresh: "timerHeap l a = None" "a < UINTPTR_MAX" by (auto simp: good_alloc_def)
  have other: "snd e \<noteq> a" if "e \<in> set (timers l)" for e
    using tq_invD(3) [OF inv that] fresh by auto
  have "active_of ((timerHeap l)(a \<mapsto> t)) (set (timers l)) = active_of (timerHeap l) (set (timers l))"
    unfolding active_of_def by (rule image_cong) (use other in auto)
  with tq_invD [OF inv] fresh other show ?thesis
    by (auto simp: tq_inv_def put_timer_def idle_timers_def restrict_map_def fun_eq_iff)
qed

lemma addTimer_client:
  assumes inv: "tq_inv l" and ga: "good_alloc alloc"
  shows "addTimer alloc self cb when iv l = Inr (i, l') \<Longrightarrow> client_step l l'"
    and "addTimer alloc self cb when iv l = Inl e \<Longrightarrow> benign e"
proof -
  obtain t n where tn: "Timer_ctor cb when iv (numCreated l) = (t, n)" by force
  let ?p = "\<lambda>a. put_timer a t (l\<lparr>numCreated := n\<rparr>)"
  note new = new_timer_idle [OF inv ga, where t = t and n = n]
  note unfold = addTimer_def tn runInLoop_def bindR_eq_Inr bindR_eq_Inl
  have thr: "isInLoopThread self (?p a) = isInLoopThread self l" for a
    by (simp add: isInLoopThread_def put_timer_def)
  show "client_step l l'" if add: "addTimer alloc self cb when iv l = Inr (i, l')"
  proof -
    from add obtain a where a: "alloc (timerHeap l) = Some a"
      by (auto simp: addTimer_def split: option.splits)
    show ?thesis
    proof (cases "isInLoopThread self l")
      case True
      with add a have "addTimerInLoop a (?p a) = Inr l'" by (auto simp: unfold thr)
      with addTimerInLoop_client [of "?p a" a t l'] new [OF a] show ?thesis
        by (auto simp: client_step_def map_le_def)
    next
      case False
      with add a have l': "l' = queneInLoop self (AddTimerInLoop a) (?p a)" by (auto simp: unfold thr)
      have "tq_inv l' = tq_inv (?p a) \<and> idle_timers l' = idle_timers (?p a)"
        by (rule queue_view) (simp_all add: l' queue_defs)
      with new [OF a] show ?thesis by (auto simp: client_step_def map_le_def)
    qed
  qed
  show "benign e" if add: "addTimer alloc self cb when iv l = Inl e"
  proof (cases "alloc (timerHeap l)")
    case None
    with add show ?thesis by (simp add: addTimer_def benign_def)
  next
    case (Some a)
    with add have "addTimerInLoop a (?p a) = Inl e" by (auto simp: unfold Let_def split: if_splits)
    with addTimerInLoop_cases [of "?p a" a t] new [OF Some] show ?thesis
      by (auto simp: benign_def dest: resetTimerfd_error resetTimerfd_error [OF sym] split: if_splits)
  qed
qed

lemma cancel_client:
  assumes inv: "tq_inv l"
  shows "\<exists>l'. EventLoop_cancel (threadId l) frame i l = Inr l' \<and> client_step l l'"
proof -
  let ?m = "l\<lparr>idHeap := (idHeap l)(frame \<mapsto> i)\<rparr>"
  have m: "tq_inv ?m = tq_inv l \<and> idle_timers ?m = idle_timers l" by (rule queue_view) simp_all
  with inv cancelInLoop_client [of ?m frame i] obtain l2 where
    l2: "cancelInLoop frame ?m = Inr l2" "client_step ?m l2" by auto
  let ?l' = "l2\<lparr>idHeap := (idHeap l2)(frame := None)\<rparr>"
  have "tq_inv ?l' = tq_inv l2 \<and> idle_timers ?l' = idle_timers l2" by (rule queue_view) simp_all
  with l2 m show ?thesis
    by (simp add: EventLoop_cancel_def TimerQueue_cancel_def runInLoop_def isInLoopThread_def client_step_def)
qed

lemma exec_call_client:
  assumes inv: "tq_inv l" and ga: "good_alloc alloc"
  shows "(exec_call alloc frame k l = Inr l' \<longrightarrow> client_step l l')
    \<and> (exec_call alloc frame k l = Inl e \<longrightarrow> benign e)"
proof -
  obtain now l1 where now: "TimeStamp_now l = (now, l1)" by force
  have l1: "tq_inv l1" "client_step l l' = client_step l1 l'" for l'
    using clock_view [OF now] inv by (simp_all add: client_step_def)
  note add = addTimer_client [OF inv ga] addTimer_client [OF l1(1) ga]
  note unfold = EventLoop_runAt_def EventLoop_runAfter_def EventLoop_runEvery_def now
    bindR_eq_Inr bindR_eq_Inl
  have over: "benign e" if "addTime t d = Inl e" for t d
    using addTime_error [OF that] by (simp add: benign_def)
  show ?thesis
  proof (cases k)
    case (CallRunAt t c)
    with add(1,2) show ?thesis by (auto simp: unfold)
  next
    case (CallRunAfter d c)
    with add(3,4) over l1(2) show ?thesis by (auto simp: unfold)
  next
    case (CallRunEvery d c)
    with add(3,4) over l1(2) show ?thesis by (auto simp: unfold)
  next
    case (CallCancel i)
    with cancel_client [OF inv, of frame i] show ?thesis by auto
  qed
qed

lemma run_script_client:
  assumes "tq_inv l" and ga: "good_alloc alloc"
  shows "(run_script alloc frame ks l = Inr l' \<longrightarrow> client_step l l')
    \<and> (run_script alloc frame ks l = Inl e \<longrightarrow> benign e)"
  using assms(1) unfolding run_script_def
proof (induction ks arbitrary: l)
  case Nil
  then show ?case by (auto simp: client_step_refl)
next
  case (Cons k ks)
  show ?case
  proof (cases "exec_call alloc frame k l")
    case (Inl err)
    with exec_call_client [OF Cons.prems ga] show ?thesis by auto
  next
    case (Inr m)
    with exec_call_client [OF Cons.prems ga] have st: "client_step l m" by blast
    then have "tq_inv m" by (simp add: client_step_def)
    from Cons.IH [OF this] Inr client_step_trans [OF st] show ?thesis by auto
  qed
qed

interpretation scripts: timer_client alloc "run_script alloc frame" for alloc frame
  by unfold_locales (use run_script_client in blast)+

section \<open>Numbers\<close>

lemma sdiv_smod_pos:
  "0 \<le> (x :: int) \<Longrightarrow> 0 < k \<Longrightarrow> x sdiv k = x div k"
  "0 \<le> (x :: int) \<Longrightarrow> 0 < k \<Longrightarrow> x smod k = x mod k"
  by (cases "x = 0"; simp add: signed_divide_int_def signed_modulo_int_def minus_mult_div_eq_mod [symmetric])+

text \<open>The results of \<open>n\<close> increments of one counter, whichever threads make them.\<close>

primrec increments :: "nat \<Rightarrow> 'w::len word \<Rightarrow> 'w word list" where
  "increments 0 v = []"
| "increments (Suc n) v = (let (r, v') = incrementAndGet v in r # increments n v')"

lemma increments_eq: "increments n v = map (\<lambda>i. v + of_nat i) [1..<Suc n]"
proof (induction n arbitrary: v)
  case 0
  then show ?case by simp
next
  case (Suc n)
  have "[1..<Suc (Suc n)] = 1 # map Suc [1..<Suc n]"
    by (simp add: map_Suc_upt upt_conv_Cons)
  then show ?case
    using Suc [of "v + 1"] by (simp add: incrementAndGet_def addAndGet_def getAndAdd_def ac_simps)
qed

section \<open>Properties\<close>

text \<open>
  C15. Expiry is safe against anything a callback may do with the timer interface. When the timer
  descriptor fires, with callbacks that add and cancel timers at will, themselves included, no
  assertion fails and no freed timer is touched: the handler fails only for lack of memory or when
  a time leaves the range of \<open>int64_t\<close>. Otherwise every due timer has run once, in the order of
  expiration; each of them that repeats and was not cancelled meanwhile is back in the queue at
  \<open>now\<close> plus its interval, each other one is freed; all other timers are as the callbacks left
  them; and if any timer was due the descriptor is set for the first one now in the queue.
\<close>

theorem handleRead_safe:
  assumes "good_alloc alloc" and "tq_inv l" and "TimeStamp_now l = (now, l1)"
  shows "(\<exists>err. TimerQueue_handleRead (run_script alloc frame) l = Inl err \<and> (err = BadAlloc \<or> err = Overflow))
    \<or> (\<exists>m l'. foldR (run_expired (run_script alloc frame)) (due_timers now l) (calling now l1) = Inr m
        \<and> TimerQueue_handleRead (run_script alloc frame) l = Inr l' \<and> tq_inv l'
        \<and> all_settled now (snd ` set (due_timers now l)) m l'
        \<and> (due_timers now l \<noteq> [] \<longrightarrow> armed l'))"
  using scripts.handleRead_ok [OF assms] unfolding benign_def .

definition sample_alloc :: "'k allocator" where
  "sample_alloc h = (if h 8 = None then Some 8 else None)"

definition sample_timer :: "timer_call list timer" where
  "sample_timer = \<lparr>tm_callback = [CallRunAfter (Finite 1 0) []], tm_expiration = 100,
     tm_interval = Finite 2 0, tm_repeat = True, tm_sequence = 3\<rparr>"

definition no_timers :: "(nat, timer_call list) timer_loop" where
  "no_timers = event_loop.extend (loop_members 0 0)
     \<lparr>clock = (\<lambda>n. (0, 150)), clockReads = 0, timerHeap = Map.empty, idHeap = Map.empty, numCreated = 3,
      timers = [], activeTimers = {}, callingExpiredTimers = False, cancelingTimers = {}, settimes = []\<rparr>"

definition one_timer :: "(nat, timer_call list) timer_loop" where
  "one_timer = no_timers\<lparr>timerHeap := [9 \<mapsto> sample_timer], timers := [(100, 9)], activeTimers := {(9, 3)}\<rparr>"

lemma sample_alloc_good: "good_alloc sample_alloc"
  by (simp add: good_alloc_def sample_alloc_def UINTPTR_MAX_def)

lemma no_timers_fields [simp]:
  "timers no_timers = []" "timerHeap no_timers = Map.empty" "settimes no_timers = []"
  "threadId no_timers = 0" "callingExpiredTimers no_timers = False" "activeTimers no_timers = {}"
  by (simp_all add: no_timers_def event_loop.defs loop_members_def)

lemma one_timer_inv: "tq_inv one_timer"
  by (simp add: tq_inv_def one_timer_def active_of_def sample_timer_def UINTPTR_MAX_def)

lemma one_timer_now: "TimeStamp_now one_timer = (150, snd (TimeStamp_now one_timer))"
  by (simp add: TimeStamp_now_def one_timer_def no_timers_def event_loop.defs loop_members_def)

theorem handleRead_safe_witness:
  "due_timers 150 one_timer = [(100, 9)] \<and>
   ((\<exists>err. TimerQueue_handleRead (run_script sample_alloc 5) one_timer = Inl err
        \<and> (err = BadAlloc \<or> err = Overflow))
    \<or> (\<exists>m l'. foldR (run_expired (run_script sample_alloc 5)) (due_timers 150 one_timer)
          (calling 150 (snd (TimeStamp_now one_timer))) = Inr m
        \<and> TimerQueue_handleRead (run_script sample_alloc 5) one_timer = Inr l' \<and> tq_inv l'
        \<and> all_settled 150 (snd ` set (due_timers 150 one_timer)) m l' \<and> armed l'))"
  using handleRead_safe [OF sample_alloc_good one_timer_inv one_timer_now]
  by (simp add: due_timers_def one_timer_def)

text \<open>
  C16. \<open>getExpired\<close> takes exactly the timers that are due, those whose expiration is not after
  \<open>now\<close>, in order of expiration, out of both sets; the others stay; its assertions hold.
\<close>

theorem getExpired_exact:
  assumes "tq_inv l"
  shows "\<exists>l'. getExpired now l = Inr (filter (\<lambda>e. fst e \<le> now) (timers l), l')
    \<and> sorted (map fst (filter (\<lambda>e. fst e \<le> now) (timers l)))
    \<and> timers l' = filter (\<lambda>e. now < fst e) (timers l)
    \<and> activeTimers l' = active_of (timerHeap l) (set (timers l'))
    \<and> timerHeap l' = timerHeap l \<and> tq_inv l'"
proof -
  have mono: "sorted (map fst (filter P xs))" if "sorted xs" for P :: "timer_entry \<Rightarrow> bool" and xs
    using that by (induction xs) (auto simp: less_eq_prod_def)
  show ?thesis
    using getExpired_ok [OF assms, of now] without_due_inv [OF assms, of now]
      mono [OF tq_invD(1) [OF assms]]
    by (intro exI [of _ "without_due now l"]) (simp add: due_timers_def without_due_def Let_def)
qed

theorem getExpired_exact_witness:
  "\<exists>l'. getExpired 150 one_timer = Inr (filter (\<lambda>e. fst e \<le> 150) (timers one_timer), l')
    \<and> sorted (map fst (filter (\<lambda>e. fst e \<le> 150) (timers one_timer)))
    \<and> timers l' = filter (\<lambda>e. 150 < fst e) (timers one_timer)
    \<and> activeTimers l' = active_of (timerHeap one_timer) (set (timers l'))
    \<and> timerHeap l' = timerHeap one_timer \<and> tq_inv l'"
  by (rule getExpired_exact [OF one_timer_inv])

text \<open>
  C17. Cancelling from the loop thread, for every id whatsoever. If the id is that of a queued timer,
  that timer leaves both sets and is freed, and nothing else changes. Any other id, be its timer freed,
  its address taken by a newer timer, or its timer the one that is just expiring, leaves queue and heap
  as they are: outside of expiry nothing changes at all, and during expiry the id is added to
  \<open>cancelingTimers_\<close>. (\<open>frame\<close> is where the parameter of \<open>cancel\<close> lived.)
\<close>

theorem cancel_in_loop:
  assumes "tq_inv l"
  shows "\<exists>l'. EventLoop_cancel (threadId l) frame i l = Inr (l'\<lparr>idHeap := (idHeap l)(frame := None)\<rparr>) \<and> tq_inv l' \<and>
    (case timerHeap l (id_timer i) of
       Some t \<Rightarrow>
         if tm_sequence t = id_sequence i \<and> (tm_expiration t, id_timer i) \<in> set (timers l)
         then l' = l\<lparr>timers := remove1 (tm_expiration t, id_timer i) (timers l),
           activeTimers := activeTimers l - {(id_timer i, id_sequence i)}, timerHeap := (timerHeap l)(id_timer i := None)\<rparr>
         else l' = (if callingExpiredTimers l then l\<lparr>cancelingTimers := insert (id_timer i, id_sequence i) (cancelingTimers l)\<rparr> else l)
     | None \<Rightarrow> l' = (if callingExpiredTimers l then l\<lparr>cancelingTimers := insert (id_timer i, id_sequence i) (cancelingTimers l)\<rparr> else l))"
proof -
  let ?m = "l\<lparr>idHeap := (idHeap l)(frame \<mapsto> i)\<rparr>"
  let ?other = "if callingExpiredTimers l then l\<lparr>cancelingTimers := insert (id_timer i, id_sequence i) (cancelingTimers l)\<rparr> else l"
  have inv: "tq_inv ?m" using queue_view [of ?m l] assms by simp
  have unfold: "EventLoop_cancel (threadId l) frame i l = bindR (cancelInLoop frame ?m)
      (\<lambda>l1. Inr (l1\<lparr>idHeap := (idHeap l1)(frame := None)\<rparr>))"
    by (simp add: EventLoop_cancel_def TimerQueue_cancel_def runInLoop_def isInLoopThread_def)
  have other: "EventLoop_cancel (threadId l) frame i l = Inr (?other\<lparr>idHeap := (idHeap l)(frame := None)\<rparr>)" "tq_inv ?other"
    if "(id_timer i, id_sequence i) \<notin> activeTimers l"
    using cancelInLoop_other [OF inv, of frame i] that queue_view [of ?other l] assms by (simp_all add: unfold)
  show ?thesis
  proof (cases "timerHeap l (id_timer i)")
    case None
    with is_active_live [OF assms] have "(id_timer i, id_sequence i) \<notin> activeTimers l" by fastforce
    from other [OF this] None show ?thesis by (intro exI [of _ ?other]) simp
  next
    case (Some t)
    show ?thesis
    proof (cases "tm_sequence t = id_sequence i \<and> (tm_expiration t, id_timer i) \<in> set (timers l)")
      case True
      with cancelInLoop_active [OF inv, of frame i] is_active [OF assms Some] Some
      have "cancelInLoop frame ?m = Inr (removed (id_timer i) t ?m)" by auto
      moreover have "tq_inv (removed (id_timer i) t l)" using removed_inv [OF assms Some] True by blast
      ultimately show ?thesis using True Some
        by (intro exI [of _ "removed (id_timer i) t l"]) (simp add: unfold removed_def)
    next
      case False
      with is_active [OF assms Some] have "(id_timer i, id_sequence i) \<notin> activeTimers l" by auto
      from other [OF this] False Some show ?thesis by (intro exI [of _ ?other]) auto
    qed
  qed
qed

text \<open>A queued timer, an id whose timer is gone, and that id again while timers expire.\<close>

theorem cancel_in_loop_witness:
  "(\<exists>l'. EventLoop_cancel (threadId one_timer) 5 \<lparr>id_timer = 9, id_sequence = 3\<rparr> one_timer = Inr l' \<and> timers l' = [] \<and> timerHeap l' 9 = None)
    \<and> (\<exists>l'. EventLoop_cancel (threadId one_timer) 5 \<lparr>id_timer = 8, id_sequence = 2\<rparr> one_timer = Inr (l'\<lparr>idHeap := (idHeap one_timer)(5 := None)\<rparr>)
        \<and> l' = one_timer)
    \<and> (\<exists>l'. EventLoop_cancel (threadId one_timer) 5 \<lparr>id_timer = 8, id_sequence = 2\<rparr> (one_timer\<lparr>callingExpiredTimers := True\<rparr>) = Inr l'
        \<and> cancelingTimers l' = insert (8, 2) (cancelingTimers one_timer))"
proof -
  have h: "timerHeap one_timer 9 = Some sample_timer" "timerHeap one_timer 8 = None" "timers one_timer = [(100, 9)]"
    "tm_sequence sample_timer = 3" "tm_expiration sample_timer = 100" "\<not> callingExpiredTimers one_timer"
    by (simp_all add: one_timer_def sample_timer_def)
  have inv: "tq_inv (one_timer\<lparr>callingExpiredTimers := True\<rparr>)"
    using queue_view [of "one_timer\<lparr>callingExpiredTimers := True\<rparr>" one_timer] one_timer_inv by simp
  show ?thesis
    using cancel_in_loop [OF one_timer_inv, of 5 "\<lparr>id_timer = 9, id_sequence = 3\<rparr>"]
      cancel_in_loop [OF one_timer_inv, of 5 "\<lparr>id_timer = 8, id_sequence = 2\<rparr>"]
      cancel_in_loop [OF inv, of 5 "\<lparr>id_timer = 8, id_sequence = 2\<rparr>"] h
    by auto
qed

text \<open>
  C18. Cancelling from another thread is broken: \<open>EventLoop::cancel\<close> hands the queue a pointer to
  its own parameter, the functor outlives the call, and running it reads an object that is gone.
\<close>

theorem cancel_other_thread:
  assumes "tq_inv l" and "self \<noteq> threadId l" and "pendingFunctors l = []"
  shows "\<exists>l'. EventLoop_cancel self frame i l = Inr l' \<and> timers l' = timers l
    \<and> pendingFunctors l' = [CancelInLoop frame]
    \<and> doPendingFunctors exec_timer_functor l' = Inl UseAfterFree"
proof -
  let ?m = "l\<lparr>idHeap := (idHeap l)(frame \<mapsto> i)\<rparr>"
  let ?l' = "(queneInLoop self (CancelInLoop frame) ?m)\<lparr>idHeap := (idHeap ?m)(frame := None)\<rparr>"
  have c: "EventLoop_cancel self frame i l = Inr ?l'"
    using assms(2) by (simp add: EventLoop_cancel_def TimerQueue_cancel_def runInLoop_def queue_defs)
  have "sizes_agree (?l'\<lparr>callingPendingFunctors := True, pendingFunctors := []\<rparr>)"
    using tq_sizes [OF assms(1)] assms(2) by (simp add: sizes_agree_def queue_defs)
  then have "doPendingFunctors exec_timer_functor ?l' = Inl UseAfterFree"
    using assms(2,3) by (simp add: doPendingFunctors_def takePending_def cancelInLoop_def queue_defs)
  with c assms(2,3) show ?thesis by (simp add: queue_defs)
qed

theorem cancel_other_thread_witness:
  "\<exists>l'. EventLoop_cancel 4 5 \<lparr>id_timer = 9, id_sequence = 3\<rparr> one_timer = Inr l'
    \<and> timers l' = timers one_timer \<and> pendingFunctors l' = [CancelInLoop 5]
    \<and> doPendingFunctors exec_timer_functor l' = Inl UseAfterFree"
  by (rule cancel_other_thread [OF one_timer_inv])
    (simp_all add: one_timer_def no_timers_def event_loop.defs loop_members_def)

text \<open>
  C19. When the timer descriptor is set. A timer added to an empty queue becomes its only entry, and
  the descriptor is given exactly the time from the clock reading made then to the expiration of that
  timer (or the call fails because that difference is not an \<open>int64_t\<close>). In two cases in which it
  should be set it is not: a timer added before all others, although the comment in \<open>addTimerInLoop\<close>
  says so, leaves it where it was; and when the handler runs and nothing is due yet, it is not set
  again, although it is a one-shot timer and timers are waiting.
\<close>

theorem timerfd_arming:
  assumes "tq_inv l" and "idle_timers l a = Some t"
  shows "(timers l = [] \<longrightarrow> (case howMuchTimeFromNow (tm_expiration t) (fst (TimeStamp_now l)) of
        Inl e \<Rightarrow> addTimerInLoop a l = Inl e
      | Inr ts \<Rightarrow> (\<exists>l'. addTimerInLoop a l = Inr l' \<and> timers l' = [(tm_expiration t, a)] \<and> settimes l' = settimes l @ [ts])))
    \<and> (timers l \<noteq> [] \<longrightarrow> (\<exists>l'. addTimerInLoop a l = Inr l' \<and> settimes l' = settimes l
        \<and> ((\<forall>e \<in> set (timers l). (tm_expiration t, a) < e) \<longrightarrow> hd (timers l') = (tm_expiration t, a))))
    \<and> (due_timers (fst (TimeStamp_now l)) l = [] \<longrightarrow>
        (\<exists>l'. TimerQueue_handleRead run l = Inr l' \<and> timers l' = timers l \<and> settimes l' = settimes l))"
proof (intro conjI impI)
  assume e: "timers l = []"
  have "fst (TimeStamp_now (inserted a t l)) = fst (TimeStamp_now l)"
    by (simp add: TimeStamp_now_def inserted_def Let_def split: prod.split)
  with e addTimerInLoop_cases [OF assms]
  show "case howMuchTimeFromNow (tm_expiration t) (fst (TimeStamp_now l)) of
        Inl e \<Rightarrow> addTimerInLoop a l = Inl e
      | Inr ts \<Rightarrow> (\<exists>l'. addTimerInLoop a l = Inr l' \<and> timers l' = [(tm_expiration t, a)] \<and> settimes l' = settimes l @ [ts])"
    by (cases "clock l (clockReads l)") (simp add: resetTimerfd_def TimeStamp_now_def inserted_def Let_def split: sum.split)
next
  assume ne: "timers l \<noteq> []"
  have "hd (insort x xs) = x" if "\<forall>e \<in> set xs. x < e" for x :: timer_entry and xs
    using that by (cases xs) auto
  with ne addTimerInLoop_cases [OF assms]
  show "\<exists>l'. addTimerInLoop a l = Inr l' \<and> settimes l' = settimes l
        \<and> ((\<forall>e \<in> set (timers l). (tm_expiration t, a) < e) \<longrightarrow> hd (timers l') = (tm_expiration t, a))"
    by (simp add: inserted_def)
next
  obtain now l1 where now: "TimeStamp_now l = (now, l1)" by force
  assume "due_timers (fst (TimeStamp_now l)) l = []"
  then have due: "due_timers now l1 = []" "due_timers now l = []"
    using clock_view [OF now] now by (simp_all add: due_timers_def)
  then have "filter (\<lambda>e. now < fst e) (timers l1) = timers l1"
    by (auto simp: due_timers_def filter_empty_conv intro!: filter_True)
  with due clock_view [OF now] assms(1) getExpired_ok [of l1 now]
  show "\<exists>l'. TimerQueue_handleRead run l = Inr l' \<and> timers l' = timers l \<and> settimes l' = settimes l"
    by (simp add: TimerQueue_handleRead_def now TimerQueue_reset_def without_due_def)
qed

definition earlier_timer :: "timer_call list timer" where
  "earlier_timer = sample_timer\<lparr>tm_expiration := 50, tm_sequence := 4\<rparr>"

definition two_timers :: "(nat, timer_call list) timer_loop" where
  "two_timers = put_timer 8 earlier_timer one_timer"

lemma two_timers_ok: "tq_inv two_timers" "idle_timers two_timers 8 = Some earlier_timer"
  "timers two_timers = [(100, 9)]"
  by (simp_all add: two_timers_def put_timer_def tq_inv_def one_timer_def active_of_def sample_timer_def
      UINTPTR_MAX_def idle_timers_def)

definition first_timer :: "(nat, timer_call list) timer_loop" where
  "first_timer = put_timer 9 (sample_timer\<lparr>tm_expiration := 3000250\<rparr>) no_timers"

theorem timerfd_arming_witness:
  "(\<exists>l'. addTimerInLoop 8 two_timers = Inr l' \<and> settimes l' = settimes two_timers \<and> hd (timers l') = (50, 8))
    \<and> (\<exists>l'. addTimerInLoop 9 first_timer = Inr l' \<and> settimes l' = [(3, 100000)])"
proof -
  have f: "tq_inv first_timer" "idle_timers first_timer 9 = Some (sample_timer\<lparr>tm_expiration := 3000250\<rparr>)" "timers first_timer = []"
    "fst (TimeStamp_now first_timer) = 150" "settimes first_timer = []"
    by (simp_all add: first_timer_def put_timer_def tq_inv_def active_of_def UINTPTR_MAX_def idle_timers_def TimeStamp_now_def)
      (simp add: no_timers_def event_loop.defs)
  have "howMuchTimeFromNow 3000250 150 = Inr (3, 100000)"
    by (simp add: howMuchTimeFromNow_def i64_def KMicronSecondsPerSecond_def sdiv_smod_pos)
  then have "\<exists>l'. addTimerInLoop 9 first_timer = Inr l' \<and> settimes l' = [(3, 100000)]"
    using timerfd_arming [OF f(1,2)] f(3-5) by auto
  moreover have "\<exists>l'. addTimerInLoop 8 two_timers = Inr l' \<and> settimes l' = settimes two_timers \<and> hd (timers l') = (50, 8)"
    using timerfd_arming [OF two_timers_ok(1,2)] two_timers_ok(3) by (simp add: earlier_timer_def)
  ultimately show ?thesis by blast
qed

text \<open>
  C20. The relative time given to the timer descriptor is always valid and never the zero that
  would disarm it: it is the distance to the expiration, or 100 microseconds when that is shorter
  or past, split into seconds and nanoseconds below a second.
\<close>

theorem howMuchTimeFromNow_valid:
  assumes "howMuchTimeFromNow when now = Inr (sec, nsec)"
  shows "0 \<le> sec \<and> 0 \<le> nsec \<and> nsec < 1000000000
    \<and> sec * 1000000000 + nsec = max 100 (when - now) * 1000 \<and> (sec, nsec) \<noteq> (0, 0)"
proof -
  let ?d = "if when - now < 100 then 100 else when - now"
  from assms have "sec = ?d sdiv KMicronSecondsPerSecond" "nsec = ?d smod KMicronSecondsPerSecond * 1000"
    by (auto simp: howMuchTimeFromNow_def bindR_eq_Inr i64_def Let_def split: if_splits)
  then have s: "sec = ?d div 1000000" "nsec = ?d mod 1000000 * 1000"
    by (simp_all add: sdiv_smod_pos KMicronSecondsPerSecond_def)
  have "sec * 1000000000 + nsec = (?d div 1000000 * 1000000 + ?d mod 1000000) * 1000"
    unfolding s by (simp only: algebra_simps)
  also have "\<dots> = max 100 (when - now) * 1000"
    by (simp only: div_mult_mod_eq) (simp add: max_def)
  finally have total: "sec * 1000000000 + nsec = max 100 (when - now) * 1000" .
  then have "(sec, nsec) \<noteq> (0, 0)" by auto
  moreover have "0 \<le> sec" "0 \<le> nsec" "nsec < 1000000000"
    using pos_mod_bound [of 1000000 ?d] by (simp_all add: s pos_imp_zdiv_nonneg_iff)
  ultimately show ?thesis using total by blast
qed

theorem howMuchTimeFromNow_valid_witness:
  "howMuchTimeFromNow 5000000 2500000 = Inr (2, 500000000) \<and>
   (0 \<le> (2 :: int) \<and> 0 \<le> (500000000 :: int) \<and> (500000000 :: int) < 1000000000
    \<and> (2 :: int) * 1000000000 + 500000000 = max 100 (5000000 - 2500000) * 1000
    \<and> (2, 500000000) \<noteq> (0 :: int, 0 :: int))"
proof -
  have h: "howMuchTimeFromNow 5000000 2500000 = Inr (2, 500000000)"
    by (simp add: howMuchTimeFromNow_def i64_def sdiv_smod_pos KMicronSecondsPerSecond_def)
  show ?thesis using howMuchTimeFromNow_valid [OF h] h by blast
qed

text \<open>
  Sequence numbers are unique: up to the width of the counter, no two increments of an atomic
  counter return the same value, in whatever order threads make them.
\<close>

lemma increments_distinct:
  assumes "n < 2 ^ LENGTH('w)"
  shows "distinct (increments n (v :: 'w::len word))"
proof -
  have "inj_on (\<lambda>i. v + of_nat i) (set [1..<Suc n])"
  proof (rule inj_onI)
    fix i j assume "i \<in> set [1..<Suc n]" "j \<in> set [1..<Suc n]" "v + of_nat i = v + of_nat j"
    then have "(of_nat i :: 'w word) = of_nat j" "i < 2 ^ LENGTH('w)" "j < 2 ^ LENGTH('w)"
      using assms by auto
    moreover have "unat (of_nat k :: 'w word) = k" if "k < 2 ^ LENGTH('w)" for k
      using that by (simp add: unsigned_of_nat take_bit_nat_eq_self)
    ultimately show "i = j" by metis
  qed
  then show ?thesis by (simp only: increments_eq distinct_map distinct_upt simp_thms)
qed

text \<open>
  \<open>toString\<close> masks the microseconds with \<open>&\<close> where the remainder is meant, so different times
  print alike.
\<close>

lemma toString_loses_microseconds: "TimeStamp_toString 1500001 = TimeStamp_toString 1500000"
  by (simp add: TimeStamp_toString_def KMicronSecondsPerSecond_def sdiv_smod_pos)

end
