(* ===== verification/Tcp_Server.thy ===== *)
theory Tcp_Server
  imports Inet_Address Tcp_Connection Timers "HOL-Library.Multiset"
begin

text \<open>
  \<open>net/EventLoopThreadPool\<close>, \<open>net/Acceptor\<close> and \<open>net/TcpServer\<close>. The server holds the loops its
  connections live in: it constructs a connection in its loop and queues functors there, and the
  loops go on by themselves in between. \<open>srv_posts\<close> is the history of what the server asked of which loop
  (besides what it really does to that loop); that a loop executes what it is asked once and in order is the subject of the event loop's
  theory. The addresses of new objects and the descriptors the kernel hands out are arguments.
\<close>

section \<open>The pool of loops\<close>

record loop_pool =
  baseLoop :: addr
  pool_name :: string
  pool_started :: bool
  numThreads :: int
  next_loop :: nat
  pool_threads :: "string list"
  loops :: "addr list"
  initialised :: "addr list"

definition EventLoopThreadPool_ctor :: "addr \<Rightarrow> string \<Rightarrow> loop_pool" where
  "EventLoopThreadPool_ctor base nm =
     \<lparr>baseLoop = base, pool_name = nm, pool_started = False, numThreads = 0, next_loop = 0,
      pool_threads = [], loops = [], initialised = []\<rparr>"

definition pool_setThreadNum :: "int \<Rightarrow> loop_pool \<Rightarrow> loop_pool" where
  "pool_setThreadNum n p = p\<lparr>numThreads := n\<rparr>"

text \<open>
  \<open>startLoop i\<close> is the loop the \<open>i\<close>-th thread reports; \<open>cb\<close> says whether an initialisation
  callback is set, which each thread calls with its loop before it reports it.
\<close>

definition start_thread :: "(nat \<Rightarrow> addr) \<Rightarrow> bool \<Rightarrow> nat \<Rightarrow> loop_pool \<Rightarrow> loop_pool" where
  "start_thread startLoop cb i p =
     p\<lparr>pool_threads := pool_threads p @ [take (length (pool_name p) + 31) (pool_name p @ show_nat i)],
       initialised := (if cb then initialised p @ [startLoop i] else initialised p),
       loops := loops p @ [startLoop i]\<rparr>"

definition pool_start :: "(nat \<Rightarrow> addr) \<Rightarrow> bool \<Rightarrow> loop_pool \<Rightarrow> loop_pool res" where
  "pool_start startLoop cb p =
     cassert (\<not> pool_started p)
       (let p1 = fold (start_thread startLoop cb) [0..<nat (numThreads p)] (p\<lparr>pool_started := True\<rparr>)
        in Inr (if numThreads p1 = 0 \<and> cb then p1\<lparr>initialised := initialised p1 @ [baseLoop p1]\<rparr> else p1))"

definition getNextLoop :: "loop_pool \<Rightarrow> (addr \<times> loop_pool) res" where
  "getNextLoop p =
     cassert (pool_started p)
       (if loops p \<noteq> []
        then if next_loop p < length (loops p)
             then let loop = loops p ! next_loop p; n = next_loop p + 1
                  in Inr (loop, p\<lparr>next_loop := (if n \<ge> length (loops p) then 0 else n)\<rparr>)
             else Inl OutOfBounds
        else Inr (baseLoop p, p))"

section \<open>The acceptor\<close>

datatype accept_result = Accepted fd saddr | AcceptErr int

definition EMFILE :: int where "EMFILE = 24"

record ('cb, 'f) acc_loop = "('cb, 'f) event_loop" +
  acceptFd :: fd
  acceptChannel :: addr
  hasNewConnectionCallback :: bool
  listenning :: bool
  idleFd :: fd
  acc_opts :: "(fd \<times> sock_opt \<times> bool) list"
  bind_calls :: "(fd \<times> saddr \<times> nat) list"
  listen_calls :: "fd list"
  closed_fds :: "fd list"

text \<open>\<open>sizeof(sizeof(struct sockaddr_in6))\<close>, the length \<open>bindOrDie\<close> passes: the size of a \<open>size_t\<close>.\<close>

definition bind_len :: nat where
  "bind_len = 8"

definition bindOrDie :: "fd \<Rightarrow> saddr \<Rightarrow> ('cb, 'f) acc_loop \<Rightarrow> ('cb, 'f) acc_loop" where
  "bindOrDie sockfd a l = l\<lparr>bind_calls := bind_calls l @ [(sockfd, a, bind_len)]\<rparr>"

definition Socket_bindAddress :: "fd \<Rightarrow> inet_address \<Rightarrow> ('cb, 'f) acc_loop \<Rightarrow> ('cb, 'f) acc_loop res" where
  "Socket_bindAddress sockfd ia l = bindR (getSockAddr ia) (\<lambda>a. Inr (bindOrDie sockfd a l))"

definition listenOrDie :: "fd \<Rightarrow> ('cb, 'f) acc_loop \<Rightarrow> ('cb, 'f) acc_loop" where
  "listenOrDie sockfd l = l\<lparr>listen_calls := listen_calls l @ [sockfd]\<rparr>"

definition Socket_listen :: "fd \<Rightarrow> ('cb, 'f) acc_loop \<Rightarrow> ('cb, 'f) acc_loop" where
  "Socket_listen sockfd l = listenOrDie sockfd l"

text \<open>
  \<open>sockets::accept\<close>: the descriptor (negative after an error), the address the kernel filled in,
  and \<open>errno\<close>. Every case of the switch over the errors only logs; the expected ones write \<open>errno\<close> back.
\<close>

definition sockets_accept :: "accept_result \<Rightarrow> saddr \<Rightarrow> fd \<times> saddr \<times> int" where
  "sockets_accept answer a =
     (case answer of Accepted connfd peer \<Rightarrow> (connfd, peer, 0) | AcceptErr savedErrno \<Rightarrow> (- 1, a, savedErrno))"

definition Socket_accept :: "accept_result \<Rightarrow> inet_address \<Rightarrow> fd \<times> inet_address \<times> int" where
  "Socket_accept answer peeraddr =
     (let (connfd, a, errno) = sockets_accept answer zero_saddr
      in (connfd, if connfd \<ge> 0 then setSockAddrInet6 a peeraddr else peeraddr, errno))"

definition Socket_setReuseAddr :: "fd \<Rightarrow> bool \<Rightarrow> ('cb, 'f) acc_loop \<Rightarrow> ('cb, 'f) acc_loop" where
  "Socket_setReuseAddr sockfd on l = l\<lparr>acc_opts := acc_opts l @ [(sockfd, SO_REUSEADDR, on)]\<rparr>"

definition Socket_setReusePort :: "fd \<Rightarrow> bool \<Rightarrow> ('cb, 'f) acc_loop \<Rightarrow> ('cb, 'f) acc_loop" where
  "Socket_setReusePort sockfd on l = l\<lparr>acc_opts := acc_opts l @ [(sockfd, SO_REUSEPORT, on)]\<rparr>"

definition sockets_close :: "fd \<Rightarrow> ('cb, 'f) acc_loop \<Rightarrow> ('cb, 'f) acc_loop" where
  "sockets_close sockfd l = l\<lparr>closed_fds := closed_fds l @ [sockfd]\<rparr>"

definition Acceptor_ctor :: "addr \<Rightarrow> fd \<Rightarrow> fd \<Rightarrow> 'cb \<Rightarrow> inet_address \<Rightarrow> bool \<Rightarrow> ('cb, 'f) acc_loop
    \<Rightarrow> ('cb, 'f) acc_loop res" where
  "Acceptor_ctor c sockfd idle cb listenAddr reuseport l =
     bindR (ia_family listenAddr) (\<lambda>family.
       let l1 = newChannel c sockfd (l\<lparr>acceptFd := sockfd, acceptChannel := c, listenning := False,
                  hasNewConnectionCallback := False, idleFd := idle\<rparr>)
       in cassert (idle \<ge> 0)
           (bindR (Socket_bindAddress sockfd listenAddr
                    (Socket_setReusePort sockfd reuseport (Socket_setReuseAddr sockfd True l1)))
             (setReadCallback c cb)))"

definition Acceptor_listen :: "('cb, 'f) acc_loop \<Rightarrow> ('cb, 'f) acc_loop res" where
  "Acceptor_listen l = enableReading (acceptChannel l) (Socket_listen (acceptFd l) (l\<lparr>listenning := True\<rparr>))"

text \<open>
  \<open>onNew\<close> is the installed callback. With no free descriptor (\<open>EMFILE\<close>) the idle one is given up
  to accept and drop the connection: \<open>second\<close> is what the second \<open>accept\<close> returns and \<open>reopened\<close>
  what opening \<open>/dev/null\<close> again returns.
\<close>

definition Acceptor_handleRead :: "(fd \<Rightarrow> inet_address \<Rightarrow> ('cb, 'f) acc_loop \<Rightarrow> ('cb, 'f) acc_loop res)
    \<Rightarrow> accept_result \<Rightarrow> fd \<Rightarrow> fd \<Rightarrow> endianness \<Rightarrow> ('cb, 'f) acc_loop \<Rightarrow> ('cb, 'f) acc_loop res" where
  "Acceptor_handleRead onNew answer second reopened host l =
     (let (connfd, peerAddr, errno) = Socket_accept answer (InetAddress_port host 0 False False)
      in if connfd \<ge> 0
         then if hasNewConnectionCallback l then onNew connfd peerAddr l else Inr (sockets_close connfd l)
         else if errno = EMFILE
         then let l1 = sockets_close (idleFd l) l; l2 = sockets_close second (l1\<lparr>idleFd := second\<rparr>)
              in Inr (l2\<lparr>idleFd := reopened\<rparr>)
         else Inr l)"

definition Acceptor_dtor :: "('cb, 'f) acc_loop \<Rightarrow> ('cb, 'f) acc_loop res" where
  "Acceptor_dtor l =
     bindR (disableAll (acceptChannel l) l)
      (\<lambda>l1. bindR (Channel_remove (acceptChannel l1) l1)
        (\<lambda>l2. Channel_dtor (acceptChannel l2) (sockets_close (idleFd l2) l2)))"

definition Acceptor_setNewConnectionCallback :: "('cb, 'f) acc_loop \<Rightarrow> ('cb, 'f) acc_loop" where
  "Acceptor_setNewConnectionCallback l = l\<lparr>hasNewConnectionCallback := True\<rparr>"

section \<open>The server\<close>

text \<open>The callbacks a server hands to its connections: the library's own, and the user's.\<close>

datatype 'v srv_cb = UserCb 'v | DefaultConnectionCb | DefaultMessageCb | ServerRemoveCb

datatype srv_functor =
    SrvConnectEstablished addr
  | SrvConnectDestroyed addr
  | SrvRemoveConnection addr
  | SrvListen

text \<open>A request to a loop: \<open>runInLoop\<close> or \<open>queneInLoop\<close>.\<close>

datatype post = RunInLoop addr srv_functor | QueueInLoop addr srv_functor

record 'v tcp_server =
  srv_loop :: addr
  srv_ipPort :: string
  srv_name :: string
  srv_pool :: loop_pool
  srv_connectionCallback :: "'v srv_cb option"
  srv_messageCallback :: "'v srv_cb option"
  srv_writeCompleteCallback :: "'v srv_cb option"
  srv_hasInit :: bool
  srv_started :: "32 word"
  nextConnId :: int
  connections :: "string \<rightharpoonup> addr"
  srv_homes :: "addr \<rightharpoonup> addr"
  srv_loops :: "addr \<Rightarrow> 'v srv_cb conn_loop"
  srv_posts :: "post list"

text \<open>
  The constructor, with the acceptor it creates in the base loop (given by its acceptor's part).
  \<open>started_\<close> is initialised by its own constructor.
\<close>

definition TcpServer_ctor :: "endianness \<Rightarrow> ntop \<Rightarrow> addr \<times> fd \<times> fd \<times> 'cb \<Rightarrow> (addr \<Rightarrow> 'v srv_cb conn_loop) \<Rightarrow> inet_address
    \<Rightarrow> string \<Rightarrow> bool \<Rightarrow> ('cb, 'f) acc_loop \<Rightarrow> ('v tcp_server \<times> ('cb, 'f) acc_loop) res" where
  "TcpServer_ctor host inet_ntop acceptor ls listenAddr nameArg kReusePort l =
     (let (c, sockfd, idle, cb) = acceptor
      in bindR (tpIPPort host inet_ntop listenAddr) (\<lambda>ipPort.
         bindR (Acceptor_ctor c sockfd idle cb listenAddr kReusePort l) (\<lambda>l1.
           Inr (\<lparr>srv_loop = loopId l, srv_ipPort = ipPort, srv_name = nameArg,
                 srv_pool = EventLoopThreadPool_ctor (loopId l) nameArg,
                 srv_connectionCallback = Some DefaultConnectionCb, srv_messageCallback = Some DefaultMessageCb,
                 srv_writeCompleteCallback = None, srv_hasInit = False, srv_started = atomic_init,
                 nextConnId = 1, connections = Map.empty, srv_homes = Map.empty, srv_loops = ls, srv_posts = []\<rparr>,
                Acceptor_setNewConnectionCallback l1))))"

definition TcpServer_setThreadNum :: "int \<Rightarrow> 'v tcp_server \<Rightarrow> 'v tcp_server res" where
  "TcpServer_setThreadNum n s = cassert (0 \<le> n) (Inr (s\<lparr>srv_pool := pool_setThreadNum n (srv_pool s)\<rparr>))"

definition TcpServer_setThreadInitCallback :: "'v tcp_server \<Rightarrow> 'v tcp_server" where
  "TcpServer_setThreadInitCallback s = s\<lparr>srv_hasInit := True\<rparr>"

definition TcpServer_setConnectionCallback :: "'v srv_cb option \<Rightarrow> 'v tcp_server \<Rightarrow> 'v tcp_server" where
  "TcpServer_setConnectionCallback cb s = s\<lparr>srv_connectionCallback := cb\<rparr>"

definition TcpServer_setMessageCallback :: "'v srv_cb option \<Rightarrow> 'v tcp_server \<Rightarrow> 'v tcp_server" where
  "TcpServer_setMessageCallback cb s = s\<lparr>srv_messageCallback := cb\<rparr>"

definition TcpServer_setWriteCompleteCallback :: "'v srv_cb option \<Rightarrow> 'v tcp_server \<Rightarrow> 'v tcp_server" where
  "TcpServer_setWriteCompleteCallback cb s = s\<lparr>srv_writeCompleteCallback := cb\<rparr>"

text \<open>\<open>listening\<close> is whether the server's acceptor already listens.\<close>

definition TcpServer_start :: "(nat \<Rightarrow> addr) \<Rightarrow> bool \<Rightarrow> 'v tcp_server \<Rightarrow> 'v tcp_server res" where
  "TcpServer_start startLoop listening s =
     (let (old, v) = getAndSet 1 (srv_started s); s1 = s\<lparr>srv_started := v\<rparr>
      in if old = 0
         then bindR (pool_start startLoop (srv_hasInit s1) (srv_pool s1)) (\<lambda>p.
                cassert (\<not> listening)
                  (Inr (s1\<lparr>srv_pool := p, srv_posts := srv_posts s1 @ [RunInLoop (srv_loop s1) SrvListen]\<rparr>)))
         else Inr s1)"

text \<open>\<open>snprintf(buf, 64, "-%s#%d", ...)\<close> cuts after 63 characters.\<close>

definition connName :: "string \<Rightarrow> string \<Rightarrow> int \<Rightarrow> string" where
  "connName nm ipPort connId = nm @ take 63 (''-'' @ ipPort @ ''#'' @ show_int connId)"

text \<open>A new connection in its loop, with the callbacks of the server.\<close>

definition build_conn :: "addr \<Rightarrow> addr \<Rightarrow> string \<Rightarrow> fd \<Rightarrow> inet_address \<Rightarrow> inet_address
    \<Rightarrow> 'v tcp_server \<Rightarrow> 'v srv_cb conn_loop \<Rightarrow> 'v srv_cb conn_loop res" where
  "build_conn k c cname sockfd localAddr peerAddr s l =
     bindR (TcpConnection_ctor k c cname sockfd localAddr peerAddr l) (\<lambda>l1.
     bindR (setConnectionCallback k (srv_connectionCallback s) l1) (\<lambda>l2.
     bindR (setMessageCallback k (srv_messageCallback s) l2) (\<lambda>l3.
     bindR (setWriteCompleteCallback k (srv_writeCompleteCallback s) l3) (\<lambda>l4.
     conn_setCloseCallback k (Some ServerRemoveCb) l4))))"

text \<open>
  \<open>k\<close> and \<open>c\<close> are the addresses of the connection and of its channel, \<open>self\<close> is the calling
  thread and \<open>exec\<close> what running a functor at once does. Nothing follows the last call, so a
  removal that it may cause is a later step of the server.
\<close>

definition TcpServer_newConnection :: "('v srv_cb conn_functor \<Rightarrow> 'v srv_cb conn_loop \<Rightarrow> 'v srv_cb conn_loop res)
    \<Rightarrow> tid \<Rightarrow> addr \<Rightarrow> addr \<Rightarrow> saddr option \<Rightarrow> fd \<Rightarrow> inet_address \<Rightarrow> 'v tcp_server \<Rightarrow> 'v tcp_server res" where
  "TcpServer_newConnection exec self k c sockname sockfd peerAddr s =
     bindR (getNextLoop (srv_pool s)) (\<lambda>(ioLoop, p).
       bindR (if nextConnId s + 1 < 2 ^ 31 then Inr (nextConnId s + 1) else Inl Overflow) (\<lambda>nid.
         let cname = connName (srv_name s) (srv_ipPort s) (nextConnId s);
             localAddr = InetAddress_of6 (getLocalAddr sockname)
         in bindR (build_conn k c cname sockfd localAddr peerAddr s (srv_loops s ioLoop)) (\<lambda>l1.
            bindR (runInLoop exec self (ConnectEstablished k) l1) (\<lambda>l2.
              Inr (s\<lparr>srv_pool := p, nextConnId := nid, connections := (connections s)(cname \<mapsto> k),
                srv_homes := (srv_homes s)(k \<mapsto> ioLoop), srv_loops := (srv_loops s)(ioLoop := l2),
                srv_posts := srv_posts s @ [RunInLoop ioLoop (SrvConnectEstablished k)]\<rparr>)))))"

definition TcpServer_removeConnection :: "addr \<Rightarrow> 'v tcp_server \<Rightarrow> 'v tcp_server" where
  "TcpServer_removeConnection k s =
     s\<lparr>srv_posts := srv_posts s @ [RunInLoop (srv_loop s) (SrvRemoveConnection k)]\<rparr>"

definition removeConnectionInLoop :: "tid \<Rightarrow> addr \<Rightarrow> 'v tcp_server \<Rightarrow> 'v tcp_server res" where
  "removeConnectionInLoop self k s =
     (case srv_homes s k of
        None \<Rightarrow> Inl UseAfterFree
      | Some ioLoop \<Rightarrow>
          bindR (get_conn k (srv_loops s ioLoop)) (\<lambda>cn.
            cassert (connections s (conn_name cn) \<noteq> None)
              (Inr (s\<lparr>connections := (connections s)(conn_name cn := None),
                srv_loops := (srv_loops s)(ioLoop := queneInLoop self (ConnectDestroyed k) (srv_loops s ioLoop)),
                srv_posts := srv_posts s @ [QueueInLoop ioLoop (SrvConnectDestroyed k)]\<rparr>))))"

section \<open>Round robin\<close>

fun next_loops :: "nat \<Rightarrow> loop_pool \<Rightarrow> (addr list \<times> loop_pool) res" where
  "next_loops 0 p = Inr ([], p)"
| "next_loops (Suc n) p =
     bindR (getNextLoop p) (\<lambda>(l, p1). bindR (next_loops n p1) (\<lambda>(ls, p2). Inr (l # ls, p2)))"

definition pool_ok :: "loop_pool \<Rightarrow> bool" where
  "pool_ok p \<longleftrightarrow> pool_started p \<and> (loops p \<noteq> [] \<longrightarrow> next_loop p < length (loops p))"

lemma getNextLoop_ok:
  assumes "pool_ok p" and "loops p \<noteq> []"
  shows "getNextLoop p = Inr (loops p ! next_loop p, p\<lparr>next_loop := Suc (next_loop p) mod length (loops p)\<rparr>)"
proof -
  have "(if Suc (next_loop p) \<ge> length (loops p) then 0 else Suc (next_loop p))
    = Suc (next_loop p) mod length (loops p)"
    using assms by (auto simp: pool_ok_def) (metis Suc_leI le_antisym mod_self)
  with assms show ?thesis by (simp add: getNextLoop_def pool_ok_def)
qed

lemma getNextLoop_total:
  assumes "pool_ok p"
  shows "\<exists>l p'. getNextLoop p = Inr (l, p') \<and> pool_ok p'"
proof (cases "loops p = []")
  case True
  with assms show ?thesis by (simp add: getNextLoop_def pool_ok_def)
next
  case False
  with getNextLoop_ok [OF assms] assms show ?thesis by (simp add: pool_ok_def)
qed

lemma next_loops_ok:
  assumes "pool_ok p" and "loops p \<noteq> []"
  shows "\<exists>p'. next_loops n p = Inr (map (\<lambda>i. loops p ! ((next_loop p + i) mod length (loops p))) [0..<n], p')"
  using assms
proof (induction n arbitrary: p)
  case 0
  then show ?case by simp
next
  case (Suc n)
  let ?q = "p\<lparr>next_loop := Suc (next_loop p) mod length (loops p)\<rparr>"
  have "pool_ok ?q" "loops ?q \<noteq> []" using Suc.prems by (auto simp: pool_ok_def)
  from Suc.IH [OF this] obtain p' where
    p': "next_loops n ?q = Inr (map (\<lambda>i. loops p ! ((Suc (next_loop p) mod length (loops p) + i) mod length (loops p))) [0..<n], p')"
    by auto
  have split: "[0..<Suc n] = 0 # map Suc [0..<n]" by (simp add: map_Suc_upt upt_conv_Cons)
  have "(Suc (next_loop p) mod length (loops p) + i) mod length (loops p)
    = (next_loop p + Suc i) mod length (loops p)" for i
    by (simp add: mod_add_left_eq)
  then show ?case
    using p' Suc.prems getNextLoop_ok [OF Suc.prems] by (simp add: split pool_ok_def del: upt_Suc)
qed

text \<open>Shifting a full turn permutes the loops.\<close>

lemma full_turn:
  assumes "xs \<noteq> []"
  shows "mset (map (\<lambda>i. xs ! ((s + i) mod length xs)) [0..<length xs]) = mset xs"
proof -
  have eq: "map (\<lambda>i. xs ! ((s + i) mod length xs)) [0..<length xs] = rotate s xs"
    by (rule nth_equalityI) (use assms in \<open>auto simp: nth_rotate add.commute\<close>)
  have "mset (rotate s xs) = mset (take (s mod length xs) xs @ drop (s mod length xs) xs)"
    by (simp only: rotate_drop_take mset_append add.commute)
  then show ?thesis by (simp only: eq append_take_drop_id)
qed

section \<open>Names of connections\<close>

lemma show_int_pos: "0 \<le> i \<Longrightarrow> show_int i = show_nat (nat i)"
  by (simp add: show_int_def)

lemma connName_uncut:
  assumes "length ip \<le> 51" and "0 \<le> i" and "i < 2 ^ 31"
  shows "connName nm ip i = nm @ ''-'' @ ip @ ''#'' @ show_nat (nat i)"
proof -
  have "length (show_nat (nat i)) \<le> 10" using assms by (intro length_show_nat) auto
  with assms show ?thesis by (simp add: connName_def show_int_pos)
qed

lemma connName_inject:
  assumes "length ip \<le> 51" and "0 \<le> i" and "i < 2 ^ 31" and "0 \<le> j" and "j < 2 ^ 31"
    and "connName nm ip i = connName nm ip j"
  shows "i = j"
  using assms(6) connName_uncut [OF assms(1-3), of nm] connName_uncut [OF assms(1,4,5), of nm] assms(2,4)
  by simp

section \<open>The server as a state machine\<close>

fun est_of :: "addr \<Rightarrow> post \<Rightarrow> bool" where
  "est_of k (RunInLoop l (SrvConnectEstablished j)) \<longleftrightarrow> j = k"
| "est_of k _ \<longleftrightarrow> False"

fun dest_of :: "addr \<Rightarrow> post \<Rightarrow> bool" where
  "dest_of k (QueueInLoop l (SrvConnectDestroyed j)) \<longleftrightarrow> j = k"
| "dest_of k _ \<longleftrightarrow> False"

text \<open>A live connection is one the server's map holds, which keeps the object alive.\<close>

definition conn_live :: "addr \<Rightarrow> 'v tcp_server \<Rightarrow> bool" where
  "conn_live k s \<longleftrightarrow> (\<exists>nm. connections s nm = Some k)"

definition names_kept :: "'u conn_loop \<Rightarrow> 'u conn_loop \<Rightarrow> bool" where
  "names_kept l l' \<longleftrightarrow> (\<forall>k cn. conns l k = Some cn \<longrightarrow> (\<exists>cn'. conns l' k = Some cn' \<and> conn_name cn' = conn_name cn))"

definition keeps_live :: "'v tcp_server \<Rightarrow> addr \<Rightarrow> 'v srv_cb conn_loop \<Rightarrow> bool" where
  "keeps_live s a l' \<longleftrightarrow> (\<forall>k cn. conn_live k s \<longrightarrow> srv_homes s k = Some a \<longrightarrow> conns (srv_loops s a) k = Some cn \<longrightarrow>
     (\<exists>cn'. conns l' k = Some cn' \<and> conn_name cn' = conn_name cn))"

text \<open>
  Connections arrive at a fresh address; the close callback of a live connection asks for its
  removal, and the base loop removes it. A connection is closed once, so it is asked once. In
  between the loops do what they like, except that an object the map holds stays alive and its
  name, which is constant, stays the same.
\<close>

inductive srv_step :: "'v tcp_server \<Rightarrow> 'v tcp_server \<Rightarrow> bool" where
  accept: "srv_homes s k = None \<Longrightarrow> (\<forall>l l'. exec (ConnectEstablished k) l = Inr l' \<longrightarrow> names_kept l l') \<Longrightarrow>
    TcpServer_newConnection exec self k c sn sockfd pa s = Inr s' \<Longrightarrow> srv_step s s'"
| closed: "srv_step s (TcpServer_removeConnection k s)"
| remove: "conn_live k s \<Longrightarrow> removeConnectionInLoop self k s = Inr s' \<Longrightarrow> srv_step s s'"
| loop_moves: "keeps_live s a l' \<Longrightarrow> srv_step s (s\<lparr>srv_loops := (srv_loops s)(a := l')\<rparr>)"
| set_connection: "srv_step s (TcpServer_setConnectionCallback cb s)"
| set_message: "srv_step s (TcpServer_setMessageCallback cb s)"
| set_write_complete: "srv_step s (TcpServer_setWriteCompleteCallback cb s)"

definition srv_init :: "'v tcp_server \<Rightarrow> bool" where
  "srv_init s \<longleftrightarrow> pool_ok (srv_pool s) \<and> length (srv_ipPort s) \<le> 51 \<and> nextConnId s = 1
     \<and> connections s = Map.empty \<and> srv_homes s = Map.empty \<and> (\<forall>k. filter (est_of k) (srv_posts s) = []
     \<and> filter (dest_of k) (srv_posts s) = [])"

definition posts_ok :: "'v tcp_server \<Rightarrow> addr \<Rightarrow> bool" where
  "posts_ok s k \<longleftrightarrow> (case srv_homes s k of
       None \<Rightarrow> filter (est_of k) (srv_posts s) = [] \<and> filter (dest_of k) (srv_posts s) = []
     | Some a \<Rightarrow> filter (est_of k) (srv_posts s) = [RunInLoop a (SrvConnectEstablished k)]
         \<and> filter (dest_of k) (srv_posts s) = (if conn_live k s then []
             else [QueueInLoop a (SrvConnectDestroyed k)]))"

definition entry_ok :: "'v tcp_server \<Rightarrow> string \<Rightarrow> addr \<Rightarrow> bool" where
  "entry_ok s nm k \<longleftrightarrow>
     (\<exists>a cn. srv_homes s k = Some a \<and> conns (srv_loops s a) k = Some cn \<and> conn_name cn = nm)
     \<and> (\<exists>i. 1 \<le> i \<and> i < nextConnId s \<and> nm = connName (srv_name s) (srv_ipPort s) i)"

definition srv_inv :: "'v tcp_server \<Rightarrow> bool" where
  "srv_inv s \<longleftrightarrow> pool_ok (srv_pool s) \<and> length (srv_ipPort s) \<le> 51 \<and> 1 \<le> nextConnId s \<and> nextConnId s < 2 ^ 31
     \<and> (\<forall>nm k. connections s nm = Some k \<longrightarrow> entry_ok s nm k) \<and> (\<forall>k. posts_ok s k)"

lemma srv_invD:
  assumes "srv_inv s"
  shows "pool_ok (srv_pool s)" "1 \<le> nextConnId s" "length (srv_ipPort s) \<le> 51" "nextConnId s < 2 ^ 31"
    "connections s nm = Some j \<Longrightarrow> entry_ok s nm j" "posts_ok s j"
  using assms unfolding srv_inv_def by blast+

lemma posts_ok_cong:
  assumes "srv_homes s' = srv_homes s" and "connections s' = connections s" and "srv_posts s' = srv_posts s"
  shows "posts_ok s' j = posts_ok s j"
  unfolding posts_ok_def conn_live_def assms ..

lemma srv_inv_cong:
  assumes "srv_inv s" and "srv_homes s' = srv_homes s" "connections s' = connections s" "srv_posts s' = srv_posts s"
    "srv_loops s' = srv_loops s" "srv_pool s' = srv_pool s" "srv_ipPort s' = srv_ipPort s" "srv_name s' = srv_name s"
    "nextConnId s' = nextConnId s"
  shows "srv_inv s'"
  using assms(1) unfolding srv_inv_def entry_ok_def assms(2-9) posts_ok_cong [OF assms(2-4)] .

text \<open>The name of a new connection is in nobody's use, so no entry is replaced.\<close>

lemma fresh_entry:
  assumes inv: "srv_inv s"
  shows "connections s (connName (srv_name s) (srv_ipPort s) (nextConnId s)) = None"
proof (rule ccontr)
  assume "connections s (connName (srv_name s) (srv_ipPort s) (nextConnId s)) \<noteq> None"
  then obtain i where i: "1 \<le> i" "i < nextConnId s"
    "connName (srv_name s) (srv_ipPort s) (nextConnId s) = connName (srv_name s) (srv_ipPort s) i"
    using srv_invD(5) [OF inv] by (auto simp: entry_ok_def)
  with connName_inject [of "srv_ipPort s" i "nextConnId s" "srv_name s"] srv_invD(3,4) [OF inv] show False
    by auto
qed

text \<open>A connection has one entry.\<close>

lemma one_entry:
  assumes inv: "srv_inv s" and "connections s nm = Some k" and "connections s nm' = Some k"
  shows "nm = nm'"
  using srv_invD(5) [OF inv assms(2)] srv_invD(5) [OF inv assms(3)] by (auto simp: entry_ok_def)

lemma ctor_conns:
  assumes "TcpConnection_ctor k c cname sockfd la pa l = Inr l1"
  shows "\<exists>inp. conns l1 = (conns l)(k \<mapsto> new_conn cname sockfd la pa c inp inp) \<and> threadId l1 = threadId l
    \<and> pendingFunctors l1 = pendingFunctors l"
  using assms by (auto simp: TcpConnection_ctor_def bindR_eq_Inr setReadCallback_def setWriteCallback_def
      setCloseCallback_def setErrorCallback_def newChannel_def Socket_setKeepAlive_def put_conn_def)

lemma build_conn_eq:
  assumes "TcpConnection_ctor k c cname sockfd la pa l = Inr l1" and "conns l1 k = Some cn"
  shows "build_conn k c cname sockfd la pa s l = Inr (put_conn k (cn\<lparr>connectionCallback := srv_connectionCallback s,
    messageCallback := srv_messageCallback s, writeCompleteCallback := srv_writeCompleteCallback s,
    conn_closeCallback := Some ServerRemoveCb\<rparr>) l1)"
  using assms by (simp add: build_conn_def setConnectionCallback_def setMessageCallback_def
      setWriteCompleteCallback_def conn_setCloseCallback_def get_conn_def put_conn_def)

lemma build_conn_result:
  assumes "build_conn k c cname sockfd la pa s l = Inr l'"
  shows "(\<exists>cn. conns l' k = Some cn \<and> conn_name cn = cname \<and> conn_state cn = kConnecting
      \<and> connectionCallback cn = srv_connectionCallback s \<and> messageCallback cn = srv_messageCallback s
      \<and> writeCompleteCallback cn = srv_writeCompleteCallback s \<and> conn_closeCallback cn = Some ServerRemoveCb
      \<and> conn_fd cn = sockfd \<and> conn_channel cn = c)
    \<and> (\<forall>j. j \<noteq> k \<longrightarrow> conns l' j = conns l j) \<and> threadId l' = threadId l \<and> pendingFunctors l' = pendingFunctors l"
proof -
  from assms obtain l1 where l1: "TcpConnection_ctor k c cname sockfd la pa l = Inr l1"
    by (auto simp: build_conn_def bindR_eq_Inr)
  from ctor_conns [OF l1] obtain inp where c1: "conns l1 = (conns l)(k \<mapsto> new_conn cname sockfd la pa c inp inp)"
    "threadId l1 = threadId l" "pendingFunctors l1 = pendingFunctors l" by blast
  then have "conns l1 k = Some (new_conn cname sockfd la pa c inp inp)" by simp
  from build_conn_eq [OF l1 this, of s] assms c1 show ?thesis by (simp add: put_conn_def new_conn_def)
qed

lemma runInLoop_names:
  assumes "runInLoop exec self f l = Inr l'" and "\<forall>l l'. exec f l = Inr l' \<longrightarrow> names_kept l l'"
  shows "names_kept l l'"
  using assms by (auto simp: runInLoop_def names_kept_def queue_defs split: if_splits)

text \<open>What \<open>accept\<close> asks of \<open>exec\<close> holds for the functors of a connection whose user code keeps names.\<close>

lemma set_chan_conns: "set_chan c f l = Inr l' \<Longrightarrow> conns l' = conns l"
  by (auto simp: set_chan_def bindR_eq_Inr)

lemma Epoller_updateChannel_conns: "Epoller_updateChannel c l = Inr l' \<Longrightarrow> conns l' = conns l"
  by (auto simp: Epoller_updateChannel_def bindR_eq_Inr cassert_eq_Inr Let_def Epoller_update_def set_index_def
      dest: set_chan_conns split: if_splits)

lemma enableReading_conns: "enableReading c l = Inr l' \<Longrightarrow> conns l' = conns l"
  by (auto simp: enableReading_def Channel_update_def EventLoop_updateChannel_def bindR_eq_Inr cassert_eq_Inr
      dest!: set_chan_conns Epoller_updateChannel_conns)

lemma established_names:
  assumes user: "\<forall>u up l l'. user u up l = Inr l' \<longrightarrow> names_kept l l'"
    and run: "exec_conn_functor user answer (ConnectEstablished k) l = Inr l'"
  shows "names_kept l l'"
proof -
  from run obtain cn l1 l2 l3 where cn: "conns l k = Some cn" "l1 = put_conn k (cn\<lparr>conn_state := kConnected\<rparr>) l"
    and l2: "Channel_tie (conn_channel cn) k l1 = Inr l2" and l3: "enableReading (conn_channel cn) l2 = Inr l3"
    and up: "call_user user (connectionCallback cn) (UpConnection k) l3 = Inr l'"
    by (auto simp: connectEstablished_def setState_def bindR_eq_Inr cassert_eq_Inr get_conn_def split: option.splits)
  have l3c: "conns l3 = (conns l)(k \<mapsto> cn\<lparr>conn_state := kConnected\<rparr>)"
    using set_chan_conns [OF l2 [unfolded Channel_tie_def]] enableReading_conns [OF l3]
    by (simp add: cn(2) put_conn_def)
  have kept: "names_kept l3 l'"
    using user up by (auto simp: call_user_def split: option.splits)
  have "\<exists>cn'. conns l' j = Some cn' \<and> conn_name cn' = conn_name d" if "conns l j = Some d" for j d
  proof (cases "j = k")
    case True
    then have "conns l3 j = Some (cn\<lparr>conn_state := kConnected\<rparr>)" "d = cn" using l3c cn(1) that by simp_all
    with kept show ?thesis unfolding names_kept_def by fastforce
  next
    case False
    then have "conns l3 j = Some d" using l3c that by simp
    with kept show ?thesis unfolding names_kept_def by blast
  qed
  then show ?thesis by (simp add: names_kept_def)
qed

lemma newConnection_result:
  assumes inv: "srv_inv s" and new: "TcpServer_newConnection exec self k c sn sockfd pa s = Inr s'"
    and exec: "\<forall>l l'. exec (ConnectEstablished k) l = Inr l' \<longrightarrow> names_kept l l'"
  obtains io p l2 where "nextConnId s + 1 < 2 ^ 31" "pool_ok p"
    "\<exists>cn. conns l2 k = Some cn \<and> conn_name cn = connName (srv_name s) (srv_ipPort s) (nextConnId s)"
    "\<And>j cn. j \<noteq> k \<Longrightarrow> conns (srv_loops s io) j = Some cn \<Longrightarrow> \<exists>cn'. conns l2 j = Some cn' \<and> conn_name cn' = conn_name cn"
    "s' = s\<lparr>srv_pool := p, nextConnId := nextConnId s + 1,
      connections := (connections s)(connName (srv_name s) (srv_ipPort s) (nextConnId s) \<mapsto> k),
      srv_homes := (srv_homes s)(k \<mapsto> io), srv_loops := (srv_loops s)(io := l2),
      srv_posts := srv_posts s @ [RunInLoop io (SrvConnectEstablished k)]\<rparr>"
proof -
  let ?nm = "connName (srv_name s) (srv_ipPort s) (nextConnId s)"
  from getNextLoop_total [OF srv_invD(1) [OF inv]] obtain io p where
    p: "getNextLoop (srv_pool s) = Inr (io, p)" "pool_ok p" by blast
  from new p(1) obtain l1 l2 where l1: "build_conn k c ?nm sockfd (InetAddress_of6 (getLocalAddr sn)) pa s (srv_loops s io) = Inr l1"
    and l2: "runInLoop exec self (ConnectEstablished k) l1 = Inr l2" and small: "nextConnId s + 1 < 2 ^ 31"
    and s': "s' = s\<lparr>srv_pool := p, nextConnId := nextConnId s + 1, connections := (connections s)(?nm \<mapsto> k),
      srv_homes := (srv_homes s)(k \<mapsto> io), srv_loops := (srv_loops s)(io := l2),
      srv_posts := srv_posts s @ [RunInLoop io (SrvConnectEstablished k)]\<rparr>"
    by (auto simp: TcpServer_newConnection_def Let_def bindR_eq_Inr split: if_splits)
  note built = build_conn_result [OF l1] and kept = runInLoop_names [OF l2 exec]
  from built kept have "\<exists>cn. conns l2 k = Some cn \<and> conn_name cn = ?nm"
    unfolding names_kept_def by metis
  moreover have "\<exists>cn'. conns l2 j = Some cn' \<and> conn_name cn' = conn_name cn"
    if "j \<noteq> k" "conns (srv_loops s io) j = Some cn" for j cn
    using built kept that unfolding names_kept_def by metis
  ultimately show thesis using that small p(2) s' by blast
qed

lemma newConnection_inv:
  assumes inv: "srv_inv s" and k: "srv_homes s k = None" and new: "TcpServer_newConnection exec self k c sn sockfd pa s = Inr s'"
    and exec: "\<forall>l l'. exec (ConnectEstablished k) l = Inr l' \<longrightarrow> names_kept l l'"
  shows "srv_inv s'"
proof -
  let ?nm = "connName (srv_name s) (srv_ipPort s) (nextConnId s)"
  note I = srv_invD [OF inv]
  obtain io p l2 where small: "nextConnId s + 1 < 2 ^ 31"
    and p: "pool_ok p" and me: "\<exists>cn. conns l2 k = Some cn \<and> conn_name cn = ?nm"
    and others: "\<And>j cn. j \<noteq> k \<Longrightarrow> conns (srv_loops s io) j = Some cn \<Longrightarrow> \<exists>cn'. conns l2 j = Some cn' \<and> conn_name cn' = conn_name cn"
    and s': "s' = s\<lparr>srv_pool := p, nextConnId := nextConnId s + 1, connections := (connections s)(?nm \<mapsto> k),
      srv_homes := (srv_homes s)(k \<mapsto> io), srv_loops := (srv_loops s)(io := l2),
      srv_posts := srv_posts s @ [RunInLoop io (SrvConnectEstablished k)]\<rparr>"
    by (rule newConnection_result [OF inv new exec]) blast
  have unmapped: "connections s nm \<noteq> Some k" for nm using I(5) [of nm k] k by (auto simp: entry_ok_def)
  have live: "conn_live j s' = (j = k \<or> conn_live j s)" for j
    using fresh_entry [OF inv] unfolding conn_live_def s' by simp (metis option.distinct(1))
  have f: "srv_homes s' = (srv_homes s)(k \<mapsto> io)"
    "srv_posts s' = srv_posts s @ [RunInLoop io (SrvConnectEstablished k)]" by (simp_all add: s')
  have "posts_ok s' j" for j
    using I(6) [of j] live [of j] k by (cases "j = k"; cases "srv_homes s j") (simp_all add: posts_ok_def f)
  moreover have "entry_ok s' nm j" if e: "connections s' nm = Some j" for nm j
  proof (cases "nm = ?nm")
    case True
    with e me I(2) show ?thesis by (auto simp: s' entry_ok_def)
  next
    case False
    with e have old: "connections s nm = Some j" by (simp add: s')
    with unmapped have "j \<noteq> k" by auto
    from I(5) [OF old] obtain a cn i where a: "srv_homes s j = Some a" "conns (srv_loops s a) j = Some cn" "conn_name cn = nm"
      and i: "1 \<le> i" "i < nextConnId s" "nm = connName (srv_name s) (srv_ipPort s) i" by (auto simp: entry_ok_def)
    have "\<exists>cn'. conns (srv_loops s' a) j = Some cn' \<and> conn_name cn' = nm"
      using a others [OF \<open>j \<noteq> k\<close>] by (cases "a = io") (auto simp: s')
    moreover have "srv_homes s' j = Some a" using a(1) \<open>j \<noteq> k\<close> by (simp add: s')
    moreover have "1 \<le> i \<and> i < nextConnId s' \<and> nm = connName (srv_name s') (srv_ipPort s') i"
      using i by (simp add: s')
    ultimately show ?thesis unfolding entry_ok_def by blast
  qed
  moreover have "pool_ok (srv_pool s')" "length (srv_ipPort s') \<le> 51" "1 \<le> nextConnId s'" "nextConnId s' < 2 ^ 31"
    using p I(2,3) small by (simp_all add: s')
  ultimately show ?thesis unfolding srv_inv_def by blast
qed

lemma removeConnection_inv:
  assumes inv: "srv_inv s"
  shows "srv_inv (TcpServer_removeConnection k s)"
proof -
  let ?s = "TcpServer_removeConnection k s"
  have f: "srv_homes ?s = srv_homes s" "connections ?s = connections s" "srv_loops ?s = srv_loops s"
    "srv_pool ?s = srv_pool s" "srv_ipPort ?s = srv_ipPort s" "nextConnId ?s = nextConnId s" "srv_name ?s = srv_name s"
    "filter (est_of j) (srv_posts ?s) = filter (est_of j) (srv_posts s)"
    "filter (dest_of j) (srv_posts ?s) = filter (dest_of j) (srv_posts s)" for j
    by (simp_all add: TcpServer_removeConnection_def)
  show ?thesis using inv unfolding srv_inv_def entry_ok_def posts_ok_def conn_live_def f .
qed

lemma removeInLoop_live:
  assumes inv: "srv_inv s" and e: "connections s nm = Some k"
  shows "\<exists>a cn. srv_homes s k = Some a \<and> conns (srv_loops s a) k = Some cn \<and> conn_name cn = nm
    \<and> removeConnectionInLoop self k s = Inr (s\<lparr>connections := (connections s)(nm := None),
        srv_loops := (srv_loops s)(a := queneInLoop self (ConnectDestroyed k) (srv_loops s a)),
        srv_posts := srv_posts s @ [QueueInLoop a (SrvConnectDestroyed k)]\<rparr>)"
  using srv_invD(5) [OF inv e] e by (auto simp: entry_ok_def removeConnectionInLoop_def)

lemma quene_conns [simp]: "conns (queneInLoop self f l) = conns l"
  by (simp add: queue_defs)

lemma removeInLoop_inv:
  assumes inv: "srv_inv s" and live: "conn_live k s" and rm: "removeConnectionInLoop self k s = Inr s'"
  shows "srv_inv s'"
proof -
  from live obtain nm where nm: "connections s nm = Some k" by (auto simp: conn_live_def)
  from removeInLoop_live [OF inv nm, of self] obtain a where a: "srv_homes s k = Some a"
    and "removeConnectionInLoop self k s = Inr (s\<lparr>connections := (connections s)(nm := None),
        srv_loops := (srv_loops s)(a := queneInLoop self (ConnectDestroyed k) (srv_loops s a)),
        srv_posts := srv_posts s @ [QueueInLoop a (SrvConnectDestroyed k)]\<rparr>)" by blast
  with rm have s': "s' = s\<lparr>connections := (connections s)(nm := None),
        srv_loops := (srv_loops s)(a := queneInLoop self (ConnectDestroyed k) (srv_loops s a)),
        srv_posts := srv_posts s @ [QueueInLoop a (SrvConnectDestroyed k)]\<rparr>" by simp
  have live': "conn_live j s' = (j \<noteq> k \<and> conn_live j s)" for j
  proof -
    have "connections s' = (connections s)(nm := None)" by (simp add: s')
    then have ent: "connections s' m = (if m = nm then None else connections s m)" for m by simp
    have "connections s' m = Some j \<longleftrightarrow> j \<noteq> k \<and> connections s m = Some j" for m
    proof (cases "m = nm")
      case True
      with nm ent [of m] show ?thesis by auto
    next
      case False
      then have "connections s m \<noteq> Some k" using one_entry [OF inv _ nm, of m] by blast
      with False ent [of m] show ?thesis by auto
    qed
    then show ?thesis by (simp add: conn_live_def)
  qed
  have f: "srv_homes s' = srv_homes s" "srv_posts s' = srv_posts s @ [QueueInLoop a (SrvConnectDestroyed k)]"
    "srv_pool s' = srv_pool s" "srv_ipPort s' = srv_ipPort s" "nextConnId s' = nextConnId s" "srv_name s' = srv_name s"
    "connections s' = (connections s)(nm := None)" "conns (srv_loops s' b) = conns (srv_loops s b)" for b
    by (simp_all add: s')
  have "posts_ok s' j" for j
    using srv_invD(6) [OF inv, of j] live live' [of j] a
    by (cases "j = k"; cases "srv_homes s j") (simp_all add: posts_ok_def f)
  moreover have "entry_ok s' nm' j" if "connections s' nm' = Some j" for nm' j
    using srv_invD(5) [OF inv, of nm' j] that by (simp add: entry_ok_def f split: if_splits)
  ultimately show ?thesis using srv_invD(1-4) [OF inv] unfolding srv_inv_def f(3-6) by blast
qed

lemma loop_moves_inv:
  assumes inv: "srv_inv s" and keeps: "keeps_live s a l'"
  shows "srv_inv (s\<lparr>srv_loops := (srv_loops s)(a := l')\<rparr>)"
proof -
  let ?s = "s\<lparr>srv_loops := (srv_loops s)(a := l')\<rparr>"
  have "entry_ok ?s nm k" if "connections s nm = Some k" for nm k
  proof -
    from srv_invD(5) [OF inv that] obtain b cn where b: "srv_homes s k = Some b"
      "conns (srv_loops s b) k = Some cn" "conn_name cn = nm"
      and i: "\<exists>i. 1 \<le> i \<and> i < nextConnId s \<and> nm = connName (srv_name s) (srv_ipPort s) i"
      by (auto simp: entry_ok_def)
    have "conn_live k s" using that by (auto simp: conn_live_def)
    with keeps b have "\<exists>cn'. conns (srv_loops ?s b) k = Some cn' \<and> conn_name cn' = nm"
      by (cases "b = a") (auto simp: keeps_live_def)
    with b(1) i show ?thesis by (simp add: entry_ok_def)
  qed
  moreover have "posts_ok ?s j = posts_ok s j" for j by (rule posts_ok_cong) simp_all
  ultimately show ?thesis using inv by (simp add: srv_inv_def)
qed

lemma callbacks_inv:
  assumes "srv_inv s"
  shows "srv_inv (TcpServer_setConnectionCallback cb s)" "srv_inv (TcpServer_setMessageCallback cb s)"
    "srv_inv (TcpServer_setWriteCompleteCallback cb s)"
  by (rule srv_inv_cong [OF assms]; simp add: TcpServer_setConnectionCallback_def TcpServer_setMessageCallback_def
      TcpServer_setWriteCompleteCallback_def)+

interpretation server: transition_system srv_init srv_step srv_inv
proof unfold_locales
  fix s :: "'v tcp_server"
  assume "srv_init s"
  then show "srv_inv s"
    by (simp add: srv_init_def srv_inv_def posts_ok_def)
next
  fix s t :: "'v tcp_server"
  assume inv: "srv_inv s" and "srv_step s t"
  from this(2) show "srv_inv t"
    by (cases rule: srv_step.cases) (simp_all add: newConnection_inv [OF inv] removeConnection_inv [OF inv]
        removeInLoop_inv [OF inv] loop_moves_inv [OF inv] callbacks_inv [OF inv])
qed

section \<open>Properties\<close>

text \<open>
  C28. Loops are handed out in turn: \<open>n\<close> calls of \<open>getNextLoop\<close> on a started pool return the loops
  cyclically from where the last call stopped, never out of bounds, and any run of as many calls
  as there are loops uses each loop equally often; a pool without threads hands out the base loop.
\<close>

theorem round_robin:
  assumes "pool_ok p"
  shows "(loops p = [] \<longrightarrow> getNextLoop p = Inr (baseLoop p, p))
    \<and> (loops p \<noteq> [] \<longrightarrow>
        (\<exists>p'. next_loops n p = Inr (map (\<lambda>i. loops p ! ((next_loop p + i) mod length (loops p))) [0..<n], p'))
        \<and> (\<exists>ls p'. next_loops (length (loops p)) p = Inr (ls, p') \<and> mset ls = mset (loops p)))"
proof (intro conjI impI)
  assume "loops p = []"
  with assms show "getNextLoop p = Inr (baseLoop p, p)" by (simp add: getNextLoop_def pool_ok_def)
next
  assume ne: "loops p \<noteq> []"
  then show "\<exists>p'. next_loops n p = Inr (map (\<lambda>i. loops p ! ((next_loop p + i) mod length (loops p))) [0..<n], p')"
    by (rule next_loops_ok [OF assms])
  from next_loops_ok [OF assms ne, of "length (loops p)"] full_turn [OF ne, of "next_loop p"]
  show "\<exists>ls p'. next_loops (length (loops p)) p = Inr (ls, p') \<and> mset ls = mset (loops p)" by blast
qed

definition sample_pool :: loop_pool where
  "sample_pool = (EventLoopThreadPool_ctor 2 ''io'')\<lparr>pool_started := True, loops := [10, 20, 30]\<rparr>"

theorem round_robin_witness:
  "\<exists>p'. next_loops 4 sample_pool = Inr ([10, 20, 30, 10], p')"
proof -
  have "pool_ok sample_pool" by (simp add: pool_ok_def sample_pool_def EventLoopThreadPool_ctor_def)
  from round_robin [OF this, of 4] show ?thesis
    by (simp add: sample_pool_def EventLoopThreadPool_ctor_def upt_rec)
qed

text \<open>A new connection in its loop: built with every callback, then established there.\<close>

definition arrives :: "('v srv_cb conn_functor \<Rightarrow> 'v srv_cb conn_loop \<Rightarrow> 'v srv_cb conn_loop res)
    \<Rightarrow> tid \<Rightarrow> addr \<Rightarrow> addr \<Rightarrow> fd \<Rightarrow> 'v tcp_server \<Rightarrow> 'v tcp_server \<Rightarrow> bool" where
  "arrives exec self k c sockfd s s' \<longleftrightarrow>
     (\<exists>io p l1 l2 cn. getNextLoop (srv_pool s) = Inr (io, p) \<and> srv_pool s' = p
       \<and> srv_homes s' = (srv_homes s)(k \<mapsto> io) \<and> srv_loops s' = (srv_loops s)(io := l2)
       \<and> conns l1 k = Some cn \<and> conn_state cn = kConnecting \<and> conn_fd cn = sockfd \<and> conn_channel cn = c
       \<and> connections s' = (connections s)(conn_name cn \<mapsto> k)
       \<and> conn_name cn = connName (srv_name s) (srv_ipPort s) (nextConnId s)
       \<and> connectionCallback cn = srv_connectionCallback s \<and> messageCallback cn = srv_messageCallback s
       \<and> writeCompleteCallback cn = srv_writeCompleteCallback s \<and> conn_closeCallback cn = Some ServerRemoveCb
       \<and> (\<forall>j. j \<noteq> k \<longrightarrow> conns l1 j = conns (srv_loops s io) j)
       \<and> pendingFunctors l1 = pendingFunctors (srv_loops s io)
       \<and> (if self = threadId (srv_loops s io) then exec (ConnectEstablished k) l1 = Inr l2
          else conns l2 = conns l1 \<and> pendingFunctors l2 = pendingFunctors (srv_loops s io) @ [ConnectEstablished k]))"

lemma newConnection_arrives:
  assumes new: "TcpServer_newConnection exec self k c sn sockfd pa s = Inr s'"
  shows "arrives exec self k c sockfd s s'"
proof -
  let ?nm = "connName (srv_name s) (srv_ipPort s) (nextConnId s)"
  from new obtain io p l1 l2 where p: "getNextLoop (srv_pool s) = Inr (io, p)"
    and l1: "build_conn k c ?nm sockfd (InetAddress_of6 (getLocalAddr sn)) pa s (srv_loops s io) = Inr l1"
    and l2: "runInLoop exec self (ConnectEstablished k) l1 = Inr l2"
    and s': "s' = s\<lparr>srv_pool := p, nextConnId := nextConnId s + 1, connections := (connections s)(?nm \<mapsto> k),
      srv_homes := (srv_homes s)(k \<mapsto> io), srv_loops := (srv_loops s)(io := l2),
      srv_posts := srv_posts s @ [RunInLoop io (SrvConnectEstablished k)]\<rparr>"
    by (auto simp: TcpServer_newConnection_def Let_def bindR_eq_Inr split: if_splits)
  note built = build_conn_result [OF l1]
  from built have run: "if self = threadId (srv_loops s io) then exec (ConnectEstablished k) l1 = Inr l2
      else conns l2 = conns l1 \<and> pendingFunctors l2 = pendingFunctors (srv_loops s io) @ [ConnectEstablished k]"
    using l2 by (auto simp: runInLoop_def isInLoopThread_def queue_defs)
  from built obtain cn where cn: "conns l1 k = Some cn" "conn_name cn = ?nm" "conn_state cn = kConnecting" "conn_fd cn = sockfd"
    "conn_channel cn = c" "connectionCallback cn = srv_connectionCallback s" "messageCallback cn = srv_messageCallback s"
    "writeCompleteCallback cn = srv_writeCompleteCallback s" "conn_closeCallback cn = Some ServerRemoveCb" by blast
  show ?thesis
    unfolding arrives_def
    by (rule exI [of _ io], rule exI [of _ p], rule exI [of _ l1], rule exI [of _ l2], rule exI [of _ cn])
      (use p run cn built in \<open>simp add: s'\<close>)
qed

text \<open>
  C29. The server's book-keeping. In every state a started server can reach while connections
  arrive and close and the loops run: a new connection gets a name no other one has, so no entry of
  the map is replaced; it is built, connecting, in the next loop of the pool, with the connection, message and write
  complete callbacks of the server and the server's removal as its close callback, and \<open>connectEstablished\<close> is
  run on it by that loop: at once when the server is in the loop's thread, and otherwise queued last in the loop. This is asked
  for exactly once; as long as the connection is in the map nobody has asked to destroy it; removing it
  succeeds, takes exactly its entry out and queues its destruction last in that same loop; removing it again would
  abort; and once it is out of the map its destruction has been asked for exactly once.
\<close>

theorem server_connections:
  assumes "srv_init s0" and "srv_step\<^sup>*\<^sup>* s0 s"
  shows "connections s (connName (srv_name s) (srv_ipPort s) (nextConnId s)) = None
    \<and> (\<forall>exec k c sn sockfd pa s'. TcpServer_newConnection exec self k c sn sockfd pa s = Inr s' \<longrightarrow>
        arrives exec self k c sockfd s s')
    \<and> (\<forall>k a. srv_homes s k = Some a \<longrightarrow>
        filter (est_of k) (srv_posts s) = [RunInLoop a (SrvConnectEstablished k)]
        \<and> (if conn_live k s
           then filter (dest_of k) (srv_posts s) = []
             \<and> (\<exists>s' nm. removeConnectionInLoop self k s = Inr s' \<and> connections s nm = Some k
                 \<and> connections s' = (connections s)(nm := None)
                 \<and> pendingFunctors (srv_loops s' a) = pendingFunctors (srv_loops s a) @ [ConnectDestroyed k]
                 \<and> removeConnectionInLoop self k s' = Inl AssertFailed)
           else filter (dest_of k) (srv_posts s) = [QueueInLoop a (SrvConnectDestroyed k)]))"
proof -
  from server.reachable_inv [OF assms] have inv: "srv_inv s" .
  have "filter (est_of k) (srv_posts s) = [RunInLoop a (SrvConnectEstablished k)]
        \<and> (if conn_live k s
           then filter (dest_of k) (srv_posts s) = []
             \<and> (\<exists>s' nm. removeConnectionInLoop self k s = Inr s' \<and> connections s nm = Some k
                 \<and> connections s' = (connections s)(nm := None)
                 \<and> pendingFunctors (srv_loops s' a) = pendingFunctors (srv_loops s a) @ [ConnectDestroyed k]
                 \<and> removeConnectionInLoop self k s' = Inl AssertFailed)
           else filter (dest_of k) (srv_posts s) = [QueueInLoop a (SrvConnectDestroyed k)])"
    if home: "srv_homes s k = Some a" for k a
  proof (cases "conn_live k s")
    case False
    with home srv_invD(6) [OF inv, of k] show ?thesis by (simp add: posts_ok_def)
  next
    case True
    then obtain nm where nm: "connections s nm = Some k" by (auto simp: conn_live_def)
    from removeInLoop_live [OF inv nm, of self] home obtain cn where
      cn: "conns (srv_loops s a) k = Some cn" "conn_name cn = nm" and
      rm: "removeConnectionInLoop self k s = Inr (s\<lparr>connections := (connections s)(nm := None),
        srv_loops := (srv_loops s)(a := queneInLoop self (ConnectDestroyed k) (srv_loops s a)),
        srv_posts := srv_posts s @ [QueueInLoop a (SrvConnectDestroyed k)]\<rparr>)" (is "_ = Inr ?s") by auto
    have "removeConnectionInLoop self k ?s = Inl AssertFailed"
      using home cn by (simp add: removeConnectionInLoop_def)
    moreover have "pendingFunctors (srv_loops ?s a) = pendingFunctors (srv_loops s a) @ [ConnectDestroyed k]"
      by (simp add: queue_defs)
    moreover have "connections ?s = (connections s)(nm := None)" by simp
    ultimately have "\<exists>s' nm. removeConnectionInLoop self k s = Inr s' \<and> connections s nm = Some k
      \<and> connections s' = (connections s)(nm := None)
      \<and> pendingFunctors (srv_loops s' a) = pendingFunctors (srv_loops s a) @ [ConnectDestroyed k]
      \<and> removeConnectionInLoop self k s' = Inl AssertFailed" using rm nm by blast
    with True home srv_invD(6) [OF inv, of k] show ?thesis by (simp add: posts_ok_def)
  qed
  with fresh_entry [OF inv] newConnection_arrives show ?thesis by blast
qed

definition idle_loop :: "addr \<Rightarrow> 'u conn_loop" where
  "idle_loop a = event_loop.extend (loop_members a a)
     \<lparr>conns = Map.empty, kernel_out = (\<lambda>_. []), shutdown_calls = [], sockopts = []\<rparr>"

definition sample_server :: "nat tcp_server" where
  "sample_server = \<lparr>srv_loop = 2, srv_ipPort = ''10.0.0.7:80'', srv_name = ''echo'', srv_pool = sample_pool,
     srv_connectionCallback = Some (UserCb 1), srv_messageCallback = Some (UserCb 2), srv_writeCompleteCallback = None,
     srv_hasInit = False, srv_started = 1, nextConnId = 1, connections = Map.empty, srv_homes = Map.empty,
     srv_loops = idle_loop, srv_posts = []\<rparr>"

lemma sample_newConnection:
  obtains s where "TcpServer_newConnection (\<lambda>_ _. Inl AssertFailed) 2 50 51 None 9 sample_ends sample_server = Inr s"
    "srv_homes s = [50 \<mapsto> 10]" "connections s = [connName ''echo'' ''10.0.0.7:80'' 1 \<mapsto> 50]"
proof -
  have "\<exists>l1. build_conn 50 51 nm 9 la sample_ends sample_server (idle_loop 10) = Inr l1 \<and> threadId l1 = 10" for nm la
  proof -
    from kInitialSize_ok obtain b where "mkBuffer kInitialSize = Inr b" by blast
    then obtain l1 where l1: "TcpConnection_ctor 50 51 nm 9 la sample_ends (idle_loop 10 :: nat srv_cb conn_loop) = Inr l1"
      by (simp add: TcpConnection_ctor_def setReadCallback_def setWriteCallback_def setCloseCallback_def
          setErrorCallback_def newChannel_def)
    from ctor_conns [OF l1] obtain inp where
      l1': "conns l1 50 = Some (new_conn nm 9 la sample_ends 51 inp inp)" "threadId l1 = threadId (idle_loop 10 :: nat srv_cb conn_loop)"
      by auto
    show ?thesis
      using build_conn_eq [OF l1 l1'(1), of sample_server] l1'(2)
      by (simp add: put_conn_def idle_loop_def event_loop.extend_def loop_members_def)
  qed
  then obtain l1 where l1: "build_conn 50 51 (connName ''echo'' ''10.0.0.7:80'' 1) 9 (InetAddress_of6 (getLocalAddr None)) sample_ends sample_server (idle_loop 10) = Inr l1"
    "threadId l1 = 10" by blast
  have fields: "srv_loops sample_server 10 = idle_loop 10" "srv_name sample_server = ''echo''"
    "srv_ipPort sample_server = ''10.0.0.7:80''" "nextConnId sample_server = 1" "srv_homes sample_server = Map.empty"
    "connections sample_server = Map.empty" "srv_pool sample_server = sample_pool"
    by (simp_all add: sample_server_def)
  have next_is: "\<exists>p. getNextLoop sample_pool = Inr (10, p)"
    by (simp add: getNextLoop_def sample_pool_def EventLoopThreadPool_ctor_def Let_def)
  show thesis
    using that next_is l1 by (auto simp: TcpServer_newConnection_def fields Let_def runInLoop_def isInLoopThread_def)
qed

theorem server_connections_witness:
  "\<exists>s s'. TcpServer_newConnection (\<lambda>_ _. Inl AssertFailed) 2 50 51 None 9 sample_ends sample_server = Inr s
    \<and> pendingFunctors (srv_loops s 10) = [ConnectEstablished 50]
    \<and> filter (est_of 50) (srv_posts s) = [RunInLoop 10 (SrvConnectEstablished 50)]
    \<and> filter (dest_of 50) (srv_posts s) = []
    \<and> removeConnectionInLoop 2 50 s = Inr s' \<and> connections s' = Map.empty
    \<and> removeConnectionInLoop 2 50 s' = Inl AssertFailed"
proof -
  have init: "srv_init sample_server"
    by (simp add: srv_init_def sample_server_def pool_ok_def sample_pool_def EventLoopThreadPool_ctor_def)
  obtain s where s: "TcpServer_newConnection (\<lambda>_ _. Inl AssertFailed) 2 50 51 None 9 sample_ends sample_server = Inr s"
    "srv_homes s = [50 \<mapsto> 10]" "connections s = [connName ''echo'' ''10.0.0.7:80'' 1 \<mapsto> 50]"
    by (rule sample_newConnection)
  have "srv_step sample_server s" by (rule srv_step.accept [OF _ _ s(1)]) (simp_all add: sample_server_def)
  then have reach: "srv_step\<^sup>*\<^sup>* sample_server s" by blast
  have live: "conn_live 50 s" "srv_homes s 50 = Some 10" using s(2,3) by (auto simp: conn_live_def)
  have pool: "getNextLoop (srv_pool sample_server) = Inr (10, sample_pool\<lparr>next_loop := 1\<rparr>)"
    by (simp add: sample_server_def getNextLoop_def sample_pool_def EventLoopThreadPool_ctor_def Let_def)
  have idle: "threadId (srv_loops sample_server 10) = 10" "pendingFunctors (srv_loops sample_server 10) = []"
    by (simp_all add: sample_server_def idle_loop_def event_loop.defs loop_members_def)
  from server_connections [OF init rtranclp.rtrancl_refl, of 2, THEN conjunct2, THEN conjunct1, rule_format, OF s(1)]
  have queued: "pendingFunctors (srv_loops s 10) = [ConnectEstablished 50]" using pool idle by (auto simp: arrives_def)
  from server_connections [OF init reach, of 2, THEN conjunct2, THEN conjunct2, rule_format, OF live(2)] live(1)
  obtain s' nm where
    r: "filter (est_of 50) (srv_posts s) = [RunInLoop 10 (SrvConnectEstablished 50)]"
      "filter (dest_of 50) (srv_posts s) = []" "removeConnectionInLoop 2 50 s = Inr s'"
      "connections s nm = Some 50" "connections s' = (connections s)(nm := None)"
      "removeConnectionInLoop 2 50 s' = Inl AssertFailed" by auto
  have "connections s' = Map.empty" using r(4,5) s(3) by (auto split: if_splits)
  with r s(1) queued show ?thesis by blast
qed

text \<open>
  C30. The acceptor leaks no connection: an accepted descriptor goes to the installed callback or is
  closed; another error changes nothing; with no free descriptor the idle one is closed, the connection taken with it and closed,
  and the idle one reopened. But the listening socket is never bound to its address: the length
  given to \<open>bind\<close> is that of a \<open>size_t\<close>, too short for any socket address; and with an address
  from one of its constructors the acceptor reads a member that was never written.
\<close>

theorem acceptor_behaviour:
  assumes "0 \<le> connfd"
  shows "(hasNewConnectionCallback l \<longrightarrow> Acceptor_handleRead onNew (Accepted connfd peer) second reopened host l
      = onNew connfd (setSockAddrInet6 peer (InetAddress_port host 0 False False)) l)
    \<and> (\<not> hasNewConnectionCallback l \<longrightarrow> (\<exists>l'. Acceptor_handleRead onNew (Accepted connfd peer) second reopened host l
        = Inr l' \<and> closed_fds l' = closed_fds l @ [connfd]))
    \<and> (\<forall>e. e \<noteq> EMFILE \<longrightarrow> Acceptor_handleRead onNew (AcceptErr e) second reopened host l = Inr l)
    \<and> (\<exists>l'. Acceptor_handleRead onNew (AcceptErr EMFILE) second reopened host l = Inr l'
        \<and> closed_fds l' = closed_fds l @ [idleFd l, second] \<and> idleFd l' = reopened)
    \<and> (\<forall>l'. Acceptor_ctor c sockfd idle cb listenAddr reuse l = Inr l' \<longrightarrow>
        (\<exists>a len. bind_calls l' = bind_calls l @ [(sockfd, a, len)] \<and> len < 16))
    \<and> Acceptor_ctor c sockfd idle cb (InetAddress_port host port lo v6) reuse l
        = (if v6 then Inl Uninitialised else if idle < 0 then Inl AssertFailed else Inl Uninitialised)"
proof (intro conjI)
  show "\<forall>l'. Acceptor_ctor c sockfd idle cb listenAddr reuse l = Inr l' \<longrightarrow>
        (\<exists>a len. bind_calls l' = bind_calls l @ [(sockfd, a, len)] \<and> len < 16)"
    by (auto simp: Acceptor_ctor_def Let_def bindR_eq_Inr cassert_eq_Inr Socket_bindAddress_def bindOrDie_def
        setReadCallback_def set_chan_def Socket_setReusePort_def Socket_setReuseAddr_def newChannel_def bind_len_def)
  show "Acceptor_ctor c sockfd idle cb (InetAddress_port host port lo v6) reuse l
        = (if v6 then Inl Uninitialised else if idle < 0 then Inl AssertFailed else Inl Uninitialised)"
    by (simp add: Acceptor_ctor_def InetAddress_port_def ia_family_def getSockAddr_def read_member_def
        Socket_bindAddress_def Let_def cassert_def)
qed (use assms in \<open>simp_all add: Acceptor_handleRead_def Socket_accept_def sockets_accept_def sockets_close_def\<close>)

definition sample_acc :: "(nat, nat) acc_loop" where
  "sample_acc = event_loop.extend (loop_members 0 0)
     \<lparr>acceptFd = 4, acceptChannel = 7, hasNewConnectionCallback = False, listenning = True, idleFd = 6,
      acc_opts = [], bind_calls = [], listen_calls = [], closed_fds = []\<rparr>"

theorem acceptor_behaviour_witness:
  "\<exists>l'. Acceptor_handleRead (\<lambda>_ _ l. Inr l) (Accepted 9 zero_saddr) 0 0 LittleEndian sample_acc = Inr l'
    \<and> closed_fds l' = [9]"
  using acceptor_behaviour [of 9 sample_acc "\<lambda>_ _ l. Inr l" zero_saddr 0 0 LittleEndian 7 4 6 0
      "InetAddress_of4 zero_saddr" True 0 True True]
  by (simp add: sample_acc_def event_loop.defs loop_members_def)

lemma fold_start_thread:
  "loops (fold (start_thread f cb) is p) = loops p @ map f is
    \<and> numThreads (fold (start_thread f cb) is p) = numThreads p
    \<and> pool_started (fold (start_thread f cb) is p) = pool_started p
    \<and> next_loop (fold (start_thread f cb) is p) = next_loop p
    \<and> initialised (fold (start_thread f cb) is p) = initialised p @ (if cb then map f is else [])
    \<and> baseLoop (fold (start_thread f cb) is p) = baseLoop p"
  by (induction "is" arbitrary: p) (simp_all add: start_thread_def)

text \<open>
  Starting a server twice is harmless: only the first call starts the pool and asks the base
  loop, once, to listen; the threads' loops are then the ones handed out, and with no threads the
  initialisation callback runs on the base loop.
\<close>

lemma server_start:
  assumes "srv_started s = 0" and "srv_pool s = pool_setThreadNum n (EventLoopThreadPool_ctor base nm)"
    and "0 \<le> n"
  shows "\<exists>s1. TcpServer_start f False s = Inr s1 \<and> pool_ok (srv_pool s1)
    \<and> loops (srv_pool s1) = map f [0..<nat n]
    \<and> initialised (srv_pool s1) = (if srv_hasInit s then if n = 0 then [base] else map f [0..<nat n] else [])
    \<and> srv_posts s1 = srv_posts s @ [RunInLoop (srv_loop s) SrvListen]
    \<and> TcpServer_start f listening s1 = Inr s1"
  using assms fold_start_thread [of f "srv_hasInit s" "[0..<nat n]"
      "(pool_setThreadNum n (EventLoopThreadPool_ctor base nm))\<lparr>pool_started := True\<rparr>"]
  by (auto simp: TcpServer_start_def getAndSet_def pool_start_def pool_setThreadNum_def
      EventLoopThreadPool_ctor_def pool_ok_def Let_def)

end
