(* ===== verification/Connector.thy ===== *)
theory Connector
  imports Inet_Address Event_Loop "HOL-Library.Multiset"
begin

text \<open>
  \<open>net/Connector\<close>: the client side of connecting, with its retries. The channel of an attempt is
  owned by the connector; the calls of \<open>socket\<close> and \<open>connect\<close>,
  the delays asked of \<open>runAfter\<close>, the descriptors opened, closed and handed
  to the new-connection callback are histories. What the kernel answers (the new descriptor, the
  error of \<open>connect\<close>, the pending socket error, the addresses of the two ends) and the address of
  a new channel are arguments.
\<close>

section \<open>Data\<close>

datatype con_state = ConDisconnected | ConConnecting | ConConnected

datatype con_functor = ConStartInLoop | ConStopInLoop | ConResetChannel

datatype con_cb = ConHandleWrite | ConHandleError

text \<open>The system calls that make a socket and connect it.\<close>

datatype sock_call = SocketCall int fd | ConnectCall fd saddr

record connector = "(con_cb, con_functor) event_loop" +
  serverAddr :: inet_address
  con_connect :: bool
  con_st :: con_state
  con_channel :: "addr option"
  retryDelayMs :: int
  retry_delays :: "int list"
  sock_calls :: "sock_call list"
  opened :: "fd list"
  con_closed :: "fd list"
  handed :: "fd list"

definition kMaxRetryDelayMs :: int where "kMaxRetryDelayMs = 30 * 1000"
definition kInitRetryDelayMs :: int where "kInitRetryDelayMs = 500"

definition Connector_ctor :: "(con_cb, con_functor) event_loop \<Rightarrow> inet_address \<Rightarrow> connector" where
  "Connector_ctor loop a = event_loop.extend loop
     \<lparr>serverAddr = a, con_connect = False, con_st = ConDisconnected, con_channel = None,
      retryDelayMs = kInitRetryDelayMs, retry_delays = [], sock_calls = [], opened = [], con_closed = [], handed = []\<rparr>"

section \<open>Operations\<close>

definition con_close :: "fd \<Rightarrow> connector \<Rightarrow> connector" where
  "con_close sockfd l = l\<lparr>con_closed := con_closed l @ [sockfd]\<rparr>"

definition Connector_retry :: "fd \<Rightarrow> connector \<Rightarrow> connector" where
  "Connector_retry sockfd l =
     (let l1 = (con_close sockfd l)\<lparr>con_st := ConDisconnected\<rparr>
      in if con_connect l1
         then l1\<lparr>retry_delays := retry_delays l1 @ [retryDelayMs l1],
                 retryDelayMs := min (retryDelayMs l1 * 2) kMaxRetryDelayMs\<rparr>
         else l1)"

definition Connector_connecting :: "addr \<Rightarrow> fd \<Rightarrow> connector \<Rightarrow> connector res" where
  "Connector_connecting c sockfd l =
     (let l1 = l\<lparr>con_st := ConConnecting\<rparr>
      in cassert (con_channel l1 = None)
          (bindR (setWriteCallback c ConHandleWrite (newChannel c sockfd (l1\<lparr>con_channel := Some c\<rparr>)))
            (\<lambda>l2. bindR (setErrorCallback c ConHandleError l2) (enableWriting c))))"

text \<open>The cases of the switch on \<open>errno\<close>, with the numbers of Linux; every other number is closed.\<close>

definition goes_on :: "int set" where
  "goes_on = {0, 115, 4, 106}"

definition tries_again :: "int set" where
  "tries_again = {11, 98, 99, 111, 101}"

text \<open>\<open>sockfd\<close> is what \<open>socket\<close> returns, also when it fails: the failure is only logged.\<close>

definition createNonblockingOrDie :: "int \<Rightarrow> fd \<Rightarrow> connector \<Rightarrow> connector" where
  "createNonblockingOrDie family sockfd l =
     l\<lparr>sock_calls := sock_calls l @ [SocketCall family sockfd], opened := opened l @ [sockfd]\<rparr>"

definition sockets_connect :: "fd \<Rightarrow> saddr \<Rightarrow> connector \<Rightarrow> connector" where
  "sockets_connect sockfd a l = l\<lparr>sock_calls := sock_calls l @ [ConnectCall sockfd a]\<rparr>"

definition Connector_connect :: "addr \<Rightarrow> fd \<Rightarrow> int \<Rightarrow> connector \<Rightarrow> connector res" where
  "Connector_connect c sockfd savedErrno l =
     bindR (ia_family (serverAddr l)) (\<lambda>family.
       let l1 = createNonblockingOrDie family sockfd l
       in bindR (getSockAddr (serverAddr l1)) (\<lambda>a.
          let l2 = sockets_connect sockfd a l1
          in if savedErrno \<in> goes_on then Connector_connecting c sockfd l2
             else if savedErrno \<in> tries_again then Inr (Connector_retry sockfd l2)
             else Inr (con_close sockfd l2)))"

definition Connector_startInLoop :: "addr \<Rightarrow> fd \<Rightarrow> int \<Rightarrow> connector \<Rightarrow> connector res" where
  "Connector_startInLoop c sockfd savedErrno l =
     (if con_connect l then Connector_connect c sockfd savedErrno l else Inr l)"

definition removeAndResetChannel :: "connector \<Rightarrow> (fd \<times> connector) res" where
  "removeAndResetChannel l =
     (case con_channel l of
        None \<Rightarrow> Inl NullDeref
      | Some c \<Rightarrow>
          bindR (disableAll c l) (\<lambda>l1. bindR (Channel_remove c l1) (\<lambda>l2.
            bindR (get_chan c l2) (\<lambda>ch. Inr (ch_fd ch, queneInLoop (threadId l2) ConResetChannel l2)))))"

definition resetChannel :: "connector \<Rightarrow> connector res" where
  "resetChannel l =
     (case con_channel l of
        None \<Rightarrow> Inr l
      | Some c \<Rightarrow> bindR (Channel_dtor c l) (\<lambda>l1. Inr (l1\<lparr>con_channel := None\<rparr>)))"

definition Connector_handleWrite :: "int + int \<Rightarrow> saddr option \<times> saddr option \<Rightarrow> connector \<Rightarrow> connector res" where
  "Connector_handleWrite err ends l =
     (if con_st l = ConConnecting
      then bindR (removeAndResetChannel l) (\<lambda>(sockfd, l1).
        if getSocketError err \<noteq> 0 then Inr (Connector_retry sockfd l1)
        else if isSelfConnect (fst ends) (snd ends) then Inr (Connector_retry sockfd l1)
        else let l2 = l1\<lparr>con_st := ConConnected\<rparr>
          in if con_connect l2 then Inr (l2\<lparr>handed := handed l2 @ [sockfd]\<rparr>)
             else Inr (con_close sockfd l2))
      else cassert (con_st l = ConDisconnected) (Inr l))"

definition Connector_handleError :: "connector \<Rightarrow> connector res" where
  "Connector_handleError l =
     (if con_st l = ConConnecting
      then bindR (removeAndResetChannel l) (\<lambda>(sockfd, l1). Inr (Connector_retry sockfd l1))
      else Inr l)"

definition Connector_stopInLoop :: "connector \<Rightarrow> connector res" where
  "Connector_stopInLoop l =
     (if con_st l = ConConnecting
      then bindR (removeAndResetChannel (l\<lparr>con_st := ConDisconnected\<rparr>))
            (\<lambda>(sockfd, l1). Inr (Connector_retry sockfd l1))
      else Inr l)"

text \<open>\<open>start\<close> and \<open>stop\<close> from any thread; \<open>exec\<close> is what running a functor at once does.\<close>

definition Connector_start :: "(con_functor \<Rightarrow> connector \<Rightarrow> connector res) \<Rightarrow> tid \<Rightarrow> connector \<Rightarrow> connector res" where
  "Connector_start exec self l = runInLoop exec self ConStartInLoop (l\<lparr>con_connect := True\<rparr>)"

definition Connector_stop :: "tid \<Rightarrow> connector \<Rightarrow> connector" where
  "Connector_stop self l = queneInLoop self ConStopInLoop (l\<lparr>con_connect := False\<rparr>)"

definition Connector_restart :: "addr \<Rightarrow> fd \<Rightarrow> int \<Rightarrow> connector \<Rightarrow> connector res" where
  "Connector_restart c sockfd savedErrno l =
     Connector_startInLoop c sockfd savedErrno
       (l\<lparr>con_st := ConDisconnected, retryDelayMs := kInitRetryDelayMs, con_connect := True\<rparr>)"

definition Connector_dtor :: "connector \<Rightarrow> connector res" where
  "Connector_dtor l = cassert (con_channel l = None) (Inr l)"

section \<open>Where every descriptor goes\<close>

text \<open>The descriptor in the poller: normally that of the attempt under way.\<close>

definition pending_fds :: "connector \<Rightarrow> fd list" where
  "pending_fds l = (case con_channel l of None \<Rightarrow> [] | Some c \<Rightarrow>
     (case chanHeap l c of None \<Rightarrow> [] | Some ch \<Rightarrow> if index ch \<noteq> KNew then [ch_fd ch] else []))"

text \<open>
  While there is an attempt the connector has a channel in the poller. Otherwise it may still hold the channel
  of the last attempt out of the poller, and then exactly one \<open>resetChannel\<close> is queued for it; or the
  channel is still in the poller although the attempt has been given up.
\<close>

definition channel_rest :: "connector \<Rightarrow> bool" where
  "channel_rest l \<longleftrightarrow>
     (case con_channel l of
        None \<Rightarrow> con_st l \<noteq> ConConnecting \<and> ConResetChannel \<notin> set (pendingFunctors l)
      | Some c \<Rightarrow> \<exists>ch. chanHeap l c = Some ch
          \<and> (if index ch \<noteq> KNew then con_st l \<noteq> ConConnected \<and> ConResetChannel \<notin> set (pendingFunctors l)
             else con_st l \<noteq> ConConnecting \<and> \<not> addedToLoop ch \<and> count_list (pendingFunctors l) ConResetChannel = 1))"

text \<open>Given up: the attempt is over for the connector, but its descriptor stays in the poller.\<close>

definition stranded :: "connector \<Rightarrow> bool" where
  "stranded l \<longleftrightarrow> con_st l \<noteq> ConConnecting \<and> pending_fds l \<noteq> []"

definition delays_ok :: "connector \<Rightarrow> bool" where
  "delays_ok l \<longleftrightarrow> kInitRetryDelayMs \<le> retryDelayMs l \<and> retryDelayMs l \<le> kMaxRetryDelayMs
     \<and> (\<forall>d \<in> set (retry_delays l). kInitRetryDelayMs \<le> d \<and> d \<le> kMaxRetryDelayMs)"

definition fds_ok :: "connector \<Rightarrow> bool" where
  "fds_ok l \<longleftrightarrow> mset (opened l) = mset (con_closed l) + mset (handed l) + mset (pending_fds l)"

definition con_inv :: "connector \<Rightarrow> bool" where
  "con_inv l \<longleftrightarrow> reactor_inv l \<and> channel_rest l \<and> fds_ok l \<and> delays_ok l"

definition con_inv_of :: "bool \<Rightarrow> connector \<Rightarrow> bool" where
  "con_inv_of strict l \<longleftrightarrow> con_inv l \<and> (strict \<longrightarrow> \<not> stranded l)"

definition con_init :: "connector \<Rightarrow> bool" where
  "con_init l \<longleftrightarrow> (\<exists>loop a. l = Connector_ctor loop a \<and> reactor_inv loop
     \<and> ConResetChannel \<notin> set (pendingFunctors loop))"

text \<open>
  Events, functors and calls of a connector, in any order, as far as they return. \<open>startInLoop\<close> runs as a queued
  functor or from the timer of \<open>retry\<close>, in both cases with the address of the channel it may
  allocate. With \<open>strict\<close> (the assertion the code has commented out, at \<open>startInLoop\<close>), none of this starts an attempt
  while another is under way. The loop may start, go on with or end its round over the active channels at any time.
\<close>

fun run_con_functor :: "addr \<Rightarrow> fd \<Rightarrow> int \<Rightarrow> con_functor \<Rightarrow> connector \<Rightarrow> connector res" where
  "run_con_functor c sockfd err ConStartInLoop l = Connector_startInLoop c sockfd err l"
| "run_con_functor c sockfd err ConStopInLoop l = Connector_stopInLoop l"
| "run_con_functor c sockfd err ConResetChannel l = resetChannel l"

inductive con_step :: "bool \<Rightarrow> connector \<Rightarrow> connector \<Rightarrow> bool" for strict where
  start_elsewhere: "self \<noteq> threadId l \<Longrightarrow> Connector_start exec self l = Inr l' \<Longrightarrow> con_step strict l l'"
| start_here: "chanHeap l c = None \<Longrightarrow> (strict \<longrightarrow> con_st l \<noteq> ConConnecting) \<Longrightarrow>
    Connector_start (run_con_functor c sockfd err) (threadId l) l = Inr l' \<Longrightarrow> con_step strict l l'"
| timer: "chanHeap l c = None \<Longrightarrow> (strict \<longrightarrow> con_st l \<noteq> ConConnecting) \<Longrightarrow>
    Connector_startInLoop c sockfd err l = Inr l' \<Longrightarrow> con_step strict l l'"
| restart: "chanHeap l c = None \<Longrightarrow> (strict \<longrightarrow> con_st l \<noteq> ConConnecting) \<Longrightarrow>
    Connector_restart c sockfd err l = Inr l' \<Longrightarrow> con_step strict l l'"
| stop: "con_step strict l (Connector_stop self l)"
| queued: "pendingFunctors l = f # fs \<Longrightarrow> chanHeap l c = None \<Longrightarrow>
    (strict \<longrightarrow> f = ConStartInLoop \<longrightarrow> con_st l \<noteq> ConConnecting) \<Longrightarrow>
    run_con_functor c sockfd err f (l\<lparr>pendingFunctors := fs\<rparr>) = Inr l' \<Longrightarrow> con_step strict l l'"
| writable: "Connector_handleWrite err ends l = Inr l' \<Longrightarrow> con_step strict l l'"
| error: "Connector_handleError l = Inr l' \<Longrightarrow> con_step strict l l'"
| loop_moves: "con_step strict l (l\<lparr>eventHandling := handling, activeChannels := active, currentActiveChannel := current\<rparr>)"

section \<open>Every operation keeps the invariant\<close>

lemma quene_simps [simp]:
  "pendingFunctors (queneInLoop self f l) = pendingFunctors l @ [f]"
  "chanHeap (queneInLoop self f l) = chanHeap l" "pollChannels (queneInLoop self f l) = pollChannels l"
  "loopId (queneInLoop self f l) = loopId l" "threadId (queneInLoop self f l) = threadId l"
  by (simp_all add: queue_defs)

lemma quene_con_simps [simp]:
  "con_channel (queneInLoop self f l) = con_channel l" "con_st (queneInLoop self f l) = con_st l"
  "con_connect (queneInLoop self f l) = con_connect l" "opened (queneInLoop self f l) = opened l"
  "con_closed (queneInLoop self f l) = con_closed l" "handed (queneInLoop self f l) = handed l"
  "retryDelayMs (queneInLoop self f l) = retryDelayMs l"
  "retry_delays (queneInLoop self f l) = retry_delays l"
  by (simp_all add: queue_defs)

lemma retry_simps [simp]:
  "chanHeap (Connector_retry sockfd l) = chanHeap l" "con_channel (Connector_retry sockfd l) = con_channel l"
  "con_st (Connector_retry sockfd l) = ConDisconnected"
  "pendingFunctors (Connector_retry sockfd l) = pendingFunctors l"
  "opened (Connector_retry sockfd l) = opened l" "handed (Connector_retry sockfd l) = handed l"
  "con_closed (Connector_retry sockfd l) = con_closed l @ [sockfd]"
  by (simp_all add: Connector_retry_def con_close_def Let_def)

lemma pending_frame:
  "con_channel l' = con_channel l \<Longrightarrow> chanHeap l' = chanHeap l \<Longrightarrow> pending_fds l' = pending_fds l"
  by (simp add: pending_fds_def split: option.split)

lemma retry_pending [simp]: "pending_fds (Connector_retry sockfd l) = pending_fds l"
  by (rule pending_frame) simp_all

text \<open>What stays when only the loop's part of the state changes.\<close>

definition same_con :: "connector \<Rightarrow> connector \<Rightarrow> bool" where
  "same_con l l' \<longleftrightarrow> con_st l' = con_st l \<and> con_channel l' = con_channel l \<and> con_connect l' = con_connect l
     \<and> opened l' = opened l \<and> con_closed l' = con_closed l \<and> handed l' = handed l
     \<and> retryDelayMs l' = retryDelayMs l \<and> retry_delays l' = retry_delays l \<and> serverAddr l' = serverAddr l"

lemma removeAndReset_ok:
  assumes inv: "reactor_inv l" and c: "con_channel l = Some c" "chanHeap l c = Some ch" "index ch \<noteq> KNew"
    and idle: "eventHandling l \<Longrightarrow> c \<notin> set (activeChannels l) \<or> currentActiveChannel l = Some c"
  shows "\<exists>l1. removeAndResetChannel l = Inr (ch_fd ch, l1) \<and> reactor_inv l1 \<and> same_con l l1
    \<and> pendingFunctors l1 = pendingFunctors l @ [ConResetChannel]
    \<and> (\<exists>ch1. chanHeap l1 c = Some ch1 \<and> \<not> addedToLoop ch1 \<and> index ch1 = KNew)"
proof -
  have free: "pollChannels l (ch_fd ch) = None \<or> pollChannels l (ch_fd ch) = Some c"
    using reactor_invD(1) [OF inv c(2)] c(3) by (simp add: chan_ok_def)
  let ?a = "after_update (\<lambda>_. kNoneEvent) c ch l"
  have dis: "disableAll c l = Inr ?a"
    by (simp add: event_ops modify_events_ok [OF inv c(2) free])
  have inva: "reactor_inv ?a" by (rule after_update_inv [OF inv c(2) free])
  let ?ch = "ch\<lparr>events := kNoneEvent, addedToLoop := True,
    index := (if index ch = KAdded then KDeleted else KAdded)\<rparr>"
  have ch: "chanHeap ?a c = Some ?ch" "index ?ch \<noteq> KNew" "isNoneEvent ?ch" by (simp_all add: isNoneEvent_def)
  have rm: "Channel_remove c ?a = Inr (after_remove c ?ch ?a)"
    by (rule Channel_remove_ok [OF inva ch]) (use idle in \<open>simp add: after_update_def Let_def\<close>)
  have invr: "reactor_inv (after_remove c ?ch ?a)" by (rule after_remove_inv [OF inva ch(1,2)])
  let ?r = "queneInLoop (threadId (after_remove c ?ch ?a)) ConResetChannel (after_remove c ?ch ?a)"
  have res: "removeAndResetChannel l = Inr (ch_fd ch, ?r)"
    by (simp add: removeAndResetChannel_def c dis rm) (simp add: after_remove_def)
  have "same_con l ?r" by (simp add: same_con_def queue_defs after_remove_def after_update_def Let_def)
  moreover have "reactor_inv ?r" using invr by (simp add: reactor_inv_cong [of ?r "after_remove c ?ch ?a"])
  ultimately show ?thesis
    using res by - (rule exI [of _ ?r], simp add: after_remove_def after_update_def Let_def)
qed

lemma removeAndReset_busy:
  assumes inv: "reactor_inv l" and c: "con_channel l = Some c" "chanHeap l c = Some ch" "index ch \<noteq> KNew"
    and busy: "eventHandling l" "c \<in> set (activeChannels l)" "currentActiveChannel l \<noteq> Some c"
  shows "removeAndResetChannel l = Inl AssertFailed"
proof -
  have free: "pollChannels l (ch_fd ch) = None \<or> pollChannels l (ch_fd ch) = Some c"
    using reactor_invD(1) [OF inv c(2)] c(3) by (simp add: chan_ok_def)
  have own: "ownerLoop ch = loopId l" using reactor_invD(1) [OF inv c(2)] by (simp add: chan_ok_def)
  show ?thesis
    using busy own
    by (simp add: removeAndResetChannel_def c event_ops modify_events_ok [OF inv c(2) free]
        Channel_remove_def isNoneEvent_def EventLoop_removeChannel_def)
      (simp add: after_update_def Let_def)
qed

text \<open>The state in which the descriptor of an ended attempt is still to be closed or handed over.\<close>

definition detached :: "fd \<Rightarrow> connector \<Rightarrow> bool" where
  "detached sockfd l \<longleftrightarrow> reactor_inv l \<and> delays_ok l
     \<and> mset (opened l) = mset (con_closed l) + mset (handed l) + {#sockfd#}
     \<and> count_list (pendingFunctors l) ConResetChannel = 1
     \<and> (\<exists>c ch. con_channel l = Some c \<and> chanHeap l c = Some ch \<and> \<not> addedToLoop ch \<and> index ch = KNew)"

lemma detach:
  assumes inv: "con_inv l" and st: "con_st l = ConConnecting"
    and rm: "removeAndResetChannel (l\<lparr>con_st := st\<rparr>) = Inr (sockfd, l1)"
  shows "detached sockfd l1 \<and> same_con (l\<lparr>con_st := st\<rparr>) l1 \<and> pending_fds l = [sockfd]"
proof -
  let ?l = "l\<lparr>con_st := st\<rparr>"
  from inv st obtain c ch where c: "con_channel ?l = Some c" "chanHeap ?l c = Some ch" "index ch \<noteq> KNew"
    and rest: "ConResetChannel \<notin> set (pendingFunctors l)"
    by (auto simp: con_inv_def channel_rest_def split: option.splits if_splits)
  have R: "reactor_inv ?l" using inv by (simp add: con_inv_def reactor_inv_cong [of ?l l])
  have idle: "eventHandling ?l \<Longrightarrow> c \<notin> set (activeChannels ?l) \<or> currentActiveChannel ?l = Some c"
    using removeAndReset_busy [OF R c] rm by auto
  from removeAndReset_ok [OF R c idle] rm have l1: "sockfd = ch_fd ch" "reactor_inv l1" "same_con ?l l1"
    "pendingFunctors l1 = pendingFunctors l @ [ConResetChannel]"
    "\<exists>ch1. chanHeap l1 c = Some ch1 \<and> \<not> addedToLoop ch1 \<and> index ch1 = KNew" by auto
  have pend: "pending_fds l = [sockfd]" using c st l1(1) by (simp add: pending_fds_def)
  have "count_list (pendingFunctors l1) ConResetChannel = 1"
    using rest by (simp add: l1(4) count_notin)
  with l1 pend inv c(1) show ?thesis
    by (auto simp: detached_def con_inv_def fds_ok_def delays_ok_def same_con_def)
qed

lemma detached_inv:
  assumes "detached sockfd l" and "st \<noteq> ConConnecting"
  shows "con_inv (Connector_retry sockfd l)" "con_inv (con_close sockfd (l\<lparr>con_st := st\<rparr>))"
    "con_inv (l\<lparr>con_st := st, handed := handed l @ [sockfd]\<rparr>)"
proof -
  from assms(1) obtain c ch where c: "con_channel l = Some c" "chanHeap l c = Some ch"
    "\<not> addedToLoop ch" "index ch = KNew" by (auto simp: detached_def)
  have R: "reactor_inv l" using assms(1) by (simp add: detached_def)
  have cong: "reactor_inv (Connector_retry sockfd l)" "reactor_inv (con_close sockfd (l\<lparr>con_st := st\<rparr>))"
    "reactor_inv (l\<lparr>con_st := st, handed := handed l @ [sockfd]\<rparr>)"
    using R reactor_inv_cong [of "Connector_retry sockfd l" l]
      reactor_inv_cong [of "con_close sockfd (l\<lparr>con_st := st\<rparr>)" l]
      reactor_inv_cong [of "l\<lparr>con_st := st, handed := handed l @ [sockfd]\<rparr>" l]
    by (simp_all add: Connector_retry_def con_close_def Let_def)
  have "delays_ok (Connector_retry sockfd l)"
    using assms(1) by (auto simp: detached_def delays_ok_def Connector_retry_def con_close_def Let_def
        kInitRetryDelayMs_def kMaxRetryDelayMs_def)
  moreover have "fds_ok (Connector_retry sockfd l)"
    using assms(1) c by (simp add: detached_def fds_ok_def pending_fds_def)
  moreover have "channel_rest (Connector_retry sockfd l)"
    using assms(1) c by (simp add: detached_def channel_rest_def Connector_retry_def con_close_def Let_def)
  ultimately show "con_inv (Connector_retry sockfd l)" using cong by (simp add: con_inv_def)
  show "con_inv (con_close sockfd (l\<lparr>con_st := st\<rparr>))"
    "con_inv (l\<lparr>con_st := st, handed := handed l @ [sockfd]\<rparr>)"
    using assms c cong
    by (simp_all add: con_inv_def detached_def channel_rest_def fds_ok_def delays_ok_def pending_fds_def
        con_close_def)
qed

lemma detach_here:
  "con_inv l \<Longrightarrow> con_st l = ConConnecting \<Longrightarrow> removeAndResetChannel l = Inr (sockfd, l1) \<Longrightarrow> detached sockfd l1"
  using detach [of l "con_st l" sockfd l1] by (cases l) simp

lemma handleError_inv:
  assumes "con_inv l" and "Connector_handleError l = Inr l'" shows "con_inv l'"
proof (cases "con_st l = ConConnecting")
  case True
  with assms(2) obtain sockfd l1 where "removeAndResetChannel l = Inr (sockfd, l1)"
    and l': "l' = Connector_retry sockfd l1"
    by (auto simp: Connector_handleError_def bindR_eq_Inr)
  from detach_here [OF assms(1) True this(1)] show ?thesis
    by (auto simp: l' intro: detached_inv(1) [where st = ConDisconnected])
next
  case False
  with assms show ?thesis by (simp add: Connector_handleError_def)
qed

lemma stopInLoop_inv:
  assumes "con_inv l" and "Connector_stopInLoop l = Inr l'" shows "con_inv l'"
proof (cases "con_st l = ConConnecting")
  case True
  with assms(2) obtain sockfd l1 where "removeAndResetChannel (l\<lparr>con_st := ConDisconnected\<rparr>) = Inr (sockfd, l1)"
    and l': "l' = Connector_retry sockfd l1"
    by (auto simp: Connector_stopInLoop_def bindR_eq_Inr)
  from detach [OF assms(1) True this(1)] show ?thesis
    by (auto simp: l' intro: detached_inv(1) [where st = ConDisconnected])
next
  case False
  with assms show ?thesis by (simp add: Connector_stopInLoop_def)
qed

lemma handleWrite_result:
  assumes "con_st l = ConConnecting" and "Connector_handleWrite err ends l = Inr l'"
  obtains sockfd l1 where "removeAndResetChannel l = Inr (sockfd, l1)"
    "l' = (if getSocketError err \<noteq> 0 \<or> isSelfConnect (fst ends) (snd ends) then Connector_retry sockfd l1
      else if con_connect l1 then l1\<lparr>con_st := ConConnected, handed := handed l1 @ [sockfd]\<rparr>
      else con_close sockfd (l1\<lparr>con_st := ConConnected\<rparr>))"
proof -
  from assms obtain sockfd l1 where rm: "removeAndResetChannel l = Inr (sockfd, l1)"
    by (auto simp: Connector_handleWrite_def bindR_eq_Inr)
  with assms that show thesis by (simp add: Connector_handleWrite_def Let_def split: if_splits)
qed

lemma handleWrite_inv:
  assumes "con_inv l" and "Connector_handleWrite err ends l = Inr l'" shows "con_inv l'"
proof (cases "con_st l = ConConnecting")
  case True
  from handleWrite_result [OF True assms(2)] obtain sockfd l1 where rm: "removeAndResetChannel l = Inr (sockfd, l1)"
    and l': "l' = (if getSocketError err \<noteq> 0 \<or> isSelfConnect (fst ends) (snd ends) then Connector_retry sockfd l1
      else if con_connect l1 then l1\<lparr>con_st := ConConnected, handed := handed l1 @ [sockfd]\<rparr>
      else con_close sockfd (l1\<lparr>con_st := ConConnected\<rparr>))" .
  from detached_inv [OF detach_here [OF assms(1) True rm], of ConConnected] show ?thesis by (simp add: l')
next
  case False
  with assms show ?thesis by (simp add: Connector_handleWrite_def cassert_eq_Inr)
qed

lemma con_inv_cong:
  assumes "con_inv l" and "reactor_inv l' = reactor_inv l" and "chanHeap l' = chanHeap l"
    and "con_st l' = con_st l" "con_channel l' = con_channel l" "opened l' = opened l"
    "con_closed l' = con_closed l" "handed l' = handed l" "retry_delays l' = retry_delays l"
    and "count_list (pendingFunctors l') ConResetChannel = count_list (pendingFunctors l) ConResetChannel"
    and "kInitRetryDelayMs \<le> retryDelayMs l'" "retryDelayMs l' \<le> kMaxRetryDelayMs"
  shows "con_inv l'"
proof -
  have queue: "ConResetChannel \<in> set (pendingFunctors l') \<longleftrightarrow> ConResetChannel \<in> set (pendingFunctors l)"
    using assms(10) by (metis count_list_0_iff)
  have "channel_rest l'"
    using assms(1) unfolding con_inv_def channel_rest_def assms(3-5) assms(10) queue by (elim conjE)
  moreover have "fds_ok l'"
    using assms(1) unfolding con_inv_def fds_ok_def pending_fds_def assms(3-8) by (elim conjE)
  moreover have "delays_ok l'" using assms(1,9,11,12) by (simp add: con_inv_def delays_ok_def)
  ultimately show ?thesis using assms(1,2) by (simp add: con_inv_def)
qed

lemma connecting_result:
  assumes inv: "reactor_inv l" and fresh: "chanHeap l c = None"
    and run: "Connector_connecting c sockfd l = Inr l'"
  shows "con_channel l = None \<and> reactor_inv l' \<and> same_con (l\<lparr>con_st := ConConnecting, con_channel := Some c\<rparr>) l'
    \<and> pendingFunctors l' = pendingFunctors l
    \<and> (\<exists>ch. chanHeap l' c = Some ch \<and> ch_fd ch = sockfd \<and> index ch \<noteq> KNew)"
proof -
  let ?l0 = "l\<lparr>con_st := ConConnecting, con_channel := Some c\<rparr>"
  let ?ch = "(mkChannel (loopId l) sockfd)\<lparr>writeCallback := Some ConHandleWrite, errorCallback := Some ConHandleError\<rparr>"
  let ?m = "?l0\<lparr>chanHeap := (chanHeap l)(c \<mapsto> ?ch)\<rparr>"
  have none: "con_channel l = None" and en: "enableWriting c ?m = Inr l'"
    using run by (simp_all add: Connector_connecting_def cassert_eq_Inr Let_def newChannel_def
        setWriteCallback_def setErrorCallback_def)
  have R0: "reactor_inv (newChannel c sockfd ?l0)"
    by (rule newChannel_reactor) (use inv fresh in \<open>simp_all add: reactor_inv_cong [of ?l0 l]\<close>)
  have Rm: "reactor_inv ?m"
    by (rule set_chan_keeps_inv [OF R0, of c
          "\<lambda>ch. ch\<lparr>writeCallback := Some ConHandleWrite, errorCallback := Some ConHandleError\<rparr>"])
      (simp_all add: newChannel_def)
  from modify_events_cases [OF Rm en [unfolded event_ops]] obtain ch where
    ch: "chanHeap ?m c = Some ch" "l' = after_update (\<lambda>e. e OR kWriteEvent) c ch ?m"
    "pollChannels ?m (ch_fd ch) = None \<or> pollChannels ?m (ch_fd ch) = Some c" by metis
  have "reactor_inv l'" unfolding ch(2) by (rule after_update_inv [OF Rm ch(1,3)])
  moreover have "ch = ?ch" using ch(1) by simp
  ultimately show ?thesis
    using none by (simp add: ch(2) after_update_def Let_def same_con_def mkChannel_def KNew_def KAdded_def)
qed

lemma connect_calls [simp]:
  "sockets_connect sockfd a (createNonblockingOrDie fam sockfd l) =
    l\<lparr>sock_calls := sock_calls l @ [SocketCall fam sockfd, ConnectCall sockfd a], opened := opened l @ [sockfd]\<rparr>"
  by (simp add: sockets_connect_def createNonblockingOrDie_def)

lemma create_serverAddr [simp]: "serverAddr (createNonblockingOrDie fam sockfd l) = serverAddr l"
  by (simp add: createNonblockingOrDie_def)

definition tried :: "fd \<Rightarrow> int \<Rightarrow> saddr \<Rightarrow> connector \<Rightarrow> connector" where
  "tried sockfd fam a l =
     l\<lparr>sock_calls := sock_calls l @ [SocketCall fam sockfd, ConnectCall sockfd a], opened := opened l @ [sockfd]\<rparr>"

lemma connect_cases:
  assumes "Connector_connect c sockfd err l = Inr l'"
  obtains fam a where "err \<in> goes_on" "Connector_connecting c sockfd (tried sockfd fam a l) = Inr l'"
    | fam a where "err \<notin> goes_on" "l' = Connector_retry sockfd (tried sockfd fam a l)"
    | fam a where "err \<notin> goes_on" "l' = con_close sockfd (tried sockfd fam a l)"
proof -
  from assms obtain fam a where "(let l2 = sockets_connect sockfd a (createNonblockingOrDie fam sockfd l)
      in if err \<in> goes_on then Connector_connecting c sockfd l2
         else if err \<in> tries_again then Inr (Connector_retry sockfd l2) else Inr (con_close sockfd l2)) = Inr l'"
    unfolding Connector_connect_def bindR_eq_Inr Let_def by blast
  then have "(if err \<in> goes_on then Connector_connecting c sockfd (tried sockfd fam a l)
      else if err \<in> tries_again then Inr (Connector_retry sockfd (tried sockfd fam a l))
      else Inr (con_close sockfd (tried sockfd fam a l))) = Inr l'"
    unfolding connect_calls Let_def tried_def .
  with that show thesis by (cases "err \<in> goes_on"; cases "err \<in> tries_again") auto
qed

lemma connect_inv:
  assumes inv: "con_inv l" and fresh: "chanHeap l c = None"
    and run: "Connector_connect c sockfd err l = Inr l'"
  shows "con_inv l'"
proof -
  note [simp] = tried_def
  from connect_cases [OF run] obtain fam a where
    "Connector_connecting c sockfd (tried sockfd fam a l) = Inr l' \<or> l' = Connector_retry sockfd (tried sockfd fam a l)
      \<or> l' = con_close sockfd (tried sockfd fam a l)" by metis
  then consider (go) "Connector_connecting c sockfd (tried sockfd fam a l) = Inr l'"
    | (again) "l' = Connector_retry sockfd (tried sockfd fam a l)"
    | (drop) "l' = con_close sockfd (tried sockfd fam a l)" by blast
  then show ?thesis
  proof cases
    case go
    have R: "reactor_inv (tried sockfd fam a l)" using inv reactor_inv_cong [of "tried sockfd fam a l" l] by (simp add: con_inv_def)
    have "chanHeap (tried sockfd fam a l) c = None" using fresh by simp
    from connecting_result [OF R this go] obtain ch where res: "con_channel l = None" "reactor_inv l'"
      "con_st l' = ConConnecting" "con_channel l' = Some c" "pendingFunctors l' = pendingFunctors l"
      "opened l' = opened l @ [sockfd]" "con_closed l' = con_closed l" "handed l' = handed l"
      "retryDelayMs l' = retryDelayMs l" "retry_delays l' = retry_delays l"
      and ch: "chanHeap l' c = Some ch" "ch_fd ch = sockfd" "index ch \<noteq> KNew"
      by (simp add: same_con_def) blast
    have "channel_rest l'" using inv res(1,3-5) ch by (simp add: con_inv_def channel_rest_def)
    moreover have "fds_ok l'" using inv res(1,3,4,6-8) ch by (simp add: con_inv_def fds_ok_def pending_fds_def)
    moreover have "delays_ok l'" using inv res(9,10) by (simp add: con_inv_def delays_ok_def)
    ultimately show ?thesis using res(2) by (simp add: con_inv_def)
  next
    case again
    have R: "reactor_inv l'" using inv reactor_inv_cong [of l' l]
      by (simp add: again con_inv_def Connector_retry_def con_close_def Let_def)
    have D: "delays_ok l'"
      using inv by (auto simp: again con_inv_def delays_ok_def Connector_retry_def con_close_def Let_def
          kInitRetryDelayMs_def kMaxRetryDelayMs_def)
    have "pending_fds (tried sockfd fam a l) = pending_fds l" by (rule pending_frame) simp_all
    then have "fds_ok l'" using inv by (simp add: again con_inv_def fds_ok_def)
    moreover have "channel_rest l'" using inv
      by (cases "con_channel l") (auto simp: again con_inv_def channel_rest_def)
    ultimately show ?thesis using R D by (simp add: con_inv_def)
  next
    case drop
    have "reactor_inv l'" using inv reactor_inv_cong [of l' l] by (simp add: drop con_inv_def con_close_def)
    moreover have "delays_ok l'" using inv by (simp add: drop con_inv_def delays_ok_def con_close_def)
    moreover have "pending_fds l' = pending_fds l" by (rule pending_frame) (simp_all add: drop con_close_def)
    then have "fds_ok l'" using inv by (simp add: con_inv_def fds_ok_def) (simp add: drop con_close_def)
    moreover have "channel_rest l'" using inv
      by (cases "con_channel l") (auto simp: drop con_inv_def channel_rest_def con_close_def)
    ultimately show ?thesis by (simp add: con_inv_def)
  qed
qed

lemma startInLoop_inv:
  "con_inv l \<Longrightarrow> chanHeap l c = None \<Longrightarrow> Connector_startInLoop c sockfd err l = Inr l' \<Longrightarrow> con_inv l'"
  by (auto simp: Connector_startInLoop_def connect_inv split: if_splits)

lemma resetChannel_inv:
  assumes inv: "con_inv l" and q: "pendingFunctors l = ConResetChannel # fs"
    and run: "resetChannel (l\<lparr>pendingFunctors := fs\<rparr>) = Inr l'"
  shows "con_inv l'"
proof -
  let ?l = "l\<lparr>pendingFunctors := fs\<rparr>"
  from inv q obtain c ch where c: "con_channel l = Some c" "chanHeap l c = Some ch" "\<not> addedToLoop ch" "index ch = KNew"
    and st: "con_st l \<noteq> ConConnecting" and fs: "ConResetChannel \<notin> set fs"
    by (auto simp: con_inv_def channel_rest_def count_list_0_iff split: option.splits if_splits)
  have dtor: "Channel_dtor c ?l = Inr (?l\<lparr>chanHeap := (chanHeap l)(c := None)\<rparr>)"
    and l': "l' = ?l\<lparr>chanHeap := (chanHeap l)(c := None), con_channel := None\<rparr>"
    using run c by (simp_all add: resetChannel_def Channel_dtor_def cassert_eq_Inr bindR_eq_Inr)
  have R: "reactor_inv l'"
  proof -
    have "reactor_inv ?l" using inv reactor_inv_cong [of ?l l] by (simp add: con_inv_def)
    from destroy_reactor [OF this dtor] show ?thesis
      using reactor_inv_cong [of l' "?l\<lparr>chanHeap := (chanHeap l)(c := None)\<rparr>"] by (simp add: l')
  qed
  have "channel_rest l'" using st fs by (simp add: l' channel_rest_def)
  moreover have "fds_ok l'" using inv c by (simp add: l' con_inv_def fds_ok_def pending_fds_def)
  moreover have "delays_ok l'" using inv by (simp add: l' con_inv_def delays_ok_def)
  ultimately show ?thesis using R by (simp add: con_inv_def)
qed

lemma con_inv_delay: "con_inv l \<Longrightarrow> kInitRetryDelayMs \<le> retryDelayMs l \<and> retryDelayMs l \<le> kMaxRetryDelayMs"
  by (simp add: con_inv_def delays_ok_def)

lemma want_inv:
  assumes inv: "con_inv l" shows "con_inv (l\<lparr>con_connect := b\<rparr>)"
  by (rule con_inv_cong [OF inv reactor_inv_cong]) (simp_all add: con_inv_delay [OF inv])

lemma quene_inv:
  assumes inv: "con_inv l" and "f \<noteq> ConResetChannel" shows "con_inv (queneInLoop self f l)"
  by (rule con_inv_cong [OF inv reactor_inv_cong]) (simp_all add: con_inv_delay [OF inv] assms(2))

lemma dequeue_inv:
  assumes inv: "con_inv l" and "pendingFunctors l = f # fs" and "f \<noteq> ConResetChannel"
  shows "con_inv (l\<lparr>pendingFunctors := fs\<rparr>)"
  by (rule con_inv_cong [OF inv reactor_inv_cong]) (simp_all add: con_inv_delay [OF inv] assms(2,3))

lemma queued_inv:
  assumes inv: "con_inv l" and q: "pendingFunctors l = f # fs" and fresh: "chanHeap l c = None"
    and run: "run_con_functor c sockfd err f (l\<lparr>pendingFunctors := fs\<rparr>) = Inr l'"
  shows "con_inv l'"
proof (cases f)
  case ConStartInLoop
  with startInLoop_inv [OF dequeue_inv [OF inv q]] fresh run show ?thesis by simp
next
  case ConStopInLoop
  with stopInLoop_inv [OF dequeue_inv [OF inv q]] run show ?thesis by simp
next
  case ConResetChannel
  with resetChannel_inv [OF inv] q run show ?thesis by simp
qed

lemma restarted_inv:
  assumes inv: "con_inv l"
  shows "con_inv (l\<lparr>con_st := ConDisconnected, retryDelayMs := kInitRetryDelayMs, con_connect := True\<rparr>)" (is "con_inv ?l")
proof -
  have "reactor_inv ?l" using inv reactor_inv_cong [of ?l l] by (simp add: con_inv_def)
  moreover have "channel_rest ?l" using inv
    by (cases "con_channel l") (auto simp: con_inv_def channel_rest_def)
  moreover have "pending_fds ?l = pending_fds l" by (rule pending_frame) simp_all
  then have "fds_ok ?l" using inv by (simp add: con_inv_def fds_ok_def)
  moreover have "delays_ok ?l" using inv
    by (simp add: con_inv_def delays_ok_def kInitRetryDelayMs_def kMaxRetryDelayMs_def)
  ultimately show ?thesis by (simp add: con_inv_def)
qed

lemma restart_inv:
  "con_inv l \<Longrightarrow> chanHeap l c = None \<Longrightarrow> Connector_restart c sockfd err l = Inr l' \<Longrightarrow> con_inv l'"
  using startInLoop_inv [OF restarted_inv, of l c] by (simp add: Connector_restart_def)

lemma step_inv:
  assumes inv: "con_inv l" and "con_step strict l l'"
  shows "con_inv l'"
  using assms(2)
proof cases
  case (start_elsewhere self exec)
  then have "l' = queneInLoop self ConStartInLoop (l\<lparr>con_connect := True\<rparr>)"
    by (auto simp: Connector_start_def runInLoop_def isInLoopThread_def)
  then show ?thesis by (simp add: quene_inv want_inv [OF inv])
next
  case (start_here c sockfd err)
  then show ?thesis
    using startInLoop_inv [OF want_inv [OF inv, of True], of c]
    by (simp add: Connector_start_def runInLoop_def isInLoopThread_def)
next
  case (loop_moves handling active current)
  then show ?thesis
    by (simp add: con_inv_cong [OF inv reactor_inv_cong] con_inv_delay [OF inv])
next
  case (stop self)
  then show ?thesis by (simp add: Connector_stop_def quene_inv want_inv [OF inv])
next
  case (timer c sockfd err)
  with startInLoop_inv [OF inv] show ?thesis by blast
next
  case (restart c sockfd err)
  with restart_inv [OF inv] show ?thesis by blast
next
  case (queued f fs c sockfd err)
  with queued_inv [OF inv] show ?thesis by blast
next
  case (writable err ends)
  with handleWrite_inv [OF inv] show ?thesis by blast
next
  case error
  with handleError_inv [OF inv] show ?thesis by blast
qed

text \<open>
  No attempt is given up with its channel in the poller, as long as none is started while another is under way:
  an operation changes the channel, or leaves the connector in the state it was in.
\<close>

definition calm :: "connector \<Rightarrow> connector \<Rightarrow> bool" where
  "calm l l' \<longleftrightarrow> pending_fds l' = [] \<or> con_st l' = ConConnecting \<or> (pending_fds l' = pending_fds l \<and> con_st l' = con_st l)"

lemma calm_safe: "calm l l' \<Longrightarrow> \<not> stranded l \<Longrightarrow> \<not> stranded l'"
  by (auto simp: calm_def stranded_def)

lemma detached_calm: "detached sockfd l1 \<Longrightarrow> pending_fds l1 = []"
  by (auto simp: detached_def pending_fds_def)

lemma ends_calm:
  assumes inv: "con_inv l"
  shows "Connector_handleError l = Inr l' \<Longrightarrow> calm l l'" and "Connector_stopInLoop l = Inr l' \<Longrightarrow> calm l l'"
    and "Connector_handleWrite err ends l = Inr l' \<Longrightarrow> calm l l'"
proof -
  have gone: "pending_fds l1 = []"
    if "removeAndResetChannel (l\<lparr>con_st := st\<rparr>) = Inr (sockfd, l1)" "con_st l = ConConnecting" for st sockfd l1
    using detached_calm detach [OF inv that(2,1)] by blast
  have gone': "pending_fds l1 = []" if "removeAndResetChannel l = Inr (sockfd, l1)" "con_st l = ConConnecting" for sockfd l1
    using detached_calm [OF detach_here [OF inv that(2,1)]] .
  show "calm l l'" if "Connector_handleError l = Inr l'"
    using that gone' by (cases "con_st l = ConConnecting") (auto simp: Connector_handleError_def bindR_eq_Inr calm_def)
  show "calm l l'" if "Connector_stopInLoop l = Inr l'"
    using that gone by (cases "con_st l = ConConnecting") (auto simp: Connector_stopInLoop_def bindR_eq_Inr calm_def)
  show "calm l l'" if run: "Connector_handleWrite err ends l = Inr l'"
  proof (cases "con_st l = ConConnecting")
    case False
    with run show ?thesis by (simp add: Connector_handleWrite_def cassert_eq_Inr calm_def)
  next
    case True
    from handleWrite_result [OF True run] obtain sockfd l1 where
      rm: "removeAndResetChannel l = Inr (sockfd, l1)"
      and eq: "l' = (if getSocketError err \<noteq> 0 \<or> isSelfConnect (fst ends) (snd ends) then Connector_retry sockfd l1
      else if con_connect l1 then l1\<lparr>con_st := ConConnected, handed := handed l1 @ [sockfd]\<rparr>
      else con_close sockfd (l1\<lparr>con_st := ConConnected\<rparr>))" .
    have l': "con_channel l' = con_channel l1" "chanHeap l' = chanHeap l1" by (simp_all add: eq con_close_def)
    from gone' [OF rm True] pending_frame [OF l'] show ?thesis by (simp add: calm_def)
  qed
qed

lemma startInLoop_calm:
  assumes inv: "con_inv l" and fresh: "chanHeap l c = None" and run: "Connector_startInLoop c sockfd err l = Inr l'"
    and st: "con_st l \<noteq> ConConnecting" "\<not> stranded l"
  shows "calm l l'"
proof (cases "con_connect l")
  case False
  with run show ?thesis by (simp add: Connector_startInLoop_def calm_def)
next
  case True
  have none: "pending_fds l = []" using st by (simp add: stranded_def)
  from True run have "Connector_connect c sockfd err l = Inr l'" by (simp add: Connector_startInLoop_def)
  then show ?thesis
  proof (cases rule: connect_cases)
    case (1 fam a)
    have R: "reactor_inv (tried sockfd fam a l)"
      using inv reactor_inv_cong [of "tried sockfd fam a l" l] by (simp add: con_inv_def tried_def)
    from connecting_result [OF R _ 1(2)] fresh show ?thesis by (simp add: same_con_def tried_def calm_def)
  next
    case (2 fam a)
    then have "pending_fds l' = pending_fds l" by (intro pending_frame) (simp_all add: tried_def)
    with none show ?thesis by (simp add: calm_def)
  next
    case (3 fam a)
    then have "pending_fds l' = pending_fds l" by (intro pending_frame) (simp_all add: tried_def con_close_def)
    with none show ?thesis by (simp add: calm_def)
  qed
qed

lemma resetChannel_calm:
  assumes "resetChannel l = Inr l'" shows "calm l l'"
  using assms by (auto simp: resetChannel_def calm_def bindR_eq_Inr pending_fds_def split: option.splits)

lemma strict_step:
  assumes inv: "con_inv l" and safe: "\<not> stranded l" and "con_step True l l'"
  shows "\<not> stranded l'"
proof -
  have put: "\<not> stranded m" if "con_channel m = con_channel l" "chanHeap m = chanHeap l" "con_st m = con_st l" for m
    using safe pending_frame [OF that(1,2)] that(3) by (simp add: stranded_def)
  from assms(3) show ?thesis
  proof cases
    case (start_elsewhere self exec)
    then have "l' = queneInLoop self ConStartInLoop (l\<lparr>con_connect := True\<rparr>)"
      by (auto simp: Connector_start_def runInLoop_def isInLoopThread_def)
    then show ?thesis by (simp add: put)
  next
    case (start_here c sockfd err)
    have "\<not> stranded (l\<lparr>con_connect := True\<rparr>)" by (rule put) simp_all
    with start_here show ?thesis
      using calm_safe [OF startInLoop_calm [OF want_inv [OF inv, of True]], of c sockfd err l']
      by (simp add: Connector_start_def runInLoop_def isInLoopThread_def)
  next
    case (timer c sockfd err)
    then show ?thesis using calm_safe [OF startInLoop_calm [OF inv]] safe by blast
  next
    case (restart c sockfd err)
    let ?l = "l\<lparr>con_st := ConDisconnected, retryDelayMs := kInitRetryDelayMs, con_connect := True\<rparr>"
    have "pending_fds ?l = pending_fds l" by (rule pending_frame) simp_all
    then have s: "\<not> stranded ?l" using safe restart(2) by (simp add: stranded_def)
    from calm_safe [OF startInLoop_calm [OF restarted_inv [OF inv]] s, of c sockfd err l'] restart s show ?thesis
      by (simp add: Connector_restart_def)
  next
    case (stop self)
    then show ?thesis by (simp add: Connector_stop_def put)
  next
    case (queued f fs c sockfd err)
    let ?l = "l\<lparr>pendingFunctors := fs\<rparr>"
    have s: "\<not> stranded ?l" by (rule put) simp_all
    show ?thesis
    proof (cases f)
      case ConStartInLoop
      with queued(1) have "con_inv ?l" using dequeue_inv [OF inv] by simp
      from calm_safe [OF startInLoop_calm [OF this] s, of c sockfd err l'] ConStartInLoop queued(2-4) s show ?thesis by simp
    next
      case ConStopInLoop
      with queued(1) have "con_inv ?l" using dequeue_inv [OF inv] by simp
      from calm_safe [OF ends_calm(2) [OF this] s] ConStopInLoop queued(4) show ?thesis by simp
    next
      case ConResetChannel
      with queued calm_safe [OF resetChannel_calm s] show ?thesis by auto
    qed
  next
    case (writable err ends)
    with calm_safe [OF ends_calm(3) [OF inv] safe] show ?thesis by blast
  next
    case error
    with calm_safe [OF ends_calm(1) [OF inv] safe] show ?thesis by blast
  next
    case (loop_moves handling active current)
    then show ?thesis by (simp add: put)
  qed
qed

interpretation connecting: transition_system con_init "con_step strict" "con_inv_of strict" for strict
proof unfold_locales
  fix l
  assume "con_init l"
  then obtain loop a where l: "l = Connector_ctor loop a" and "reactor_inv loop"
    "ConResetChannel \<notin> set (pendingFunctors loop)" by (auto simp: con_init_def)
  then show "con_inv_of strict l"
    by (simp add: con_inv_of_def con_inv_def Connector_ctor_def channel_rest_def fds_ok_def delays_ok_def pending_fds_def
        event_loop.extend_def reactor_inv_def chan_ok_def kInitRetryDelayMs_def kMaxRetryDelayMs_def stranded_def)
next
  fix l l'
  assume "con_inv_of strict l" and "con_step strict l l'"
  then show "con_inv_of strict l'"
    using step_inv [of l strict l'] strict_step [of l l'] by (cases strict) (simp_all add: con_inv_of_def)
qed

text \<open>Once stranded, the channel stays in the poller, whatever happens.\<close>

lemma startInLoop_stranded:
  assumes run: "Connector_startInLoop c sockfd err l = Inr l'" and ch: "con_channel l = Some b" and st: "con_st l = ConDisconnected"
  shows "con_channel l' = Some b \<and> chanHeap l' = chanHeap l \<and> con_st l' = ConDisconnected \<and> pendingFunctors l' = pendingFunctors l"
proof (cases "con_connect l")
  case False
  with run assms show ?thesis by (simp add: Connector_startInLoop_def)
next
  case True
  with run have "Connector_connect c sockfd err l = Inr l'" by (simp add: Connector_startInLoop_def)
  then show ?thesis
  proof (cases rule: connect_cases)
    case (1 fam a)
    with ch show ?thesis by (simp add: Connector_connecting_def cassert_def tried_def Let_def)
  qed (use ch st in \<open>simp_all add: tried_def con_close_def\<close>)
qed

definition holds :: "addr \<Rightarrow> con_cb channel \<Rightarrow> connector \<Rightarrow> bool" where
  "holds b ch l \<longleftrightarrow> con_channel l = Some b \<and> chanHeap l b = Some ch \<and> index ch \<noteq> KNew \<and> con_st l = ConDisconnected
     \<and> ConResetChannel \<notin> set (pendingFunctors l)"

lemma holds_step:
  assumes h: "holds b ch l" and "con_step strict l l'"
  shows "holds b ch l'"
proof -
  have start: "holds b ch m'" if "Connector_startInLoop c sockfd err m = Inr m'" "holds b ch m" for c sockfd err m m'
    using startInLoop_stranded [OF that(1)] that(2) by (simp add: holds_def)
  from assms(2) show ?thesis
  proof cases
    case (start_elsewhere self exec)
    then have "l' = queneInLoop self ConStartInLoop (l\<lparr>con_connect := True\<rparr>)"
      by (auto simp: Connector_start_def runInLoop_def isInLoopThread_def)
    with h show ?thesis by (simp add: holds_def)
  next
    case (start_here c sockfd err)
    with start [of c sockfd err "l\<lparr>con_connect := True\<rparr>"] h show ?thesis
      by (simp add: Connector_start_def runInLoop_def isInLoopThread_def holds_def)
  next
    case (timer c sockfd err)
    with start h show ?thesis by blast
  next
    case (restart c sockfd err)
    with start [of c sockfd err "l\<lparr>con_st := ConDisconnected, retryDelayMs := kInitRetryDelayMs, con_connect := True\<rparr>"] h
    show ?thesis by (simp add: Connector_restart_def holds_def)
  next
    case (stop self)
    with h show ?thesis by (simp add: Connector_stop_def holds_def)
  next
    case (queued f fs c sockfd err)
    with h have "f \<noteq> ConResetChannel" and hl: "holds b ch (l\<lparr>pendingFunctors := fs\<rparr>)" by (auto simp: holds_def)
    then consider "f = ConStartInLoop" | "f = ConStopInLoop" by (cases f) auto
    then show ?thesis
    proof cases
      case 1
      with queued start hl show ?thesis by auto
    next
      case 2
      then have "l' = l\<lparr>pendingFunctors := fs\<rparr>" using queued hl by (auto simp: Connector_stopInLoop_def holds_def)
      with hl show ?thesis by simp
    qed
  next
    case (writable err ends)
    with h show ?thesis by (simp add: Connector_handleWrite_def holds_def cassert_def)
  next
    case error
    with h show ?thesis by (simp add: Connector_handleError_def holds_def)
  next
    case (loop_moves handling active current)
    with h show ?thesis by (simp add: holds_def)
  qed
qed

lemma holds_forever:
  assumes "holds b ch l" and "(con_step strict)\<^sup>*\<^sup>* l l'" shows "holds b ch l'"
  using assms(2,1) by induction (auto intro: holds_step)

lemma stranded_holds:
  assumes "con_inv l" and "stranded l"
  obtains b ch where "holds b ch l" "pending_fds l = [ch_fd ch]"
proof -
  from assms(2) obtain b ch where c: "con_channel l = Some b" "chanHeap l b = Some ch" "index ch \<noteq> KNew"
    by (auto simp: stranded_def pending_fds_def split: option.splits if_splits)
  with assms have "holds b ch l"
    by (cases "con_st l") (auto simp: holds_def con_inv_def channel_rest_def stranded_def)
  with c that show thesis by (simp add: pending_fds_def)
qed

lemma stranded_forever:
  assumes "con_inv l" and "stranded l" and "(con_step strict)\<^sup>*\<^sup>* l l'"
  shows "pending_fds l' = pending_fds l \<and> stranded l' \<and> Connector_dtor l' = Inl AssertFailed"
proof -
  from stranded_holds [OF assms(1,2)] obtain b ch where h: "holds b ch l" "pending_fds l = [ch_fd ch]" .
  from holds_forever [OF h(1) assms(3)] have "holds b ch l'" .
  with h show ?thesis by (auto simp: holds_def pending_fds_def stranded_def Connector_dtor_def cassert_def)
qed

section \<open>Outcomes\<close>

lemma attempt_ends:
  assumes inv: "con_inv l" and st: "con_st l = ConConnecting"
    and idle: "\<And>c. con_channel l = Some c \<Longrightarrow> eventHandling l \<Longrightarrow>
      c \<notin> set (activeChannels l) \<or> currentActiveChannel l = Some c"
  obtains sockfd l1 where "removeAndResetChannel l = Inr (sockfd, l1)" "pending_fds l = [sockfd]" "same_con l l1"
proof -
  from inv st obtain c ch where c: "con_channel l = Some c" "chanHeap l c = Some ch" "index ch \<noteq> KNew"
    by (auto simp: con_inv_def channel_rest_def split: option.splits if_splits)
  have "reactor_inv l" using inv by (simp add: con_inv_def)
  from removeAndReset_ok [OF this c idle] c(1) obtain l1 where
    "removeAndResetChannel l = Inr (ch_fd ch, l1)" "same_con l l1" by auto
  moreover have "pending_fds l = [ch_fd ch]" using c st by (simp add: pending_fds_def)
  ultimately show thesis using that by blast
qed

definition retried :: "fd \<Rightarrow> connector \<Rightarrow> connector \<Rightarrow> bool" where
  "retried sockfd l l' \<longleftrightarrow> con_st l' = ConDisconnected \<and> con_closed l' = con_closed l @ [sockfd]
     \<and> handed l' = handed l
     \<and> retry_delays l' = (if con_connect l then retry_delays l @ [retryDelayMs l] else retry_delays l)"

lemma retry_retried: "same_con l l1 \<Longrightarrow> retried sockfd l (Connector_retry sockfd l1)"
  by (simp add: retried_def same_con_def) (simp add: Connector_retry_def con_close_def Let_def)

lemma refused_tries:
  assumes "con_connect l" and "ia_family (serverAddr l) = Inr fam" and "getSockAddr (serverAddr l) = Inr sa"
    and "set (map snd tries) \<subseteq> tries_again" and "retryDelayMs l = min (500 * 2 ^ k) kMaxRetryDelayMs"
  shows "\<exists>l'. foldR (\<lambda>(sockfd, err). Connector_startInLoop c sockfd err) tries l = Inr l'
    \<and> retry_delays l' = retry_delays l @ map (\<lambda>i. min (500 * 2 ^ (k + i)) kMaxRetryDelayMs) [0..<length tries]
    \<and> con_closed l' = con_closed l @ map fst tries
    \<and> sock_calls l' = sock_calls l @ concat (map (\<lambda>(sockfd, err). [SocketCall fam sockfd, ConnectCall sockfd sa]) tries)"
  using assms
proof (induction tries arbitrary: l k)
  case Nil
  then show ?case by simp
next
  case (Cons t tries)
  obtain sockfd err where t: "t = (sockfd, err)" by (cases t)
  let ?l = "Connector_retry sockfd (sockets_connect sockfd sa (createNonblockingOrDie fam sockfd l))"
  have "err \<in> tries_again" "err \<notin> goes_on" using Cons.prems(4) by (auto simp: t tries_again_def goes_on_def)
  then have run: "Connector_startInLoop c sockfd err l = Inr ?l"
    using Cons.prems(1-3) by (simp add: Connector_startInLoop_def Connector_connect_def Let_def)
  have "con_connect ?l" "serverAddr ?l = serverAddr l"
    "retryDelayMs ?l = min (500 * 2 ^ Suc k) kMaxRetryDelayMs"
    using Cons.prems(1,5) by (auto simp: Connector_retry_def con_close_def Let_def kMaxRetryDelayMs_def)
  with Cons.IH [of ?l "Suc k"] Cons.prems obtain l' where
    l': "foldR (\<lambda>(sockfd, err). Connector_startInLoop c sockfd err) tries ?l = Inr l'"
    "retry_delays l' = retry_delays ?l @ map (\<lambda>i. min (500 * 2 ^ (Suc k + i)) kMaxRetryDelayMs) [0..<length tries]"
    "con_closed l' = con_closed ?l @ map fst tries"
    "sock_calls l' = sock_calls ?l @ concat (map (\<lambda>(sockfd, err). [SocketCall fam sockfd, ConnectCall sockfd sa]) tries)" by auto
  moreover have "sock_calls ?l = sock_calls l @ [SocketCall fam sockfd, ConnectCall sockfd sa]"
    by (simp add: Connector_retry_def con_close_def Let_def)
  moreover have "retry_delays ?l = retry_delays l @ [min (500 * 2 ^ k) kMaxRetryDelayMs]"
    using Cons.prems(1,5) by (simp add: Connector_retry_def con_close_def Let_def)
  ultimately show ?case using run
    by (simp add: t upt_conv_Cons map_Suc_upt [symmetric] del: upt_Suc)
qed

section \<open>Properties\<close>

text \<open>
  C32. Where the descriptors of a connector go. In every state reachable by starts, stops, restarts,
  timers, functors and events in any order, each descriptor it opened was closed once, or handed over once, or is the one
  in the poller, of which there is at most one; every delay it asked for is between half a second and thirty
  seconds. When no attempt is started while another is under way (the assertion that the code has commented out), the
  descriptor in the poller is that of the attempt under way, so none leaks. Without it, one can:
  starting again while an attempt is under way, and being refused, gives up the first attempt with its
  descriptor in the poller; from then on that descriptor is never closed nor handed over, and the destructor aborts.
\<close>

theorem connector_descriptors:
  assumes "con_init l0" and "(con_step strict)\<^sup>*\<^sup>* l0 l"
  shows "mset (opened l) = mset (con_closed l) + mset (handed l) + mset (pending_fds l) \<and> length (pending_fds l) \<le> 1
    \<and> (con_st l = ConConnecting \<longrightarrow> pending_fds l \<noteq> []) \<and> (strict \<longrightarrow> con_st l \<noteq> ConConnecting \<longrightarrow> pending_fds l = [])
    \<and> (\<forall>d. d \<in> set (retry_delays l) \<longrightarrow> 500 \<le> d \<and> d \<le> 30000)
    \<and> (con_st l = ConConnecting \<and> con_connect l \<and> err \<in> tries_again
        \<and> ia_family (serverAddr l) = Inr fam \<and> getSockAddr (serverAddr l) = Inr sa \<longrightarrow>
        (\<exists>m. Connector_startInLoop c sockfd err l = Inr m \<and> con_st m = ConDisconnected \<and> pending_fds m = pending_fds l
          \<and> con_closed m = con_closed l @ [sockfd]))
    \<and> (con_st l \<noteq> ConConnecting \<and> pending_fds l \<noteq> [] \<longrightarrow> (\<forall>l'. (con_step False)\<^sup>*\<^sup>* l l' \<longrightarrow>
        pending_fds l' = pending_fds l \<and> con_st l' \<noteq> ConConnecting \<and> Connector_dtor l' = Inl AssertFailed))"
proof -
  have inv: "con_inv l" and safe: "strict \<Longrightarrow> \<not> stranded l"
    using connecting.reachable_inv [OF assms] by (simp_all add: con_inv_of_def)
  have "length (pending_fds l) \<le> 1" by (simp add: pending_fds_def split: option.splits)
  moreover have "pending_fds l \<noteq> []" if "con_st l = ConConnecting"
    using inv that by (auto simp: con_inv_def channel_rest_def pending_fds_def split: option.splits if_splits)
  moreover have "\<exists>m. Connector_startInLoop c sockfd err l = Inr m \<and> con_st m = ConDisconnected \<and> pending_fds m = pending_fds l
      \<and> con_closed m = con_closed l @ [sockfd]"
    if "con_connect l" "err \<in> tries_again" "ia_family (serverAddr l) = Inr fam" "getSockAddr (serverAddr l) = Inr sa"
  proof -
    have "err \<notin> goes_on" using that(2) by (auto simp: tries_again_def goes_on_def)
    let ?l = "l\<lparr>sock_calls := sock_calls l @ [SocketCall fam sockfd, ConnectCall sockfd sa], opened := opened l @ [sockfd]\<rparr>"
    have "pending_fds ?l = pending_fds l" by (rule pending_frame) simp_all
    with that \<open>err \<notin> goes_on\<close> show ?thesis
      by (simp add: Connector_startInLoop_def Connector_connect_def Let_def)
  qed
  moreover have "pending_fds l' = pending_fds l \<and> con_st l' \<noteq> ConConnecting \<and> Connector_dtor l' = Inl AssertFailed"
    if "con_st l \<noteq> ConConnecting" "pending_fds l \<noteq> []" "(con_step False)\<^sup>*\<^sup>* l l'" for l'
    using stranded_forever [OF inv _ that(3)] that(1,2) by (simp add: stranded_def)
  moreover have "pending_fds l = []" if strict "con_st l \<noteq> ConConnecting"
    using safe that by (simp add: stranded_def)
  moreover have "mset (opened l) = mset (con_closed l) + mset (handed l) + mset (pending_fds l)"
    using inv by (simp add: con_inv_def fds_ok_def)
  moreover have "500 \<le> d \<and> d \<le> 30000" if "d \<in> set (retry_delays l)" for d
    using inv that by (auto simp: con_inv_def delays_ok_def kInitRetryDelayMs_def kMaxRetryDelayMs_def)
  ultimately show ?thesis by blast
qed

text \<open>A server address with both members written: built for IPv4, then given an IPv6 address.\<close>

definition sample_address :: inet_address where
  "sample_address = setSockAddrInet6 (zero_saddr\<lparr>sa_family := AF_INET6\<rparr>) (InetAddress_port LittleEndian 80 False False)"

definition sample_connector :: connector where
  "sample_connector = Connector_ctor (loop_members 2 0) sample_address"

lemma sample_connector_init: "con_init sample_connector"
  by (auto simp: con_init_def sample_connector_def loop_members_def reactor_inv_def)

definition sample_calls :: "sock_call list" where
  "sample_calls = [SocketCall AF_INET 5, ConnectCall 5 (zero_saddr\<lparr>sa_family := AF_INET6\<rparr>)]"

definition sample_refused :: connector where
  "sample_refused = Connector_retry 5 (sample_connector\<lparr>con_connect := True, sock_calls := sample_calls, opened := [5]\<rparr>)"

lemma sample_refused_reachable: "(con_step strict)\<^sup>*\<^sup>* sample_connector sample_refused"
proof -
  have "Connector_start (run_con_functor 7 5 111) (threadId sample_connector) sample_connector = Inr sample_refused"
    by (simp add: Connector_start_def runInLoop_def isInLoopThread_def Connector_startInLoop_def
        Connector_connect_def createNonblockingOrDie_def sockets_connect_def sample_calls_def sample_refused_def sample_connector_def Connector_ctor_def loop_members_def
        event_loop.extend_def sample_address_def setSockAddrInet6_def InetAddress_port_def Let_def
        ia_family_def getSockAddr_def read_member_def goes_on_def tries_again_def)
  then have "con_step strict sample_connector sample_refused"
    by (rule con_step.start_here [rotated 2])
      (simp_all add: sample_connector_def Connector_ctor_def loop_members_def event_loop.extend_def)
  then show ?thesis by simp
qed

text \<open>An attempt that is under way: the connector of the sample, told to connect, got \<open>EINPROGRESS\<close>.\<close>

definition sample_attempt :: connector where
  "sample_attempt = sample_connector\<lparr>con_connect := True, sock_calls := sample_calls, opened := [5], con_st := ConConnecting, con_channel := Some 7,
     chanHeap := [7 \<mapsto> (mkChannel 2 5)\<lparr>writeCallback := Some ConHandleWrite, errorCallback := Some ConHandleError,
       events := kWriteEvent, addedToLoop := True, index := KAdded\<rparr>],
     pollChannels := [5 \<mapsto> 7], ctl_log := [(EPOLL_CTL_ADD, 5, kWriteEvent, 7)]\<rparr>"

lemmas sample_connector_defs = sample_connector_def Connector_ctor_def loop_members_def event_loop.extend_def
  sample_address_def setSockAddrInet6_def InetAddress_port_def Let_def ia_family_def getSockAddr_def
  read_member_def goes_on_def tries_again_def

lemma sample_attempt_step: "con_step strict sample_connector sample_attempt"
proof -
  let ?m = "sample_connector\<lparr>con_connect := True, sock_calls := sample_calls, opened := [5], con_st := ConConnecting, con_channel := Some 7,
     chanHeap := [7 \<mapsto> (mkChannel 2 5)\<lparr>writeCallback := Some ConHandleWrite, errorCallback := Some ConHandleError\<rparr>]\<rparr>"
  have R: "reactor_inv ?m"
    by (simp add: reactor_inv_def chan_ok_def mkChannel_def sample_connector_defs KNew_def)
  let ?ch = "(mkChannel 2 5)\<lparr>writeCallback := Some ConHandleWrite, errorCallback := Some ConHandleError\<rparr>"
  have ch: "chanHeap ?m 7 = Some ?ch" "pollChannels ?m (ch_fd ?ch) = None"
    "events ?ch = 0" "index ?ch = KNew" "ch_fd ?ch = 5"
    by (simp_all add: mkChannel_def sample_connector_defs KNew_def)
  have "after_update (\<lambda>e. e OR kWriteEvent) 7 ?ch ?m = sample_attempt"
    unfolding after_update_def ch(3-5) Let_def
    by (simp add: sample_attempt_def) (simp add: sample_connector_defs)
  with modify_events_ok [OF R ch(1)] ch(2) have "enableWriting 7 ?m = Inr sample_attempt"
    by (simp add: event_ops)
  then have "Connector_start (run_con_functor 7 5 115) (threadId sample_connector) sample_connector = Inr sample_attempt"
    by (simp add: Connector_start_def runInLoop_def isInLoopThread_def Connector_startInLoop_def
        Connector_connect_def Connector_connecting_def newChannel_def setWriteCallback_def setErrorCallback_def
        createNonblockingOrDie_def sockets_connect_def sample_calls_def sample_connector_defs)
  then show ?thesis
    by (rule con_step.start_here [rotated 2]) (simp_all add: sample_connector_defs)
qed

text \<open>
  Without the commented-out assertion: the connector of the sample is started again while its attempt on descriptor 5
  is under way, and the second attempt, on descriptor 6, is refused.
\<close>

theorem connector_descriptors_witness:
  "pending_fds sample_attempt = [5] \<and> length (pending_fds sample_refused) = 0 \<and> con_closed sample_refused = [5]
    \<and> (\<exists>m. con_step False sample_attempt m \<and> con_st m = ConDisconnected \<and> con_closed m = [6]
        \<and> (\<forall>l'. (con_step False)\<^sup>*\<^sup>* m l' \<longrightarrow> pending_fds l' = [5] \<and> Connector_dtor l' = Inl AssertFailed))"
proof -
  have p: "pending_fds sample_attempt = [5]" and st: "con_st sample_attempt = ConConnecting" "con_connect sample_attempt"
    "ia_family (serverAddr sample_attempt) = Inr AF_INET" "con_closed sample_attempt = []" "chanHeap sample_attempt 8 = None"
    "getSockAddr (serverAddr sample_attempt) = Inr (zero_saddr\<lparr>sa_family := AF_INET6\<rparr>)" "(111 :: int) \<in> tries_again"
    by (simp_all add: sample_attempt_def pending_fds_def mkChannel_def sample_connector_defs KNew_def KAdded_def)
  have reach: "(con_step False)\<^sup>*\<^sup>* sample_connector sample_attempt" using sample_attempt_step by (rule r_into_rtranclp)
  from connector_descriptors [OF sample_connector_init reach, of 111 AF_INET "zero_saddr\<lparr>sa_family := AF_INET6\<rparr>" 8 6] st
  obtain m where m: "Connector_startInLoop 8 6 111 sample_attempt = Inr m" "con_st m = ConDisconnected"
    "pending_fds m = pending_fds sample_attempt" "con_closed m = [6]" by auto
  have step: "con_step False sample_attempt m" by (rule con_step.timer [OF st(5) _ m(1)]) simp
  from connector_descriptors [OF sample_connector_init rtranclp.rtrancl_into_rtrancl [OF reach step]] m(2,3) p
  have "\<forall>l'. (con_step False)\<^sup>*\<^sup>* m l' \<longrightarrow> pending_fds l' = [5] \<and> Connector_dtor l' = Inl AssertFailed" by simp
  moreover have r: "con_closed sample_refused = [5]" "con_st sample_refused = ConDisconnected"
    by (simp_all add: sample_refused_def sample_connector_defs Connector_retry_def con_close_def)
  moreover have "pending_fds sample_refused = []"
    using connector_descriptors [OF sample_connector_init sample_refused_reachable [of True]] r(2) by simp
  ultimately show ?thesis using p m(2,4) step by auto
qed

text \<open>
  C33. How an attempt ends. In every reachable state with an attempt under way, an event on its
  channel (or a functor, outside the round over active channels) is handled without an abort. An error closes the
  descriptor, returns the connector to disconnected and, if it is still wanted, asks for a retry
  after the current delay; the write handler that may follow in the same dispatch then does
  nothing. A writable descriptor ends the same way when the socket has an error or is connected to
  itself; otherwise the descriptor is handed over, or closed if \<open>stop\<close> was called meanwhile. A
  second attempt that gets as far as \<open>connecting\<close> aborts.
\<close>

theorem attempt_outcome:
  assumes "con_init l0" and "(con_step False)\<^sup>*\<^sup>* l0 l" and st: "con_st l = ConConnecting"
    and at: "eventHandling l \<longrightarrow> currentActiveChannel l = con_channel l"
  shows "\<exists>sockfd. pending_fds l = [sockfd]
    \<and> (\<exists>l'. Connector_handleError l = Inr l' \<and> retried sockfd l l' \<and> Connector_handleWrite err ends l' = Inr l')
    \<and> (\<exists>l'. Connector_handleWrite err ends l = Inr l'
        \<and> (if getSocketError err \<noteq> 0 \<or> isSelfConnect (fst ends) (snd ends) then retried sockfd l l'
           else con_st l' = ConConnected \<and> retry_delays l' = retry_delays l
             \<and> (if con_connect l then handed l' = handed l @ [sockfd] \<and> con_closed l' = con_closed l
                else handed l' = handed l \<and> con_closed l' = con_closed l @ [sockfd])))
    \<and> Connector_connecting c sockfd2 l = Inl AssertFailed"
proof -
  have inv: "con_inv l" using connecting.reachable_inv [OF assms(1,2)] by (simp add: con_inv_of_def)
  from attempt_ends [OF inv st] at obtain sockfd l1 where
    rm: "removeAndResetChannel l = Inr (sockfd, l1)" "pending_fds l = [sockfd]" "same_con l l1" by metis
  let ?r = "Connector_retry sockfd l1"
  have busy: "con_channel l \<noteq> None" using inv st by (auto simp: con_inv_def channel_rest_def split: option.splits if_splits)
  have ret: "retried sockfd l ?r" by (rule retry_retried [OF rm(3)])
  have "Connector_handleError l = Inr ?r" using rm(1) st by (simp add: Connector_handleError_def)
  moreover have "Connector_handleWrite err ends ?r = Inr ?r" by (simp add: Connector_handleWrite_def)
  moreover have "\<exists>l'. Connector_handleWrite err ends l = Inr l'
        \<and> (if getSocketError err \<noteq> 0 \<or> isSelfConnect (fst ends) (snd ends) then retried sockfd l l'
           else con_st l' = ConConnected \<and> retry_delays l' = retry_delays l
             \<and> (if con_connect l then handed l' = handed l @ [sockfd] \<and> con_closed l' = con_closed l
                else handed l' = handed l \<and> con_closed l' = con_closed l @ [sockfd]))"
    using rm(1,3) st ret by (simp add: Connector_handleWrite_def Let_def same_con_def con_close_def)
  ultimately show ?thesis using rm(2) ret busy by (auto simp: Connector_connecting_def Let_def)
qed

definition sample_dispatch :: connector where
  "sample_dispatch = sample_attempt\<lparr>eventHandling := True, activeChannels := [7], currentActiveChannel := Some 7\<rparr>"

lemma sample_dispatch_reachable: "(con_step strict)\<^sup>*\<^sup>* sample_connector sample_dispatch"
proof -
  have "con_step strict sample_attempt sample_dispatch"
    using con_step.loop_moves [of strict sample_attempt "Some 7" "[7]" True] by (simp add: sample_dispatch_def)
  with sample_attempt_step [of strict] show ?thesis by (meson converse_rtranclp_into_rtranclp r_into_rtranclp)
qed

theorem attempt_outcome_witness:
  "pending_fds sample_dispatch = [5]
    \<and> (\<exists>l'. Connector_handleError sample_dispatch = Inr l' \<and> retried 5 sample_dispatch l')
    \<and> (\<exists>l'. Connector_handleWrite (Inr 0) (None, None) sample_dispatch = Inr l' \<and> handed l' = [5])"
proof -
  have s: "con_st sample_dispatch = ConConnecting" "con_connect sample_dispatch" "handed sample_dispatch = []"
    "eventHandling sample_dispatch \<longrightarrow> currentActiveChannel sample_dispatch = con_channel sample_dispatch"
    "pending_fds sample_dispatch = [5]"
    by (simp_all add: sample_dispatch_def sample_attempt_def pending_fds_def mkChannel_def sample_connector_defs)
  have other: "\<not> isSelfConnect None None"
    by (simp add: isSelfConnect_def getLocalAddr_def zero_saddr_def AF_INET_def AF_INET6_def)
  from attempt_outcome [OF sample_connector_init sample_dispatch_reachable s(1,4),
      of "Inr 0" "(None, None)" 8 6] s other
  show ?thesis by (auto simp: getSocketError_def)
qed

text \<open>
  C34. Exponential backoff. When a wanted connector whose address can be read is refused \<open>n\<close> times
  in a row, each attempt makes one socket of the address's family, connects it to the address and
  closes it, and the delays asked for are 500
  milliseconds doubled every time, up to 30 seconds. But for the address any constructor builds the
  very first attempt reads a member nobody wrote.
\<close>

theorem backoff:
  assumes "con_connect l" and "ia_family (serverAddr l) = Inr fam" and "getSockAddr (serverAddr l) = Inr sa"
    and "set (map snd tries) \<subseteq> tries_again" and "retryDelayMs l = kInitRetryDelayMs"
  shows "(\<exists>l'. foldR (\<lambda>(sockfd, err). Connector_startInLoop c sockfd err) tries l = Inr l'
      \<and> retry_delays l' = retry_delays l @ map (\<lambda>i. min (500 * 2 ^ i) 30000) [0..<length tries]
      \<and> con_closed l' = con_closed l @ map fst tries
      \<and> sock_calls l' = sock_calls l @ concat (map (\<lambda>(sockfd, err). [SocketCall fam sockfd, ConnectCall sockfd sa]) tries))
    \<and> Connector_startInLoop c sockfd err (l\<lparr>serverAddr := InetAddress_port host port loopbackOnly ipv6\<rparr>) = Inl Uninitialised
    \<and> Connector_startInLoop c sockfd err (l\<lparr>serverAddr := InetAddress_ip host inet_pton ip port ipv6\<rparr>) = Inl Uninitialised"
  using refused_tries [OF assms(1-4), of 0 c] assms(1,5)
  by (simp add: kInitRetryDelayMs_def kMaxRetryDelayMs_def Connector_startInLoop_def Connector_connect_def
      InetAddress_port_def InetAddress_ip_def ia_family_def getSockAddr_def read_member_def Let_def)

theorem backoff_witness:
  "\<exists>l'. foldR (\<lambda>(sockfd, err). Connector_startInLoop 7 sockfd err) [(5, 111), (6, 111), (5, 101)]
      (sample_connector\<lparr>con_connect := True\<rparr>) = Inr l'
    \<and> retry_delays l' = [500, 1000, 2000] \<and> con_closed l' = [5, 6, 5] \<and> length (sock_calls l') = 6"
proof -
  let ?l = "sample_connector\<lparr>con_connect := True\<rparr>"
  have "con_connect ?l" "ia_family (serverAddr ?l) = Inr AF_INET"
    "getSockAddr (serverAddr ?l) = Inr (zero_saddr\<lparr>sa_family := AF_INET6\<rparr>)"
    "set (map snd [(5 :: fd, 111), (6, 111), (5, 101)]) \<subseteq> tries_again" "retryDelayMs ?l = kInitRetryDelayMs"
    by (simp_all add: sample_connector_defs)
  from backoff [OF this, of 7, THEN conjunct1] obtain l' where
    "foldR (\<lambda>(sockfd, err). Connector_startInLoop 7 sockfd err) [(5, 111), (6, 111), (5, 101)] ?l = Inr l'"
    "retry_delays l' = retry_delays ?l @ [500, 1000, 2000]" "con_closed l' = con_closed ?l @ [5, 6, 5]"
    "length (sock_calls l') = length (sock_calls ?l) + 6" by (auto simp: upt_rec)
  moreover have "retry_delays ?l = []" "con_closed ?l = []" "sock_calls ?l = []" by (simp_all add: sample_connector_defs)
  ultimately show ?thesis by auto
qed

end
