(* ===== verification/Tcp_Client.thy ===== *)
theory Tcp_Client
  imports Connector Tcp_Connection
begin

text \<open>
  \<open>net/TcpClient\<close>: one connection at a time, made by a \<open>Connector\<close>. The loop appears twice, once with
  the channel of the connector and once with the channels of connections; they share no channel.
  What the user's callbacks do is a script of calls, as in \<open>Tcp_Connection\<close>.
\<close>

section \<open>Model\<close>

datatype 'v cl_cb = ClUser 'v | ClDefaultConnection | ClDefaultMessage | ClRemove | ClSocketsRemove

record 'v tcp_client =
  cl_connector :: connector
  cl_name :: string
  cl_connectionCallback :: "'v cl_cb option"
  cl_messageCallback :: "'v cl_cb option"
  cl_writeCompleteCallback :: "'v cl_cb option"
  cl_retry :: bool
  cl_connect :: bool
  cl_nextConnId :: int
  cl_connection :: "addr option"
  cl_net :: "'v cl_cb conn_loop"
  cl_timers :: nat

definition TcpClient_ctor :: "(con_cb, con_functor) event_loop \<Rightarrow> inet_address \<Rightarrow> string \<Rightarrow> 'v cl_cb conn_loop \<Rightarrow> 'v tcp_client" where
  "TcpClient_ctor loop server nm net =
     \<lparr>cl_connector = Connector_ctor loop server, cl_name = nm,
      cl_connectionCallback = Some ClDefaultConnection, cl_messageCallback = Some ClDefaultMessage, cl_writeCompleteCallback = None,
      cl_retry = False, cl_connect = True, cl_nextConnId = 1, cl_connection = None, cl_net = net, cl_timers = 0\<rparr>"

definition enableRetry :: "'v tcp_client \<Rightarrow> 'v tcp_client" where
  "enableRetry s = s\<lparr>cl_retry := True\<rparr>"

definition TcpClient_setConnectionCallback :: "'v cl_cb option \<Rightarrow> 'v tcp_client \<Rightarrow> 'v tcp_client" where
  "TcpClient_setConnectionCallback cb s = s\<lparr>cl_connectionCallback := cb\<rparr>"

definition TcpClient_setMessageCallback :: "'v cl_cb option \<Rightarrow> 'v tcp_client \<Rightarrow> 'v tcp_client" where
  "TcpClient_setMessageCallback cb s = s\<lparr>cl_messageCallback := cb\<rparr>"

definition TcpClient_setWriteCompleteCallback :: "'v cl_cb option \<Rightarrow> 'v tcp_client \<Rightarrow> 'v tcp_client" where
  "TcpClient_setWriteCompleteCallback cb s = s\<lparr>cl_writeCompleteCallback := cb\<rparr>"

text \<open>\<open>sockets::removeConnection\<close>, the close callback after the client is gone.\<close>

definition sockets_removeConnection :: "addr \<Rightarrow> 'u conn_loop \<Rightarrow> 'u conn_loop" where
  "sockets_removeConnection k l = queneInLoop (threadId l) (ConnectDestroyed k) l"

text \<open>
  The callbacks of the connections: scripts of the user, the defaults, and the two close callbacks.
  What \<open>removeConnection\<close> does to the client comes after \<open>handleClose\<close>, whose last line calls it.
\<close>

fun client_user :: "conn_call list cl_cb user" where
  "client_user (ClUser calls) up l = foldR (exec_conn_call (up_conn up)) calls l"
| "client_user ClDefaultConnection up l = defaultConnectionCallback (up_conn up) l"
| "client_user ClDefaultMessage up l = defaultMessageCallback (up_conn up) l"
| "client_user ClRemove up l = Inr l"
| "client_user ClSocketsRemove up l = Inr (sockets_removeConnection (up_conn up) l)"

definition TcpClient_connect :: "(con_functor \<Rightarrow> connector \<Rightarrow> connector res) \<Rightarrow> tid \<Rightarrow> 'v tcp_client \<Rightarrow> 'v tcp_client res" where
  "TcpClient_connect exec self s =
     bindR (Connector_start exec self (cl_connector s)) (\<lambda>con. Inr (s\<lparr>cl_connect := True, cl_connector := con\<rparr>))"

definition TcpClient_disconnect :: "write_result \<Rightarrow> tid \<Rightarrow> conn_call list tcp_client \<Rightarrow> conn_call list tcp_client res" where
  "TcpClient_disconnect answer self s =
     (case cl_connection s of
        None \<Rightarrow> Inr (s\<lparr>cl_connect := False\<rparr>)
      | Some k \<Rightarrow> bindR (conn_shutdown client_user answer self k (cl_net s)) (\<lambda>l. Inr (s\<lparr>cl_connect := False, cl_net := l\<rparr>)))"

definition TcpClient_stop :: "tid \<Rightarrow> 'v tcp_client \<Rightarrow> 'v tcp_client" where
  "TcpClient_stop self s = s\<lparr>cl_connect := False, cl_connector := Connector_stop self (cl_connector s)\<rparr>"

text \<open>\<open>unique\<close> is whether no one else holds the connection; the timer only keeps the connector alive.\<close>

definition TcpClient_dtor :: "write_result \<Rightarrow> tid \<Rightarrow> bool \<Rightarrow> conn_call list tcp_client \<Rightarrow> conn_call list tcp_client res" where
  "TcpClient_dtor answer self unique s =
     (case cl_connection s of
        Some k \<Rightarrow>
          bindR (runInLoop (exec_conn_functor client_user answer) self (SetCloseCallback k ClSocketsRemove) (cl_net s)) (\<lambda>l1.
          bindR (if unique then forceClose self k l1 else Inr l1) (\<lambda>l2. Inr (s\<lparr>cl_net := l2\<rparr>)))
      | None \<Rightarrow> Inr (s\<lparr>cl_connector := Connector_stop self (cl_connector s), cl_timers := cl_timers s + 1\<rparr>))"

text \<open>
  \<open>snprintf(buf, 32, ":%s#%d", ...)\<close> gets no argument for \<open>%d\<close>: \<open>junk\<close> is the number it finds
  there, which the language leaves open.
\<close>

definition client_conn_name :: "string \<Rightarrow> string \<Rightarrow> int \<Rightarrow> string" where
  "client_conn_name nm ipPort junk = nm @ take 31 ('':'' @ ipPort @ ''#'' @ show_int junk)"

definition client_build :: "addr \<Rightarrow> addr \<Rightarrow> string \<Rightarrow> fd \<Rightarrow> inet_address \<Rightarrow> inet_address
    \<Rightarrow> conn_call list tcp_client \<Rightarrow> conn_call list cl_cb conn_loop res" where
  "client_build k c cname sockfd localAddr peerAddr s =
     bindR (TcpConnection_ctor k c cname sockfd localAddr peerAddr (cl_net s)) (\<lambda>l1.
     bindR (setConnectionCallback k (cl_connectionCallback s) l1) (\<lambda>l2.
     bindR (setMessageCallback k (cl_messageCallback s) l2) (\<lambda>l3.
     bindR (setWriteCompleteCallback k (cl_writeCompleteCallback s) l3) (\<lambda>l4.
     conn_setCloseCallback k (Some ClRemove) l4))))"

definition TcpClient_newConnection :: "endianness \<Rightarrow> ntop \<Rightarrow> saddr option \<times> saddr option \<Rightarrow> int \<Rightarrow> addr \<Rightarrow> addr \<Rightarrow> fd \<Rightarrow> conn_call list tcp_client
    \<Rightarrow> conn_call list tcp_client res" where
  "TcpClient_newConnection host inet_ntop ends junk k c sockfd s =
     (let peerAddr = InetAddress_of6 (getPeerAddr (snd ends)); localAddr = InetAddress_of6 (getLocalAddr (fst ends)) in
     bindR (tpIPPort host inet_ntop peerAddr) (\<lambda>ipPort.
     bindR (if cl_nextConnId s + 1 < 2 ^ 31 then Inr (cl_nextConnId s + 1) else Inl Overflow) (\<lambda>nid.
     bindR (client_build k c (client_conn_name (cl_name s) ipPort junk) sockfd localAddr peerAddr s) (\<lambda>l1.
     bindR (connectEstablished client_user k l1) (\<lambda>l2.
       Inr (s\<lparr>cl_nextConnId := nid, cl_connection := Some k, cl_net := l2\<rparr>))))))"

definition TcpClient_removeConnection :: "addr \<Rightarrow> 'v tcp_client \<Rightarrow> 'v tcp_client res" where
  "TcpClient_removeConnection k s = cassert (cl_connection s = Some k) (Inr (s\<lparr>cl_connection := None\<rparr>))"

text \<open>
  The two ways the loop enters the client: the connector's socket becomes writable, and a
  connection closes.
\<close>

definition client_writable :: "endianness \<Rightarrow> ntop \<Rightarrow> int + int \<Rightarrow> saddr option \<times> saddr option \<Rightarrow> int \<Rightarrow> addr \<Rightarrow> addr \<Rightarrow> conn_call list tcp_client
    \<Rightarrow> conn_call list tcp_client res" where
  "client_writable host inet_ntop err ends junk k c s =
     bindR (Connector_handleWrite err ends (cl_connector s)) (\<lambda>con.
       if handed con = handed (cl_connector s) then Inr (s\<lparr>cl_connector := con\<rparr>)
       else TcpClient_newConnection host inet_ntop ends junk k c (last (handed con)) (s\<lparr>cl_connector := con\<rparr>))"

definition client_close :: "addr \<Rightarrow> conn_call list tcp_client \<Rightarrow> conn_call list tcp_client res" where
  "client_close k s =
     bindR (conn_handleClose client_user k (cl_net s)) (\<lambda>l.
     bindR (get_conn k l) (\<lambda>cn.
       if conn_closeCallback cn = Some ClRemove then TcpClient_removeConnection k (s\<lparr>cl_net := l\<rparr>) else Inr (s\<lparr>cl_net := l\<rparr>)))"


section \<open>The user's callbacks\<close>

interpretation client_calls: conn_user False client_user
proof unfold_locales
  fix up :: up_call and l :: "conn_call list cl_cb conn_loop" and u :: "conn_call list cl_cb"
  assume inv: "conn_inv (up_conn up) l"
  show "good (up_conn up) l (client_user u up l)"
  proof (cases u)
    case (ClUser calls)
    then show ?thesis using script_good [OF inv] by simp
  next
    case ClDefaultConnection
    with inv advances_refl [OF inv] show ?thesis by (auto simp: defaultConnectionCallback_def elim!: conn_invE dest: conn_viewD(7))
  next
    case ClDefaultMessage
    with exec_conn_call_good [OF inv, of CallConsume] show ?thesis by simp
  next
    case ClRemove
    then show ?thesis using advances_refl [OF inv] by simp
  next
    case ClSocketsRemove
    then show ?thesis using good_quene [OF inv] by (simp add: sockets_removeConnection_def)
  qed
qed

text \<open>None of the calls replaces the close callback.\<close>

definition close_kept :: "addr \<Rightarrow> 'u conn_loop \<Rightarrow> 'u conn_loop \<Rightarrow> bool" where
  "close_kept k l l' \<longleftrightarrow> (\<forall>cn. conns l k = Some cn \<longrightarrow> (\<exists>cn'. conns l' k = Some cn' \<and> conn_closeCallback cn' = conn_closeCallback cn))"

lemma close_kept_refl: "conns l' = conns l \<Longrightarrow> close_kept k l l'"
  by (simp add: close_kept_def)

lemma close_kept_trans: "close_kept k l m \<Longrightarrow> close_kept k m n \<Longrightarrow> close_kept k l n"
  unfolding close_kept_def by metis

lemma close_kept_put: "conns l k = Some cn \<Longrightarrow> conn_closeCallback cn' = conn_closeCallback cn \<Longrightarrow> close_kept k l (put_conn k cn' l)"
  by (simp add: close_kept_def)


definition kept :: "addr \<Rightarrow> 'u conn_loop \<Rightarrow> 'u conn_loop res \<Rightarrow> bool" where
  "kept k l r \<longleftrightarrow> (\<forall>l'. r = Inr l' \<longrightarrow> close_kept k l l')"

lemma kept_Inr: "close_kept k l l' \<Longrightarrow> kept k l (Inr l')"
  by (simp add: kept_def)

lemma kept_Inl: "kept k l (Inl e)"
  by (simp add: kept_def)

lemma kept_bind: "kept k l m \<Longrightarrow> (\<And>x. m = Inr x \<Longrightarrow> kept k x (f x)) \<Longrightarrow> kept k l (bindR m f)"
  by (cases m) (auto simp: kept_def intro: close_kept_trans)

lemma kept_read: "(\<And>x. m = Inr x \<Longrightarrow> kept k l (f x)) \<Longrightarrow> kept k l (bindR m f)"
  by (cases m) (auto simp: kept_def)

lemma kept_cassert: "kept k l r \<Longrightarrow> kept k l (cassert P r)"
  by (cases P) (auto simp: kept_def)

lemma kept_then: "close_kept k l m \<Longrightarrow> kept k m r \<Longrightarrow> kept k l r"
  by (auto simp: kept_def intro: close_kept_trans)

lemma kept_same: "conns m = conns l \<Longrightarrow> kept k l r = kept k m r"
  by (simp add: kept_def close_kept_def)

lemma kept_set_chan: "conns m = conns l \<Longrightarrow> kept k l (set_chan c f m)"
  unfolding set_chan_def by (rule kept_read) (simp add: kept_Inr close_kept_refl)

lemma kept_Epoller_update: "conns m = conns l \<Longrightarrow> kept k l (Epoller_update op c m)"
  unfolding Epoller_update_def by (rule kept_read) (simp add: kept_Inr close_kept_refl)

lemma kept_updateChannel: "kept k l (Epoller_updateChannel c l)"
  unfolding Epoller_updateChannel_def set_index_def Let_def
  by (intro kept_read kept_cassert) (auto intro!: kept_bind kept_set_chan kept_Epoller_update kept_Inr kept_Inl close_kept_refl kept_cassert)

lemma kept_modify: "kept k l (modify_events f c l)"
  unfolding modify_events_def Channel_update_def EventLoop_updateChannel_def
  by (intro kept_bind [OF kept_set_chan] kept_bind [OF kept_set_chan] kept_read kept_cassert kept_updateChannel) simp_all

lemma kept_put: "get_conn k l = Inr cn \<Longrightarrow> conn_closeCallback cn' = conn_closeCallback cn \<Longrightarrow> kept k l (Inr (put_conn k cn' l))"
  by (rule kept_Inr, rule close_kept_put) (auto simp: get_conn_def split: option.splits)

lemma kept_setState: "kept k l (setState k st l)"
  unfolding setState_def by (rule kept_read, rule kept_put) simp_all


lemma kept_send_rest: "kept k l (send_rest self k message n r l)"
  unfolding send_rest_def Let_def
proof (intro kept_read, goal_cases)
  case (1 cn b ch)
  let ?l1 = "if highWaterMark cn \<le> szadd (readableBytes (outputBuffer cn)) r \<and> readableBytes (outputBuffer cn) < highWaterMark cn
    then queue_if self (highWaterMarkCallback cn) (\<lambda>u. HighWaterMark u k (szadd (readableBytes (outputBuffer cn)) r)) l else l"
  have ck: "close_kept k l (put_conn k (cn\<lparr>outputBuffer := b\<rparr>) ?l1)"
    using 1(1) by (auto simp: close_kept_def get_conn_def split: option.splits)
  have "kept k l (enableWriting (conn_channel cn) (put_conn k (cn\<lparr>outputBuffer := b\<rparr>) ?l1))"
    unfolding event_ops by (rule kept_then [OF ck kept_modify])
  with kept_Inr [OF ck] show ?case
    by (cases "isWriting ch") (simp_all only: if_True if_False not_True_eq_False not_False_eq_True)
qed

lemma kept_sendInLoop: "kept k l (sendInLoop answer self k message len l)"
proof -
  have w: "conns l1 = conns l" if "sockets_write answer fd m n l = Inr l1" for fd m n l1
    using that by (auto simp: sockets_write_def split: if_splits write_result.splits)
  have rest: "kept k l (send_rest self k message n r m)" if "conns m = conns l" for n r m
    using kept_send_rest [of k m] kept_same [OF that] by simp
  show ?thesis unfolding sendInLoop_def Let_def
    by (intro kept_read) (auto intro!: kept_read kept_cassert kept_Inr close_kept_refl rest simp: w split: write_result.split if_splits)
qed

lemma kept_exec_conn_call: "kept k l (exec_conn_call k c l)"
proof (cases c)
  case (CallSend m answer)
  then show ?thesis using kept_sendInLoop [of k l]
    by (auto simp: send_string_def isInLoopThread_def sendInLoop_string_def intro!: kept_read kept_Inr close_kept_refl)
next
  case CallShutdown
  have "kept k m (shutdownInLoop k m)" for m
    unfolding shutdownInLoop_def by (intro kept_read kept_Inr close_kept_refl) (auto simp: Socket_shutdownWrite_def sockets_shutdownWrite_def)
  then show ?thesis unfolding CallShutdown exec_conn_call.simps conn_shutdown_def
    by (intro kept_read) (auto intro!: kept_bind kept_setState kept_Inr close_kept_refl simp: runInLoop_def queue_defs)
next
  case CallForceClose
  then show ?thesis unfolding CallForceClose exec_conn_call.simps forceClose_def
    by (intro kept_read) (auto intro!: kept_bind kept_setState kept_Inr close_kept_refl simp: queue_defs)
next
  case CallStopRead
  have "kept k l (bindR (disableReading (conn_channel cn) l) (\<lambda>l1. Inr (put_conn k (cn\<lparr>conn_reading := False\<rparr>) l1)))"
    if "get_conn k l = Inr cn" for cn
    using kept_modify [of k l "\<lambda>e. e AND NOT kReadEvent" "conn_channel cn"] that
    by (auto simp: kept_def close_kept_def event_ops cpp_res get_conn_def split: option.splits)
  then show ?thesis unfolding CallStopRead exec_conn_call.simps stopRead_def runInLoop_def isInLoopThread_def
    by (simp add: stopReadInLoop_def) (intro kept_read, auto intro!: kept_Inr close_kept_refl)
next
  case CallConsume
  then show ?thesis
    by (auto simp: defaultMessageCallback_def intro!: kept_read kept_put)
qed

lemma kept_client_user: "kept (up_conn up) l (client_user u up l)"
proof (cases u)
  case (ClUser calls)
  have "kept k l (foldR (exec_conn_call k) calls l)" for k
    by (induction calls arbitrary: l) (auto intro!: kept_bind kept_exec_conn_call kept_Inr close_kept_refl)
  with ClUser show ?thesis by simp
next
  case ClDefaultConnection
  then show ?thesis by (auto simp: defaultConnectionCallback_def intro!: kept_read kept_Inr close_kept_refl)
next
  case ClDefaultMessage
  then show ?thesis by (auto simp: defaultMessageCallback_def intro!: kept_read kept_put)
next
  case ClRemove
  then show ?thesis by (simp add: kept_Inr close_kept_refl)
next
  case ClSocketsRemove
  then show ?thesis by (simp add: kept_Inr close_kept_refl sockets_removeConnection_def queue_defs)
qed


lemma kept_call_user: "kept k l (call_user client_user cb up l)" if "up_conn up = k"
  using kept_client_user [of up l] that by (cases cb) (auto simp: call_user_def kept_Inl)

lemma kept_established: "kept k l (connectEstablished client_user k l)"
  unfolding connectEstablished_def Channel_tie_def event_ops
  by (intro kept_read kept_cassert kept_bind [OF kept_setState] kept_bind [OF kept_set_chan] kept_bind [OF kept_modify] kept_call_user) simp_all

lemma kept_handleClose: "kept k l (conn_handleClose client_user k l)"
  unfolding conn_handleClose_def event_ops
  by (intro kept_read kept_cassert kept_bind [OF kept_setState] kept_bind [OF kept_modify] kept_bind [OF kept_call_user])
    (auto intro!: kept_read kept_call_user)

section \<open>The connection of a client\<close>

text \<open>The client's connection is sound, in the loop, and tells the client when it closes.\<close>

definition client_inv :: "conn_call list tcp_client \<Rightarrow> bool" where
  "client_inv s \<longleftrightarrow> (\<forall>k. cl_connection s = Some k \<longrightarrow> conn_inv k (cl_net s) \<and> in_poller k (cl_net s)
     \<and> (\<exists>cn. conns (cl_net s) k = Some cn \<and> conn_closeCallback cn = Some ClRemove))"

lemma set_callback_inv:
  assumes inv: "conn_inv k l" and cn: "conns l k = Some cn"
    and same: "conn_channel cn' = conn_channel cn" "conn_fd cn' = conn_fd cn" "inputBuffer cn' = inputBuffer cn"
      "outputBuffer cn' = outputBuffer cn" "conn_state cn' = conn_state cn"
  shows "conn_inv k (put_conn k cn' l) \<and> state_of k (put_conn k cn' l) = state_of k l"
proof -
  from inv obtain cn0 ch where v: "conn_view k cn0 ch l" and p: "conn_phase cn0 ch" by (rule conn_invE)
  have "cn0 = cn" using conn_viewD(1) [OF v] cn by simp
  with v p have v: "conn_view k cn ch l" and p: "conn_phase cn ch" by simp_all
  have "conn_view k cn' ch (put_conn k cn' l)"
    by (rule view_put [OF v]) (use conn_viewD [OF v] same in simp_all)
  moreover have "conn_phase cn' ch" using p same by (simp add: conn_phase_def)
  ultimately show ?thesis using same cn by (auto simp: state_of_def intro: conn_invI)
qed

lemma client_build_ok:
  assumes "reactor_inv (cl_net s)" and "chanHeap (cl_net s) c = None" and "pollChannels (cl_net s) fd = None"
  shows "\<exists>l cn. client_build k c nm fd la pa s = Inr l \<and> conn_inv k l \<and> state_of k l = kConnecting \<and> conns l k = Some cn
    \<and> conn_closeCallback cn = Some ClRemove \<and> connectionCallback cn = cl_connectionCallback s
    \<and> messageCallback cn = cl_messageCallback s \<and> writeCompleteCallback cn = cl_writeCompleteCallback s"
proof -
  from ctor_inv [OF assms, of k nm la pa] obtain l1 where l1: "TcpConnection_ctor k c nm fd la pa (cl_net s) = Inr l1"
    "conn_inv k l1" "state_of k l1 = kConnecting" by blast
  from l1(2) obtain cn where cn: "conns l1 k = Some cn" by (auto elim!: conn_invE dest: conn_viewD(1))
  let ?cn = "cn\<lparr>connectionCallback := cl_connectionCallback s, messageCallback := cl_messageCallback s,
    writeCompleteCallback := cl_writeCompleteCallback s, conn_closeCallback := Some ClRemove\<rparr>"
  have "client_build k c nm fd la pa s = Inr (put_conn k ?cn l1)"
    using cn by (simp add: client_build_def l1(1) setConnectionCallback_def setMessageCallback_def setWriteCompleteCallback_def
        conn_setCloseCallback_def put_conn_def)
  moreover have "conn_inv k (put_conn k ?cn l1) \<and> state_of k (put_conn k ?cn l1) = state_of k l1"
    by (rule set_callback_inv [OF l1(2) cn]) simp_all
  ultimately show ?thesis using l1(3) by simp
qed


lemma newConnection_outcome:
  assumes net: "reactor_inv (cl_net s)" "chanHeap (cl_net s) c = None" "pollChannels (cl_net s) fd = None"
    and ip: "tpIPPort host inet_ntop (InetAddress_of6 (getPeerAddr (snd ends))) = Inr ipPort" and room: "cl_nextConnId s + 1 < 2 ^ 31"
  shows "case TcpClient_newConnection host inet_ntop ends junk k c fd s of
      Inl e \<Rightarrow> tolerated e
    | Inr s1 \<Rightarrow> client_inv s1 \<and> cl_connection s1 = Some k \<and> cl_connector s1 = cl_connector s"
proof -
  let ?pa = "InetAddress_of6 (getPeerAddr (snd ends))" and ?la = "InetAddress_of6 (getLocalAddr (fst ends))"
  from client_build_ok [OF net, of k "client_conn_name (cl_name s) ipPort junk" ?la ?pa] obtain l1 cn where
    l1: "client_build k c (client_conn_name (cl_name s) ipPort junk) fd ?la ?pa s = Inr l1" "conn_inv k l1" "state_of k l1 = kConnecting"
      "conns l1 k = Some cn" "conn_closeCallback cn = Some ClRemove" by blast
  show ?thesis
  proof (cases "connectEstablished client_user k l1")
    case (Inl e)
    with client_calls.connectEstablished_good [OF l1(2,3)] show ?thesis
      using room by (simp add: TcpClient_newConnection_def Let_def ip l1(1))
  next
    case (Inr l2)
    have "conn_inv k l2" using client_calls.connectEstablished_good [OF l1(2,3)] Inr by (simp add: advances_def)
    moreover have "in_poller k l2" by (rule client_calls.connectEstablished_in_poller [OF l1(2,3) Inr]) simp
    moreover have "\<exists>cn'. conns l2 k = Some cn' \<and> conn_closeCallback cn' = Some ClRemove"
      using kept_established [of k l1] Inr l1(4,5) by (auto simp: kept_def close_kept_def)
    ultimately show ?thesis using room by (simp add: TcpClient_newConnection_def Let_def ip l1(1) Inr client_inv_def)
  qed
qed

text \<open>With the default callback nothing can go wrong while the connection is made.\<close>

lemma newConnection_default:
  assumes net: "reactor_inv (cl_net s)" "chanHeap (cl_net s) c = None" "pollChannels (cl_net s) fd = None"
    and ip: "tpIPPort host inet_ntop (InetAddress_of6 (getPeerAddr (snd ends))) = Inr ipPort" and room: "cl_nextConnId s + 1 < 2 ^ 31"
    and cb: "cl_connectionCallback s = Some ClDefaultConnection"
  shows "\<exists>s1. TcpClient_newConnection host inet_ntop ends junk k c fd s = Inr s1 \<and> state_of k (cl_net s1) = kConnected"
proof -
  let ?pa = "InetAddress_of6 (getPeerAddr (snd ends))" and ?la = "InetAddress_of6 (getLocalAddr (fst ends))"
  from client_build_ok [OF net, of k "client_conn_name (cl_name s) ipPort junk" ?la ?pa] obtain l1 cn where
    l1: "client_build k c (client_conn_name (cl_name s) ipPort junk) fd ?la ?pa s = Inr l1" "conn_inv k l1" "state_of k l1 = kConnecting"
      "conns l1 k = Some cn" "connectionCallback cn = Some ClDefaultConnection" using cb by auto
  from client_calls.connectEstablished_enters [OF l1(2,3)] obtain m where
    m: "connectEstablished client_user k l1 = call_user client_user (connectionCallback (the (conns l1 k))) (UpConnection k) m"
      "advances k l1 m" "state_of k m = kConnected" by blast
  from advances_inv [OF m(2)] obtain cn' where "conns m k = Some cn'" by (auto elim!: conn_invE dest: conn_viewD(1))
  then have "connectEstablished client_user k l1 = Inr m"
    unfolding m(1) using l1(4,5) by (simp add: call_user_def defaultConnectionCallback_def)
  with m(3) room show ?thesis by (simp add: TcpClient_newConnection_def Let_def ip l1(1))
qed

text \<open>A connection whose channel is still in the loop cannot be destroyed.\<close>

lemma client_close_outcome:
  assumes inv: "conn_inv k (cl_net s)" "in_poller k (cl_net s)" "open_state (state_of k (cl_net s))"
    and cn: "conns (cl_net s) k = Some cn" "conn_closeCallback cn = Some ClRemove"
  shows "case client_close k s of
      Inl e \<Rightarrow> tolerated e \<or> e = AssertFailed \<and> cl_connection s \<noteq> Some k
    | Inr s2 \<Rightarrow> cl_connection s = Some k \<and> cl_connection s2 = None \<and> cl_connector s2 = cl_connector s
        \<and> TcpConnection_dtor k (cl_net s2) = Inl AssertFailed"
proof (cases "conn_handleClose client_user k (cl_net s)")
  case (Inl e)
  with client_calls.handleClose_good [OF inv(1,3)] show ?thesis by (simp add: client_close_def)
next
  case (Inr l)
  then have adv: "advances k (cl_net s) l" using client_calls.handleClose_good [OF inv(1,3)] by simp
  obtain cn' where cn': "conns l k = Some cn'" "conn_closeCallback cn' = Some ClRemove"
    using kept_handleClose [of k "cl_net s"] Inr cn by (auto simp: kept_def close_kept_def)
  have "TcpConnection_dtor k l = Inl AssertFailed" using adv inv(2) by (intro dtor_in_poller [of False]) (simp_all add: advances_def)
  with Inr cn' show ?thesis by (simp add: client_close_def TcpClient_removeConnection_def cassert_def)
qed

section \<open>Properties\<close>

text \<open>
  C40. The life of a client's connection. When the connector hands over a socket, the client makes a
  connection that is established in its loop, whatever the user's callback then does to it (with
  the default callback making it cannot fail), and holds it. When that connection closes, at any
  later time, the client lets go of it, but neither takes its channel out of the loop, so that the
  destructor aborts as soon as nobody else holds the connection, nor starts the connector again,
  whether or not \<open>enableRetry\<close> was called. If another connection has taken its place by then, the
  close itself aborts.
\<close>

theorem client_connection_life:
  assumes "reactor_inv (cl_net s)" and "chanHeap (cl_net s) c = None" and "pollChannels (cl_net s) fd = None"
    and "tpIPPort host inet_ntop (InetAddress_of6 (getPeerAddr (snd ends))) = Inr ipPort" and "cl_nextConnId s + 1 < 2 ^ 31"
  shows "(cl_connectionCallback s = Some ClDefaultConnection \<longrightarrow>
      (\<exists>s1. TcpClient_newConnection host inet_ntop ends junk k c fd s = Inr s1 \<and> state_of k (cl_net s1) = kConnected))
    \<and> (case TcpClient_newConnection host inet_ntop ends junk k c fd s of
        Inl e \<Rightarrow> tolerated e
      | Inr s1 \<Rightarrow> cl_connection s1 = Some k \<and> cl_connector s1 = cl_connector s \<and> conn_inv k (cl_net s1)
          \<and> (\<forall>l. advances k (cl_net s1) l \<longrightarrow> close_kept k (cl_net s1) l \<longrightarrow> open_state (state_of k l) \<longrightarrow>
              (case client_close k (s1\<lparr>cl_net := l\<rparr>) of
                 Inl e \<Rightarrow> tolerated e
               | Inr s2 \<Rightarrow> cl_connection s2 = None \<and> cl_connector s2 = cl_connector s
                   \<and> TcpConnection_dtor k (cl_net s2) = Inl AssertFailed)
              \<and> (\<forall>k'. k' \<noteq> k \<longrightarrow> (\<exists>e. client_close k (s1\<lparr>cl_net := l, cl_connection := Some k'\<rparr>) = Inl e))))"
proof (cases "TcpClient_newConnection host inet_ntop ends junk k c fd s")
  case (Inl e)
  with newConnection_outcome [OF assms, where junk = junk and k = k] newConnection_default [OF assms, where junk = junk and k = k] show ?thesis by auto
next
  case (Inr s1)
  from newConnection_outcome [OF assms, where junk = junk and k = k] Inr have s1: "client_inv s1" "cl_connection s1 = Some k" "cl_connector s1 = cl_connector s"
    by simp_all
  then obtain cn where inv: "conn_inv k (cl_net s1)" "in_poller k (cl_net s1)" and cn: "conns (cl_net s1) k = Some cn" "conn_closeCallback cn = Some ClRemove"
    by (auto simp: client_inv_def)
  have "(case client_close k (s1\<lparr>cl_net := l\<rparr>) of
                 Inl e \<Rightarrow> tolerated e
               | Inr s2 \<Rightarrow> cl_connection s2 = None \<and> cl_connector s2 = cl_connector s
                   \<and> TcpConnection_dtor k (cl_net s2) = Inl AssertFailed)
      \<and> (\<forall>k'. k' \<noteq> k \<longrightarrow> (\<exists>e. client_close k (s1\<lparr>cl_net := l, cl_connection := Some k'\<rparr>) = Inl e))"
    if l: "advances k (cl_net s1) l" "close_kept k (cl_net s1) l" "open_state (state_of k l)" for l
  proof -
    from l(2) cn obtain cn' where cn': "conns l k = Some cn'" "conn_closeCallback cn' = Some ClRemove" by (auto simp: close_kept_def)
    have li: "conn_inv k l" "in_poller k l" using l(1) inv(2) by (simp_all add: advances_def)
    note out = client_close_outcome [where k = k and cn = cn']
    have "\<exists>e. client_close k (s1\<lparr>cl_net := l, cl_connection := Some k'\<rparr>) = Inl e" if "k' \<noteq> k" for k'
      using out [of "s1\<lparr>cl_net := l, cl_connection := Some k'\<rparr>"] li l(3) cn' that
      by (cases "client_close k (s1\<lparr>cl_net := l, cl_connection := Some k'\<rparr>)") auto
    moreover have "case client_close k (s1\<lparr>cl_net := l\<rparr>) of
                 Inl e \<Rightarrow> tolerated e
               | Inr s2 \<Rightarrow> cl_connection s2 = None \<and> cl_connector s2 = cl_connector s
                   \<and> TcpConnection_dtor k (cl_net s2) = Inl AssertFailed"
      using out [of "s1\<lparr>cl_net := l\<rparr>"] li l(3) cn' s1 by (cases "client_close k (s1\<lparr>cl_net := l\<rparr>)") auto
    ultimately show ?thesis by blast
  qed
  with Inr s1 inv newConnection_default [OF assms, where junk = junk and k = k] show ?thesis by simp
qed


definition client_net :: "conn_call list cl_cb conn_loop" where
  "client_net = event_loop.extend (loop_members 0 0)
     \<lparr>conns = Map.empty, kernel_out = (\<lambda>_. []), shutdown_calls = [], sockopts = []\<rparr>"

definition sample_client :: "conn_call list tcp_client" where
  "sample_client = enableRetry (TcpClient_ctor (loop_members 0 0) sample_address ''client'' client_net)"

text \<open>A client with retries: the connection is made, and its end is the end of the process.\<close>

theorem client_connection_life_witness:
  "\<exists>s1. TcpClient_newConnection LittleEndian (\<lambda>f bs. ''10.0.0.7'') (None, Some (zero_saddr\<lparr>sa_family := AF_INET\<rparr>)) 99 3 7 5 sample_client = Inr s1
    \<and> cl_retry s1 \<and> state_of 3 (cl_net s1) = kConnected
    \<and> (case client_close 3 s1 of Inl e \<Rightarrow> tolerated e
       | Inr s2 \<Rightarrow> cl_connection s2 = None \<and> cl_connector s2 = cl_connector sample_client \<and> TcpConnection_dtor 3 (cl_net s2) = Inl AssertFailed)"
proof -
  let ?peer = "zero_saddr\<lparr>sa_family := AF_INET\<rparr>"
  let ?new = "TcpClient_newConnection LittleEndian (\<lambda>f bs. ''10.0.0.7'') (None, Some ?peer) 99 3 7 5 sample_client"
  have net: "cl_net sample_client = client_net" by (simp add: sample_client_def enableRetry_def TcpClient_ctor_def)
  have "reactor_inv (cl_net sample_client)" "chanHeap (cl_net sample_client) 7 = None" "pollChannels (cl_net sample_client) 5 = None"
    by (simp_all add: net client_net_def event_loop.defs loop_members_def reactor_inv_def)
  moreover obtain ip where "tpIPPort LittleEndian (\<lambda>f bs. ''10.0.0.7'') (InetAddress_of6 (getPeerAddr (Some ?peer))) = Inr ip"
    by (auto simp: tpIPPort_def getPeerAddr_def InetAddress_of6_def getSockAddr_def read_member_def sockets_toIpPort_def sockets_toIp_def Let_def)
  moreover have "cl_nextConnId sample_client + 1 < 2 ^ 31" "cl_connectionCallback sample_client = Some ClDefaultConnection"
    by (simp_all add: sample_client_def enableRetry_def TcpClient_ctor_def)
  ultimately obtain s1 where s1: "?new = Inr s1" "state_of 3 (cl_net s1) = kConnected" "conn_inv 3 (cl_net s1)"
    "\<forall>l. advances 3 (cl_net s1) l \<longrightarrow> close_kept 3 (cl_net s1) l \<longrightarrow> open_state (state_of 3 l) \<longrightarrow>
      (case client_close 3 (s1\<lparr>cl_net := l\<rparr>) of Inl e \<Rightarrow> tolerated e
       | Inr s2 \<Rightarrow> cl_connection s2 = None \<and> cl_connector s2 = cl_connector sample_client \<and> TcpConnection_dtor 3 (cl_net s2) = Inl AssertFailed)"
    using client_connection_life [of sample_client 7 5 LittleEndian "\<lambda>f bs. ''10.0.0.7''" "(None, Some ?peer)" ip 99 3] by auto
  have "cl_retry s1" using s1(1) by (auto simp: TcpClient_newConnection_def Let_def sample_client_def enableRetry_def cpp_res)
  with s1 advances_refl [OF s1(3)] close_kept_refl [of "cl_net s1" "cl_net s1" 3] show ?thesis
    by (auto simp: open_state_def dest!: spec [of _ "cl_net s1"])
qed

end
