(* ===== verification/Loop_Round.thy ===== *)
theory Loop_Round
  imports Tcp_Connection
begin

unbundle bit_operations_syntax

text \<open>
  The components together: one whole pass of \<open>EventLoop::loop\<close> in which \<open>poll\<close> reports a connection
  readable, through \<open>Epoller\<close>, \<open>Channel\<close> and \<open>TcpConnection\<close> to the queued functors. The definitions here
  are states and frame conditions of such a pass; the code itself is in the imported theories.
\<close>

section \<open>One round of the loop\<close>

text \<open>The state in which the read callback of a channel runs when \<open>poll\<close> reports that channel only.\<close>

definition polled :: "addr \<Rightarrow> 'cb channel \<Rightarrow> int \<Rightarrow> ('cb, 'f, 'z) event_loop_scheme \<Rightarrow> ('cb, 'f, 'z) event_loop_scheme" where
  "polled c ch now l = l\<lparr>activeChannels := [c], eventsSize := (if eventsSize l = 1 then 2 else eventsSize l), pollReturnTime := now,
     iteration := iteration l + 1, eventHandling := True, currentActiveChannel := Some c,
     chanHeap := (chanHeap l)(c \<mapsto> ch\<lparr>revents := POLLIN, ch_eventHandling := True\<rparr>)\<rparr>"

text \<open>Only the read callback is due, and then what it left in the queue.\<close>

lemma only_read [simp]:
  "\<not> has_bits POLLIN POLLHUP" "\<not> has_bits POLLIN (POLLERR OR POLLNVAL)" "has_bits POLLIN (POLLIN OR POLLPRI OR POLLRDHUP)"
  "\<not> has_bits POLLIN POLLOUT"
  by (simp_all add: has_bits_def POLLIN_def POLLHUP_def POLLERR_def POLLNVAL_def POLLPRI_def POLLRDHUP_def POLLOUT_def)

lemma read_round:
  assumes ch: "chanHeap l c = Some ch" and reg: "pollChannels l (ch_fd ch) = Some c" and ev: "0 < eventsSize l"
    and tie: "tied ch \<longrightarrow> (\<exists>obj. ch_tie ch = Some obj \<and> obj \<in> live l)" and cb: "readCallback ch = Some cb"
  shows "loop_iteration run exec (WaitEvents [(POLLIN, c)], now) l =
    bindR (run cb (polled c ch now l)) (\<lambda>l1. bindR (dispatch run (\<lambda>r. has_bits r POLLOUT) writeCallback c l1) (\<lambda>l2.
      bindR (set_chan c (\<lambda>ch. ch\<lparr>ch_eventHandling := False\<rparr>) l2) (\<lambda>l3.
        doPendingFunctors exec (l3\<lparr>currentActiveChannel := None, eventHandling := False\<rparr>))))"
proof -
  let ?ch = "ch\<lparr>revents := POLLIN\<rparr>"
  let ?p = "l\<lparr>activeChannels := [c], eventsSize := (if eventsSize l = 1 then 2 else eventsSize l), chanHeap := (chanHeap l)(c \<mapsto> ?ch)\<rparr>"
  have poll: "Epoller_poll (WaitEvents [(POLLIN, c)]) (l\<lparr>activeChannels := []\<rparr>) = Inr ?p"
    using ch reg ev by (simp add: Epoller_poll_def fillActiveChannels_def fillActive_def set_revents_def Let_def)
  let ?q = "?p\<lparr>pollReturnTime := now, iteration := iteration l + 1, eventHandling := True, currentActiveChannel := Some c\<rparr>"
  have "handleEvent run c ?q = handleEventWithGuard run c ?q"
    using tie by (auto simp: handleEvent_def)
  also have "\<dots> = bindR (run cb (polled c ch now l)) (\<lambda>l1. bindR (dispatch run (\<lambda>r. has_bits r POLLOUT) writeCallback c l1)
      (set_chan c (\<lambda>ch. ch\<lparr>ch_eventHandling := False\<rparr>)))"
    using cb by (simp add: handleEventWithGuard_def dispatch_def [of run _ closeCallback] dispatch_def [of run _ errorCallback]
        dispatch_def [of run _ readCallback] polled_def)
  finally show ?thesis
    by (simp add: loop_iteration_def poll handleActive_def bindR_assoc)
qed

text \<open>What a callback leaves alone, besides the connections: the queue, and how its channel is handled.\<close>

definition undisturbed :: "addr \<Rightarrow> ('cb, 'f, 'z) event_loop_scheme \<Rightarrow> ('cb, 'f, 'z) event_loop_scheme \<Rightarrow> bool" where
  "undisturbed c l l' \<longleftrightarrow> pendingFunctors l' = pendingFunctors l \<and> live l' = live l \<and> eventsSize l' = eventsSize l
     \<and> (\<forall>ch. chanHeap l c = Some ch \<longrightarrow> (\<exists>ch'. chanHeap l' c = Some ch' \<and> same_dispatch ch ch' \<and> tied ch' = tied ch \<and> ch_tie ch' = ch_tie ch))"

lemma undisturbed_trans: "undisturbed c l m \<Longrightarrow> undisturbed c m l' \<Longrightarrow> undisturbed c l l'"
  by (fastforce simp: undisturbed_def same_dispatch_def)

definition round_done :: "addr \<Rightarrow> 'cb channel \<Rightarrow> ('cb, 'f, 'z) event_loop_scheme \<Rightarrow> ('cb, 'f, 'z) event_loop_scheme" where
  "round_done c ch l = l\<lparr>chanHeap := (chanHeap l)(c \<mapsto> ch\<lparr>ch_eventHandling := False\<rparr>), currentActiveChannel := None,
     eventHandling := False, callingPendingFunctors := False\<rparr>"

lemma quiet_round:
  assumes ch: "chanHeap l c = Some ch" and reg: "pollChannels l (ch_fd ch) = Some c" and ev: "0 < eventsSize l"
    and tie: "tied ch \<longrightarrow> (\<exists>obj. ch_tie ch = Some obj \<and> obj \<in> live l)" and cb: "readCallback ch = Some cb"
    and idle: "pendingFunctors l = []" and run: "run cb (polled c ch now l) = Inr l1" and q: "undisturbed c (polled c ch now l) l1"
  shows "\<exists>ch1. chanHeap l1 c = Some ch1 \<and> same_dispatch (ch\<lparr>revents := POLLIN\<rparr>) ch1 \<and> tied ch1 = tied ch \<and> ch_tie ch1 = ch_tie ch
    \<and> loop_iteration run exec (WaitEvents [(POLLIN, c)], now) l = Inr (round_done c ch1 l1)"
proof -
  from q obtain ch1 where ch1: "chanHeap l1 c = Some ch1" "same_dispatch (ch\<lparr>revents := POLLIN\<rparr>) ch1" "tied ch1 = tied ch" "ch_tie ch1 = ch_tie ch"
    and pf: "pendingFunctors l1 = []"
    using idle by (auto simp: undisturbed_def polled_def same_dispatch_def)
  from ch1(2) have "revents ch1 = POLLIN" by (simp add: same_dispatch_def)
  with ch1(1) have "dispatch run (\<lambda>r. has_bits r POLLOUT) writeCallback c l1 = Inr l1" by (simp add: dispatch_def)
  with ch1 pf show ?thesis
    by (simp add: read_round [OF ch reg ev tie cb] run doPendingFunctors_def takePending_def endPending_def round_done_def)
qed

text \<open>Sending on a connection without callbacks for it: only the connection's output, its channel's interest and the socket change.\<close>

lemma sendInLoop_undisturbed:
  assumes v: "conn_view k cn ch l" and cbs: "writeCompleteCallback cn = None" "highWaterMarkCallback cn = None"
    and r: "sendInLoop answer self k mem len l = Inr l'"
  shows "undisturbed (conn_channel cn) l l' \<and> (\<exists>b. conns l' k = Some (cn\<lparr>outputBuffer := b\<rparr>))"
proof -
  note V = conn_viewD [OF v]
  have rest: "undisturbed (conn_channel cn) l m' \<and> (\<exists>b. conns m' k = Some (cn\<lparr>outputBuffer := b\<rparr>))"
    if m: "conn_view k cn ch m" "chanHeap m = chanHeap l" "pendingFunctors m = pendingFunctors l" "live m = live l" "eventsSize m = eventsSize l"
      and s: "send_rest self k mem nw len m = Inr m'" for m m' nw
  proof -
    note M = conn_viewD [OF m(1)]
    from s M(1,2) obtain b where b: "buf_append (drop nw mem) len (outputBuffer cn) = Inr b"
      and m': "(if \<not> isWriting ch then enableWriting (conn_channel cn) (put_conn k (cn\<lparr>outputBuffer := b\<rparr>) m)
        else Inr (put_conn k (cn\<lparr>outputBuffer := b\<rparr>) m)) = Inr m'"
      using cbs by (auto simp: send_rest_def Let_def queue_if_def bindR_eq_Inr get_chan_def split: if_splits)
    let ?m = "put_conn k (cn\<lparr>outputBuffer := b\<rparr>) m"
    have "chanHeap ?m (conn_channel cn) = Some ch" "reactor_inv ?m"
      "pollChannels ?m (ch_fd ch) = None \<or> pollChannels ?m (ch_fd ch) = Some (conn_channel cn)"
      using M m(1) reactor_inv_cong [of ?m m] by (auto simp: conn_view_def)
    from modify_events_ok [OF this(2,1,3), of "\<lambda>e. e OR kWriteEvent"] m' this(1)
    have "m' = (if isWriting ch then ?m else after_update (\<lambda>e. e OR kWriteEvent) (conn_channel cn) ch ?m)"
      by (auto simp: event_ops split: if_splits)
    with V(2) m(2-5) show ?thesis
      by (auto simp: undisturbed_def after_update_def Let_def same_dispatch_def put_conn_def)
  qed
  have same: "undisturbed (conn_channel cn) l m \<and> (\<exists>b. conns m k = Some (cn\<lparr>outputBuffer := b\<rparr>))"
    if "chanHeap m = chanHeap l" "pendingFunctors m = pendingFunctors l" "live m = live l" "eventsSize m = eventsSize l" "conns m = conns l" for m
    using that V(1) by (auto simp: undisturbed_def same_dispatch_def intro: exI [of _ "outputBuffer cn"])
  let ?m = "l\<lparr>kernel_out := (kernel_out l)(ch_fd ch := kernel_out l (ch_fd ch) @ take (written answer) mem)\<rparr>"
  have vm: "conn_view k cn ch ?m" by (rule view_frame [OF v]) simp_all
  have E: "EPIPE \<noteq> EWOULDBLOCK" "ECONNRESET \<noteq> EWOULDBLOCK" by (simp_all add: EPIPE_def EWOULDBLOCK_def ECONNRESET_def)
  have eq: "sendInLoop answer self k mem len l =
    (if conn_state cn = kDisconnected \<or> isWriting ch \<or> readableBytes (outputBuffer cn) \<noteq> 0 then Inr l
      else if length mem < len then Inl OutOfBounds
      else if \<not> fault answer \<and> len > 0 then send_rest self k mem (written answer) len ?m else Inr ?m)"
    unfolding sendInLoop_def V(7,8) bindR_Inr using cbs E
    by (cases answer) (auto simp: sockets_write_def written_def fault_def Let_def queue_if_def)
  note r = r [unfolded eq]
  show ?thesis
  proof (cases "conn_state cn = kDisconnected \<or> isWriting ch \<or> readableBytes (outputBuffer cn) \<noteq> 0")
    case True
    with r have "Inr l = (Inr l' :: 'a conn_loop res)" by (simp only: if_True)
    with same [of l] show ?thesis by simp
  next
    case False
    note r1 = r [unfolded if_not_P [OF False]]
    show ?thesis
    proof (cases "\<not> fault answer \<and> len > 0")
      case True
      with r1 have "send_rest self k mem (written answer) len ?m = Inr l'" by (cases "length mem < len") simp_all
      with rest [OF vm] show ?thesis by simp
    next
      case False
      with r1 have "Inr ?m = (Inr l' :: 'a conn_loop res)" by (cases "length mem < len") (simp_all only: if_True if_False sum.distinct)
      then have m: "l' = ?m" by (simp only: sum.inject)
      show ?thesis unfolding m by (rule same) simp_all
    qed
  qed
qed

text \<open>The connection does not depend on the flags a round sets in its channel.\<close>

lemma view_flags:
  assumes v: "conn_view k cn ch l" and h: "chanHeap l' = (chanHeap l)(conn_channel cn \<mapsto> ch')"
    and same: "conns l' = conns l" "pollChannels l' = pollChannels l" "loopId l' = loopId l"
    and ch: "ch_fd ch' = ch_fd ch" "index ch' = index ch" "ownerLoop ch' = ownerLoop ch" "addedToLoop ch' = addedToLoop ch"
  shows "conn_view k cn ch' l'"
proof -
  note V = conn_viewD [OF v]
  have "reactor_inv l'"
    using V(2,3) unfolding reactor_inv_def chan_ok_def by (auto simp: h same ch) (metis option.inject)
  with v show ?thesis by (auto simp: conn_view_def h same ch)
qed

lemma view_polled:
  "conn_view k cn ch l \<Longrightarrow> conn_view k cn (ch\<lparr>revents := POLLIN, ch_eventHandling := True\<rparr>) (polled (conn_channel cn) ch now l)"
  by (erule view_flags) (simp_all add: polled_def)

lemma view_round_done:
  "conn_view k cn ch l \<Longrightarrow> conn_view k cn (ch\<lparr>ch_eventHandling := False\<rparr>) (round_done (conn_channel cn) ch l)"
  by (erule view_flags) (simp_all add: round_done_def)

lemma phase_flags [simp]:
  "conn_phase cn (ch\<lparr>ch_eventHandling := b\<rparr>) = conn_phase cn ch" "conn_phase cn (ch\<lparr>revents := r\<rparr>) = conn_phase cn ch"
  by (simp_all add: conn_phase_def isWriting_def isNoneEvent_def)

lemma stream_rounds [simp]: "stream k (polled c ch now l) = stream k l" "stream k (round_done c ch l) = stream k l"
  by (simp_all add: stream_def polled_def round_done_def)

end
