(* ===== verification/Echo_Server.thy ===== *)
theory Echo_Server
  imports Tcp_Server Tcp_Client Loop_Round
begin

text \<open>
  \<open>main.cpp\<close>: the echo server of the test program, with its two callbacks and the order in which \<open>main\<close>
  sets up a server and a client, and the object factory that is tried out beside them. The callbacks
  are the user code of the connections' theory, so what the server answers is a property of all the
  layers below together. Log output is left out, but what a log statement reads is not.
\<close>

section \<open>The callbacks\<close>

datatype echo_cb = OnConnection | OnMessage

text \<open>What \<open>onConnection\<close> prints of a connection.\<close>

definition onConnection :: "endianness \<Rightarrow> ntop \<Rightarrow> addr \<Rightarrow> 'u conn_loop \<Rightarrow> string res" where
  "onConnection host inet_ntop k l =
     bindR (get_conn k l) (\<lambda>conn.
     bindR (tpIPPort host inet_ntop (conn_peerAddr conn)) (\<lambda>peer.
     bindR (tpIPPort host inet_ntop (conn_localAddr conn)) (\<lambda>here.
       Inr (''Server New Connection: '' @ peer @ ''->'' @ here @ ''is '' @ (if connected conn then ''UP'' else ''DOWN'')))))"

text \<open>\<open>buf\<close> is the input buffer of \<open>conn\<close>.\<close>

definition onMessage :: "'u user \<Rightarrow> write_result \<Rightarrow> addr \<Rightarrow> 'u conn_loop \<Rightarrow> 'u conn_loop res" where
  "onMessage user answer k l =
     bindR (get_conn k l) (\<lambda>conn.
     bindR (retrieveAllAsString (inputBuffer conn)) (\<lambda>(msg, buf).
       send_string user answer (threadId l) k msg (put_conn k (conn\<lparr>inputBuffer := buf\<rparr>) l)))"

text \<open>
  The callbacks of a connection of this server. A close callback asks the server for the removal,
  which is a step of the server. The user code that \<open>send\<close> takes is for functors it does not run.
\<close>

fun echo_user :: "endianness \<Rightarrow> ntop \<Rightarrow> write_result \<Rightarrow> echo_cb srv_cb user" where
  "echo_user host inet_ntop answer (UserCb OnConnection) up l =
     bindR (onConnection host inet_ntop (up_conn up) l) (\<lambda>_. Inr l)"
| "echo_user host inet_ntop answer (UserCb OnMessage) up l = onMessage (\<lambda>_ _. Inr) answer (up_conn up) l"
| "echo_user host inet_ntop answer DefaultConnectionCb up l = defaultConnectionCallback (up_conn up) l"
| "echo_user host inet_ntop answer DefaultMessageCb up l = defaultMessageCallback (up_conn up) l"
| "echo_user host inet_ntop answer ServerRemoveCb up l = Inr l"

section \<open>The program\<close>

text \<open>
  From the construction of the server to the first message of the client. \<open>pLoop\<close> is the global
  pointer to a loop, \<open>None\<close> for \<open>NULL\<close>: constructing the server only stores it, starting the pool
  of threads dereferences it. The client's connection is \<open>None\<close> until one is made.
\<close>

definition deref :: "'a option \<Rightarrow> 'a res" where
  "deref p = (case p of None \<Rightarrow> Inl NullDeref | Some a \<Rightarrow> Inr a)"

definition echo_main :: "endianness \<Rightarrow> ntop \<Rightarrow> addr \<times> fd \<times> fd \<times> 'cb \<Rightarrow> (addr \<Rightarrow> echo_cb srv_cb conn_loop)
    \<Rightarrow> (nat \<Rightarrow> addr) \<Rightarrow> (con_functor \<Rightarrow> connector \<Rightarrow> connector res) \<Rightarrow> tid \<Rightarrow> write_result
    \<Rightarrow> (con_cb, con_functor) event_loop \<Rightarrow> conn_call list cl_cb conn_loop
    \<Rightarrow> addr option \<Rightarrow> inet_address \<Rightarrow> inet_address \<Rightarrow> ('cb, 'f) acc_loop
    \<Rightarrow> (echo_cb tcp_server \<times> conn_call list tcp_client) res" where
  "echo_main host inet_ntop acceptor ls startLoop exec self answer cl net pLoop listenAddr serveraddr l =
     bindR (TcpServer_ctor host inet_ntop acceptor ls listenAddr ''Test TcpServer1'' False l) (\<lambda>(s, l1).
     bindR (TcpServer_setThreadNum 10 s) (\<lambda>s1.
     let s2 = TcpServer_setConnectionCallback (Some (UserCb OnConnection))
                (TcpServer_setMessageCallback (Some (UserCb OnMessage)) s1)
     in bindR (deref pLoop) (\<lambda>_.
        bindR (TcpServer_start startLoop (listenning l1) s2) (\<lambda>s3.
        bindR (TcpClient_connect exec self (TcpClient_ctor cl serveraddr ''Test TcpClient'' net)) (\<lambda>c.
        bindR (deref (cl_connection c)) (\<lambda>k.
        bindR (send_string client_user answer self k (map of_char ''123123123'') (cl_net c)) (\<lambda>net1.
          Inr (s3, c\<lparr>cl_net := net1\<rparr>))))))))"

section \<open>The factory\<close>

text \<open>
  A weak pointer is \<open>None\<close> when empty, else the number of the object it was made from; \<open>stock_live\<close> are
  the objects some \<open>shared_ptr\<close> holds, with their names.
\<close>

record factory =
  stocks :: "string \<rightharpoonup> nat option"
  stock_live :: "nat \<rightharpoonup> string"
  stock_next :: nat

definition Factory_ctor :: factory where
  "Factory_ctor = \<lparr>stocks = Map.empty, stock_live = Map.empty, stock_next = 0\<rparr>"

definition weak_lock :: "nat option \<Rightarrow> factory \<Rightarrow> nat option" where
  "weak_lock w f = (case w of None \<Rightarrow> None | Some a \<Rightarrow> if stock_live f a = None then None else Some a)"

text \<open>\<open>stocks_[key]\<close> makes an entry with an empty pointer when there is none; \<open>wpStock\<close> is not written again.\<close>

definition Factory_get :: "string \<Rightarrow> factory \<Rightarrow> nat \<times> factory" where
  "Factory_get key f =
     (let f1 = (if stocks f key = None then f\<lparr>stocks := (stocks f)(key \<mapsto> None)\<rparr> else f)
      in case weak_lock (the (stocks f1 key)) f1 of
           Some a \<Rightarrow> (a, f1)
         | None \<Rightarrow> (stock_next f1, f1\<lparr>stock_live := (stock_live f1)(stock_next f1 \<mapsto> key), stock_next := stock_next f1 + 1\<rparr>))"

text \<open>The deleter, called when the last \<open>shared_ptr\<close> to the object goes.\<close>

definition deleteStock :: "nat \<Rightarrow> factory \<Rightarrow> factory" where
  "deleteStock a f =
     (case stock_live f a of
        None \<Rightarrow> f
      | Some nm \<Rightarrow> f\<lparr>stocks := (stocks f)(nm := None), stock_live := (stock_live f)(a := None)\<rparr>)"

text \<open>\<open>insert\<close>: the \<open>shared_ptr\<close> made here is a temporary, so the object is gone at the end of the statement.\<close>

definition Factory_insert :: "string \<Rightarrow> factory \<Rightarrow> factory" where
  "Factory_insert nm f = f\<lparr>stocks := (stocks f)(nm \<mapsto> Some (stock_next f)), stock_next := stock_next f + 1\<rparr>"

inductive factory_step :: "factory \<Rightarrow> factory \<Rightarrow> bool" where
  "factory_step f (snd (Factory_get key f))"
| "factory_step f (deleteStock a f)"
| "factory_step f (Factory_insert nm f)"

definition factory_inv :: "factory \<Rightarrow> bool" where
  "factory_inv f \<longleftrightarrow> (\<forall>key a. stocks f key = Some (Some a) \<longrightarrow> stock_live f a = None \<and> a < stock_next f)
     \<and> (\<forall>a. stock_live f a \<noteq> None \<longrightarrow> a < stock_next f)"

lemma factory_lock: "factory_inv f \<Longrightarrow> stocks f key = Some w \<Longrightarrow> weak_lock w f = None"
  by (cases w) (auto simp: weak_lock_def factory_inv_def)

lemma factory_get: "factory_inv f \<Longrightarrow> \<exists>f'. Factory_get key f = (stock_next f, f') \<and> stock_live f' = (stock_live f)(stock_next f \<mapsto> key)"
  using factory_lock [of f key] by (auto simp: Factory_get_def Let_def weak_lock_def split: option.split)

lemma factory_get_inv: "factory_inv f \<Longrightarrow> factory_inv (snd (Factory_get key f))"
  using factory_lock [of f key]
  by (auto simp: Factory_get_def Let_def weak_lock_def factory_inv_def less_Suc_eq split: option.split)

interpretation factory: transition_system "\<lambda>f. f = Factory_ctor" factory_step factory_inv
proof unfold_locales
  fix f f'
  assume inv: "factory_inv f" and "factory_step f f'"
  from this(2) show "factory_inv f'"
  proof cases
    case (1 key)
    with factory_get_inv [OF inv] show ?thesis by simp
  next
    case (2 a)
    with inv show ?thesis by (cases "stock_live f a") (auto simp: deleteStock_def factory_inv_def)
  next
    case (3 nm)
    with inv show ?thesis by (auto simp: Factory_insert_def factory_inv_def less_Suc_eq)
  qed
qed (simp add: Factory_ctor_def factory_inv_def)

text \<open>
  The factory never shares an object: whatever was done before, \<open>get\<close> makes a new one, also while
  another object of that name is alive.
\<close>

lemma factory_never_shares:
  assumes "factory_step\<^sup>*\<^sup>* Factory_ctor f"
  shows "stock_live f (fst (Factory_get key f)) = None"
    and "fst (Factory_get key (snd (Factory_get key f))) \<noteq> fst (Factory_get key f)"
proof -
  have inv: "factory_inv f" using factory.reachable_inv [OF refl assms] .
  from factory_get [OF inv, of key] obtain f' where f': "Factory_get key f = (stock_next f, f')"
    "stock_live f' = (stock_live f)(stock_next f \<mapsto> key)" by blast
  have inv': "factory_inv f'" using factory_get_inv [OF inv, of key] f'(1) by simp
  from factory_get [OF inv', of key] have "fst (Factory_get key f') = stock_next f'" by auto
  moreover have "stock_next f < stock_next f'" using inv' f'(2) by (simp add: factory_inv_def)
  ultimately show "fst (Factory_get key (snd (Factory_get key f))) \<noteq> fst (Factory_get key f)" using f'(1) by simp
  show "stock_live f (fst (Factory_get key f)) = None" using inv f'(1) by (auto simp: factory_inv_def)
qed

section \<open>What becomes of the program\<close>

lemma connect_keeps: "TcpClient_connect exec self c = Inr c' \<Longrightarrow> cl_connection c' = cl_connection c"
  by (auto simp: TcpClient_connect_def bindR_eq_Inr)

text \<open>
  The program never gets to its loop. The server's address is made for IPv4 and printed as IPv6; with
  an address that can be printed, the null pointer is dereferenced in \<open>start\<close>; and with a loop, the
  client's connection is used before it exists.
\<close>

lemma echo_main_fails:
  "echo_main host inet_ntop acceptor ls startLoop exec self answer cl net pLoop (InetAddress_port host 2037 False False) serveraddr l
    = Inl Uninitialised"
  "TcpServer_ctor host inet_ntop acceptor ls listenAddr ''Test TcpServer1'' False l = Inr r \<Longrightarrow>
    echo_main host inet_ntop acceptor ls startLoop exec self answer cl net None listenAddr serveraddr l = Inl NullDeref"
  "echo_main host inet_ntop acceptor ls startLoop exec self answer cl net pLoop listenAddr serveraddr l \<noteq> Inr r'"
proof -
  show "echo_main host inet_ntop acceptor ls startLoop exec self answer cl net pLoop (InetAddress_port host 2037 False False) serveraddr l
    = Inl Uninitialised"
    by (cases acceptor) (simp add: echo_main_def TcpServer_ctor_def tpIPPort_def getSockAddr_def read_member_def InetAddress_port_def)
  show "echo_main host inet_ntop acceptor ls startLoop exec self answer cl net None listenAddr serveraddr l = Inl NullDeref"
    if "TcpServer_ctor host inet_ntop acceptor ls listenAddr ''Test TcpServer1'' False l = Inr r"
    using that by (cases r) (simp add: echo_main_def TcpServer_setThreadNum_def deref_def)
  show "echo_main host inet_ntop acceptor ls startLoop exec self answer cl net pLoop listenAddr serveraddr l \<noteq> Inr r'"
  proof
    assume "echo_main host inet_ntop acceptor ls startLoop exec self answer cl net pLoop listenAddr serveraddr l = Inr r'"
    then obtain c k where "TcpClient_connect exec self (TcpClient_ctor cl serveraddr ''Test TcpClient'' net) = Inr c"
      "deref (cl_connection c) = Inr k"
      by (auto simp: echo_main_def bindR_eq_Inr Let_def)
    with connect_keeps show False by (fastforce simp: TcpClient_ctor_def deref_def)
  qed
qed

section \<open>Answering a message\<close>

text \<open>A readable connection hands the bytes to \<open>onMessage\<close>, which empties the input and sends them.\<close>

lemma echo_sends:
  assumes v: "conn_view k cn ch l" and st: "conn_state cn = kConnected"
    and cb: "messageCallback cn = Some (UserCb OnMessage)" and fits: "readv_fits readv"
    and room: "length (buf_data (inputBuffer cn)) + extrabuf_size \<le> max_size"
    and rd: "readv (readFd_iov (writableBytes (inputBuffer cn))) = IoBytes bs" "bs \<noteq> []"
  shows "\<exists>buf m. conn_handleRead (echo_user host inet_ntop answer) readv k t l
      = sendInLoop answer (threadId l) k ((content (inputBuffer cn) @ bs) @ [0]) (length (content (inputBuffer cn) @ bs)) m
    \<and> conn_view k (cn\<lparr>inputBuffer := buf\<rparr>) ch m \<and> content buf = [] \<and> stream k m = stream k l \<and> undisturbed (conn_channel cn) l m"
proof -
  note V = conn_viewD [OF v]
  let ?msg = "content (inputBuffer cn) @ bs"
  from readFd_room [OF V(5) fits room rd(1)] obtain b where
    b: "readFd readv (inputBuffer cn) = Inr (IoBytes bs, b)" "buf_inv b" "content b = ?msg" by blast
  from retrieveAsString_ok [OF b(2), of "length (content b)"] obtain buf where
    buf: "retrieveAllAsString b = Inr (?msg, buf)" "buf_inv buf" "content buf = []"
    using b(2,3) by (auto simp: retrieveAllAsString_def readableBytes_content simp del: readableBytes_inv)
  let ?l1 = "put_conn k (cn\<lparr>inputBuffer := b\<rparr>) l" and ?cn = "cn\<lparr>inputBuffer := buf\<rparr>"
  let ?m = "put_conn k ?cn ?l1"
  have v1: "conn_view k (cn\<lparr>inputBuffer := b\<rparr>) ch ?l1" by (rule view_put [OF v]) (use V b in simp_all)
  have vm: "conn_view k ?cn ch ?m" by (rule view_put [OF v1]) (use V buf in simp_all)
  have "conn_handleRead (echo_user host inet_ntop answer) readv k t l = onMessage (\<lambda>_ _. Inr) answer k ?l1"
    using V(7) b(1) rd(2) cb by (simp add: conn_handleRead_def call_user_def)
  also have "\<dots> = sendInLoop answer (threadId l) k (?msg @ [0]) (length ?msg) ?m"
    using V(7) buf(1) st by (simp add: onMessage_def send_string_def sendInLoop_string_def isInLoopThread_def)
  finally have "conn_handleRead (echo_user host inet_ntop answer) readv k t l
    = sendInLoop answer (threadId l) k (?msg @ [0]) (length ?msg) ?m" .
  moreover have "stream k ?m = stream k l" "undisturbed (conn_channel cn) l ?m"
    using V(1) by (simp_all add: stream_def undisturbed_def same_dispatch_def put_conn_def)
  ultimately show ?thesis using vm buf(3) by blast
qed

lemma short_take: "xs \<noteq> [] \<Longrightarrow> n \<le> 1 \<Longrightarrow> take n (xs @ [x]) @ take (length xs) (drop n (xs @ [x])) = xs @ replicate n x"
  by (cases xs; cases n) simp_all

text \<open>The whole handler of a readable connection, on every branch.\<close>

lemma echo_handles:
  assumes v: "conn_view k cn ch l" and p: "conn_phase cn ch" and st: "conn_state cn = kConnected"
    and cb: "messageCallback cn = Some (UserCb OnMessage)" and quiet: "writeCompleteCallback cn = None" "highWaterMarkCallback cn = None"
    and fits: "readv_fits readv" and room: "length (buf_data (inputBuffer cn)) + extrabuf_size \<le> max_size"
    and rd: "readv (readFd_iov (writableBytes (inputBuffer cn))) = IoBytes bs" "bs \<noteq> []"
    and out: "writerIndex (outputBuffer cn) + length (content (inputBuffer cn) @ bs) \<le> max_size"
  shows "if content (outputBuffer cn) = [] \<and> \<not> fault answer \<and> 1 < written answer
    then conn_handleRead (echo_user host inet_ntop answer) readv k t l = Inl OutOfBounds
    else \<exists>l' i b ch'. conn_handleRead (echo_user host inet_ntop answer) readv k t l = Inr l'
      \<and> conn_view k (cn\<lparr>inputBuffer := i, outputBuffer := b\<rparr>) ch' l' \<and> conn_phase (cn\<lparr>inputBuffer := i, outputBuffer := b\<rparr>) ch'
      \<and> undisturbed (conn_channel cn) l l' \<and> content i = []
      \<and> stream k l' = stream k l @ (if content (outputBuffer cn) \<noteq> [] \<or> fault answer then []
          else content (inputBuffer cn) @ bs @ replicate (written answer) 0)"
proof -
  let ?msg = "content (inputBuffer cn) @ bs"
  have wr: "isWriting ch \<longleftrightarrow> content (outputBuffer cn) \<noteq> []" using p st by (simp add: conn_phase_def)
  from echo_sends [OF v st cb fits room rd, of host inet_ntop answer t] obtain buf m where
    eq: "conn_handleRead (echo_user host inet_ntop answer) readv k t l
      = sendInLoop answer (threadId l) k (?msg @ [0]) (length ?msg) m"
    and m: "conn_view k (cn\<lparr>inputBuffer := buf\<rparr>) ch m" "content buf = []" "stream k m = stream k l"
    and um: "undisturbed (conn_channel cn) l m" by blast
  let ?cn = "cn\<lparr>inputBuffer := buf\<rparr>"
  have pm: "conn_phase ?cn ch" using p by (simp add: conn_phase_def)
  show ?thesis
  proof (cases "isWriting ch")
    case True
    with sendInLoop_busy [OF m(1)] m pm um wr show ?thesis
      by (simp add: eq) (intro exI [of _ m] exI [of _ buf] exI [of _ "outputBuffer cn"] exI [of _ ch], simp)
  next
    case False
    have live: "if \<not> fault answer \<and> length (?msg @ [0]) < written answer + length ?msg
      then sendInLoop answer (threadId l) k (?msg @ [0]) (length ?msg) m = Inl OutOfBounds
      else \<exists>l' cn' ch'. sendInLoop answer (threadId l) k (?msg @ [0]) (length ?msg) m = Inr l' \<and> conn_view k cn' ch' l'
        \<and> conn_phase cn' ch' \<and> conn_state cn' = conn_state ?cn \<and> inputBuffer cn' = inputBuffer ?cn
        \<and> stream k l' = stream k m @ (if fault answer then []
            else take (written answer) (?msg @ [0]) @ take (length ?msg) (drop (written answer) (?msg @ [0])))"
      by (rule sendInLoop_live [OF m(1) pm]) (use st rd(2) out False in simp_all)
    show ?thesis
    proof (cases "\<not> fault answer \<and> 1 < written answer")
      case True
      with live False wr show ?thesis by (simp add: eq)
    next
      case ok: False
      with live obtain l' cn' ch' where
        l': "sendInLoop answer (threadId l) k (?msg @ [0]) (length ?msg) m = Inr l'" "conn_view k cn' ch' l'" "conn_phase cn' ch'"
        "stream k l' = stream k l @ (if fault answer then []
          else take (written answer) (?msg @ [0]) @ take (length ?msg) (drop (written answer) (?msg @ [0])))"
        using m(3) by auto
      have "stream k l' = stream k l @ (if fault answer then [] else ?msg @ replicate (written answer) 0)"
        using l'(4) short_take [of ?msg "written answer" 0] rd(2) ok by (cases "fault answer") simp_all
      moreover from sendInLoop_undisturbed [OF m(1) _ _ l'(1)] quiet conn_viewD(1) [OF l'(2)] obtain b where
        "undisturbed (conn_channel cn) m l'" "cn' = ?cn\<lparr>outputBuffer := b\<rparr>" by auto
      ultimately show ?thesis using l'(1-3) undisturbed_trans [OF um] m(2) ok False wr
        by (simp add: eq) (intro exI [of _ l'] exI [of _ buf] exI [of _ b] exI [of _ ch'], simp)
    qed
  qed
qed

text \<open>
  A connection in service: connected, with the callbacks the server gives it, its channel tied to it, and
  nothing queued in its loop.
\<close>

definition echo_ready :: "addr \<Rightarrow> echo_cb srv_cb tcp_conn \<Rightarrow> echo_cb srv_cb conn_loop \<Rightarrow> bool" where
  "echo_ready k cn l \<longleftrightarrow> conn_inv k l \<and> conns l k = Some cn \<and> conn_state cn = kConnected
     \<and> messageCallback cn = Some (UserCb OnMessage) \<and> writeCompleteCallback cn = None \<and> highWaterMarkCallback cn = None
     \<and> (case chanHeap l (conn_channel cn) of None \<Rightarrow> False
        | Some ch \<Rightarrow> readCallback ch = Some (ConnHandleRead k) \<and> tied ch \<and> ch_tie ch = Some k)
     \<and> k \<in> live l \<and> pendingFunctors l = [] \<and> 0 < eventsSize l"

lemma echo_readyE:
  assumes "echo_ready k cn l"
  obtains ch where "conn_view k cn ch l" "conn_phase cn ch" "readCallback ch = Some (ConnHandleRead k)" "tied ch" "ch_tie ch = Some k"
    "pollChannels l (ch_fd ch) = Some (conn_channel cn)"
proof -
  from assms obtain ch where v: "conn_view k cn ch l" and p: "conn_phase cn ch" by (auto simp: echo_ready_def conn_inv_def conn_view_def)
  have "index ch \<noteq> KNew" using p assms by (simp add: conn_phase_def echo_ready_def open_state_def)
  with reactor_invD(1) [OF conn_viewD(3,2) [OF v]] have "pollChannels l (ch_fd ch) = Some (conn_channel cn)"
    by (simp add: chan_ok_def split: if_splits)
  with that [OF v p] assms conn_viewD(2) [OF v] show ?thesis by (simp add: echo_ready_def)
qed

text \<open>
  How a connection gets into service: \<open>connectEstablished\<close> on a new connection that has the server's
  callbacks, if the two addresses that \<open>onConnection\<close> prints can be printed.
\<close>

lemma echo_established:
  assumes v: "conn_view k cn ch l" and st: "conn_state cn = kConnecting" and new: "content (outputBuffer cn) = []" "events ch = kNoneEvent"
    and cbs: "connectionCallback cn = Some (UserCb OnConnection)" "messageCallback cn = Some (UserCb OnMessage)"
      "writeCompleteCallback cn = None" "highWaterMarkCallback cn = None" "readCallback ch = Some (ConnHandleRead k)"
    and l: "k \<in> live l" "pendingFunctors l = []" "0 < eventsSize l"
    and pr: "tpIPPort host inet_ntop (conn_peerAddr cn) = Inr peer" "tpIPPort host inet_ntop (conn_localAddr cn) = Inr here"
  shows "\<exists>l'. connectEstablished (echo_user host inet_ntop answer) k l = Inr l' \<and> echo_ready k (cn\<lparr>conn_state := kConnected\<rparr>) l'
    \<and> stream k l' = stream k l"
proof -
  note V = conn_viewD [OF v]
  let ?cn = "cn\<lparr>conn_state := kConnected\<rparr>" and ?c = "conn_channel cn" and ?ch = "ch\<lparr>ch_tie := Some k, tied := True\<rparr>"
  let ?l1 = "put_conn k ?cn l"
  let ?l2 = "?l1\<lparr>chanHeap := (chanHeap l)(?c \<mapsto> ?ch)\<rparr>"
  have v1: "conn_view k ?cn ch ?l1" by (rule view_put [OF v]) (use V in simp_all)
  have v2: "conn_view k ?cn ?ch ?l2" by (rule view_flags [OF v1]) simp_all
  note V2 = conn_viewD [OF v2]
  let ?l3 = "after_update (\<lambda>e. e OR kReadEvent) ?c ?ch ?l2"
  let ?ch3 = "?ch\<lparr>events := kReadEvent, addedToLoop := True, index := KAdded\<rparr>"
  have free: "pollChannels ?l2 (ch_fd ?ch) = None \<or> pollChannels ?l2 (ch_fd ?ch) = Some ?c" using v2 by (auto simp: conn_view_def)
  have en: "enableReading ?c ?l2 = Inr ?l3"
    using modify_events_ok [OF V2(3), of ?c ?ch "\<lambda>e. e OR kReadEvent"] V2(2) free by (simp add: event_ops)
  have ev: "kNoneEvent OR kReadEvent = kReadEvent" "kReadEvent \<noteq> kNoneEvent" by (simp_all add: kNoneEvent_def kReadEvent_def POLLIN_def POLLPRI_def)
  have h: "chanHeap ?l3 ?c = Some ?ch3" using ev new by (simp add: after_update_def Let_def)
  have "reactor_inv ?l3" using after_update_inv [OF V2(3), of ?c ?ch] V2(2) free by simp
  then have v3: "conn_view k ?cn ?ch3 ?l3" using v2 h by (simp add: conn_view_def after_update_def Let_def)
  have p3: "conn_phase ?cn ?ch3"
    using new by (simp add: conn_phase_def isWriting_def has_bits_def kReadEvent_def kWriteEvent_def POLLIN_def POLLPRI_def POLLOUT_def KAdded_def KNew_def)
  have "connectEstablished (echo_user host inet_ntop answer) k l = Inr ?l3"
    using V(1,2) st cbs(1) en pr conn_viewD(7) [OF v3]
    by (simp add: connectEstablished_def setState_def Channel_tie_def call_user_def onConnection_def set_chan_def get_chan_def)
  moreover have "echo_ready k ?cn ?l3"
    using conn_invI [OF v3 p3] conn_viewD(1) [OF v3] h cbs l by (simp add: echo_ready_def) (simp add: after_update_def Let_def put_conn_def)
  moreover have "stream k ?l3 = stream k l" using V(1) by (simp add: stream_def after_update_def Let_def)
  ultimately show ?thesis by blast
qed

section \<open>Properties\<close>

text \<open>
  C7. The echo, through all layers. When \<open>poll\<close> reports a connection of the echo server readable, one
  pass of the loop (the poller, the tied channel, the connection's read handler, \<open>onMessage\<close>, \<open>send\<close>,
  the queued functors) takes everything out of its input buffer and leaves the connection in service.
  If the socket takes nothing at that moment, exactly the bytes received, in their order, join the
  bytes sent. If output is still pending, or the socket is broken, they are lost. If the socket takes
  one byte the reply has a zero byte too many, and if it takes more the server reads outside of the
  message.
\<close>

theorem echo_reply:
  assumes "echo_ready k cn l" and "readv_fits readv"
    and "length (buf_data (inputBuffer cn)) + extrabuf_size \<le> max_size"
    and "readv (readFd_iov (writableBytes (inputBuffer cn))) = IoBytes bs" and "bs \<noteq> []"
    and "writerIndex (outputBuffer cn) + length (content (inputBuffer cn) @ bs) \<le> max_size"
  shows "let round = loop_iteration (run_conn_cb (echo_user host inet_ntop answer) answer readv)
        (exec_conn_functor (echo_user host inet_ntop answer) answer) (WaitEvents [(POLLIN, conn_channel cn)], now) l
    in if content (outputBuffer cn) = [] \<and> \<not> fault answer \<and> 1 < written answer then round = Inl OutOfBounds
       else \<exists>l' cn'. round = Inr l' \<and> echo_ready k cn' l' \<and> content (inputBuffer cn') = []
         \<and> stream k l' = stream k l @ (if content (outputBuffer cn) \<noteq> [] \<or> fault answer then []
             else content (inputBuffer cn) @ bs @ replicate (written answer) 0)"
proof -
  note R = assms(1) [unfolded echo_ready_def]
  let ?c = "conn_channel cn" and ?run = "run_conn_cb (echo_user host inet_ntop answer) answer readv"
    and ?exec = "exec_conn_functor (echo_user host inet_ntop answer) answer"
  from assms(1) obtain ch where v: "conn_view k cn ch l" and p: "conn_phase cn ch"
    and ch: "readCallback ch = Some (ConnHandleRead k)" "tied ch" "ch_tie ch = Some k" "pollChannels l (ch_fd ch) = Some ?c"
    by (rule echo_readyE)
  let ?p = "polled ?c ch now l"
  have tie: "tied ch \<longrightarrow> (\<exists>obj. ch_tie ch = Some obj \<and> obj \<in> live l)" using R ch by blast
  have run: "?run (ConnHandleRead k) ?p = conn_handleRead (echo_user host inet_ntop answer) readv k now ?p"
    by (simp add: polled_def)
  have h: "if content (outputBuffer cn) = [] \<and> \<not> fault answer \<and> 1 < written answer then ?run (ConnHandleRead k) ?p = Inl OutOfBounds
    else \<exists>l' i b ch'. ?run (ConnHandleRead k) ?p = Inr l'
      \<and> conn_view k (cn\<lparr>inputBuffer := i, outputBuffer := b\<rparr>) ch' l' \<and> conn_phase (cn\<lparr>inputBuffer := i, outputBuffer := b\<rparr>) ch'
      \<and> undisturbed ?c ?p l' \<and> content i = []
      \<and> stream k l' = stream k ?p @ (if content (outputBuffer cn) \<noteq> [] \<or> fault answer then []
          else content (inputBuffer cn) @ bs @ replicate (written answer) 0)"
    unfolding run by (rule echo_handles [OF view_polled [OF v]]) (use p R assms(2-) in simp_all)
  show ?thesis
  proof (cases "content (outputBuffer cn) = [] \<and> \<not> fault answer \<and> 1 < written answer")
    case True
    with h read_round [OF conn_viewD(2) [OF v] ch(4) _ tie ch(1), of ?run ?exec now] R show ?thesis by (simp add: Let_def)
  next
    case False
    with h obtain l1 i b ch1 where l1: "?run (ConnHandleRead k) ?p = Inr l1"
      and v1: "conn_view k (cn\<lparr>inputBuffer := i, outputBuffer := b\<rparr>) ch1 l1" and p1: "conn_phase (cn\<lparr>inputBuffer := i, outputBuffer := b\<rparr>) ch1"
      and u: "undisturbed ?c ?p l1" and rest: "content i = []" "stream k l1 = stream k l @ (if content (outputBuffer cn) \<noteq> [] \<or> fault answer then []
          else content (inputBuffer cn) @ bs @ replicate (written answer) 0)" by auto
    from quiet_round [where run = ?run and exec = ?exec, OF conn_viewD(2) [OF v] ch(4) _ tie ch(1) _ l1 u] R conn_viewD(2) [OF v1]
    have it: "loop_iteration ?run ?exec (WaitEvents [(POLLIN, ?c)], now) l = Inr (round_done ?c ch1 l1)"
      and same: "same_dispatch (ch\<lparr>revents := POLLIN\<rparr>) ch1" "tied ch1 = tied ch" "ch_tie ch1 = ch_tie ch" by auto
    let ?cn = "cn\<lparr>inputBuffer := i, outputBuffer := b\<rparr>"
    have vr: "conn_view k ?cn (ch1\<lparr>ch_eventHandling := False\<rparr>) (round_done ?c ch1 l1)" using view_round_done [OF v1] by simp
    with p1 have "conn_inv k (round_done ?c ch1 l1)" by (intro conn_invI [OF vr]) simp
    then have "echo_ready k ?cn (round_done ?c ch1 l1)"
      using R same ch u conn_viewD(1) [OF vr] by (auto simp: echo_ready_def same_dispatch_def undisturbed_def polled_def round_done_def)
    with it rest False show ?thesis by (auto simp: Let_def)
  qed
qed

text \<open>A connected client of the server, at address 3 with channel 7 on descriptor 5.\<close>

definition echo_conn :: "echo_cb srv_cb tcp_conn" where
  "echo_conn = (new_conn ''echo'' 5 sample_ends sample_ends 7 (mk_buf (replicate 100 0) 8 8) (mk_buf (replicate 100 0) 8 8))
     \<lparr>conn_state := kConnected, connectionCallback := Some (UserCb OnConnection), messageCallback := Some (UserCb OnMessage),
      conn_closeCallback := Some ServerRemoveCb\<rparr>"

definition echo_channel :: "conn_cb channel" where
  "echo_channel = (reading_channel 0 5 (ConnHandleRead 3))\<lparr>ch_tie := Some 3, tied := True\<rparr>"

definition echo_open :: "echo_cb srv_cb conn_loop" where
  "echo_open = (idle_loop 0)\<lparr>chanHeap := [7 \<mapsto> echo_channel], live := {3}, pollChannels := [5 \<mapsto> 7], conns := [3 \<mapsto> echo_conn]\<rparr>"

lemma echo_open_ready: "echo_ready 3 echo_conn echo_open"
proof -
  have "conn_view 3 echo_conn echo_channel echo_open"
    by (simp add: conn_view_def echo_channel_def echo_open_def echo_conn_def new_conn_def idle_loop_def event_loop.extend_def loop_members_def
        reactor_inv_def chan_ok_def reading_channel_def mkChannel_def buf_inv_def kCheapPrepend_def max_size_def KNew_def KAdded_def)
  moreover have "conn_phase echo_conn echo_channel"
    by (simp add: conn_phase_def echo_conn_def new_conn_def content_def echo_channel_def reading_channel_def mkChannel_def isWriting_def
        has_bits_def kReadEvent_def kWriteEvent_def POLLIN_def POLLPRI_def POLLOUT_def KAdded_def KNew_def)
  ultimately have "conn_inv 3 echo_open" by (rule conn_invI)
  then show ?thesis
    by (simp add: echo_ready_def echo_open_def echo_conn_def new_conn_def echo_channel_def reading_channel_def idle_loop_def
        event_loop.extend_def loop_members_def)
qed

text \<open>The client sends \<open>hi\<close>: the answer is right on a socket that is full, and a failure on one that is not.\<close>

definition echo_round :: "write_result \<Rightarrow> echo_cb srv_cb conn_loop res" where
  "echo_round answer =
     (let user = echo_user LittleEndian (\<lambda>_ _. []) answer;
          readv = (\<lambda>lens. if sum_list lens \<ge> 2 then IoBytes [104, 105] else IoErr 11)
      in loop_iteration (run_conn_cb user answer readv) (exec_conn_functor user answer) (WaitEvents [(POLLIN, 7)], 9) echo_open)"

theorem echo_reply_witness:
  "(\<exists>l' cn'. echo_round (WriteErr 11) = Inr l' \<and> echo_ready 3 cn' l' \<and> stream 3 l' = [104, 105])
    \<and> echo_round (WriteOk 2) = Inl OutOfBounds"
proof -
  let ?readv = "\<lambda>lens. if sum_list lens \<ge> 2 then IoBytes [104, 105] else IoErr 11"
  have cn: "length (buf_data (inputBuffer echo_conn)) + extrabuf_size \<le> max_size" "content (outputBuffer echo_conn) = []"
    "writerIndex (outputBuffer echo_conn) + length (content (inputBuffer echo_conn) @ [104, 105]) \<le> max_size"
    "content (inputBuffer echo_conn) = []" "stream 3 echo_open = []" "conn_channel echo_conn = 7"
    by (simp_all add: echo_open_def echo_conn_def new_conn_def content_def extrabuf_size_def max_size_def stream_def idle_loop_def
        event_loop.extend_def loop_members_def)
  have fits: "readv_fits ?readv" by (simp add: readv_fits_def)
  have "?readv (readFd_iov (writableBytes (inputBuffer echo_conn))) = IoBytes [104, 105]"
    by (simp add: readFd_iov_def extrabuf_size_def)
  note e = echo_reply [OF echo_open_ready fits cn(1) this _ cn(3), of LittleEndian "\<lambda>_ _. []" _ 9, unfolded Let_def cn(6)]
  show ?thesis using e [of "WriteErr 11"] e [of "WriteOk 2"] cn(2,4,5)
    by (auto simp: echo_round_def Let_def fault_def written_def EPIPE_def ECONNRESET_def)
qed

end
