(* ===== verification/Threads.thy ===== *)
theory Threads
  imports Muduo_Prelude
begin

text \<open>
  \<open>src/mutex.h\<close>, \<open>src/Condition\<close>, \<open>src/countDownLatch\<close>, \<open>src/thread\<close> and \<open>src/CurrentThread\<close>. A mutex
  is the state of its \<open>pthread_mutex_t\<close> and the member \<open>holder_\<close>; a condition variable is the set of
  threads blocked in it. Classes that guard their members with one mutex run as a monitor: threads
  lock, execute the section under the lock, and leave it or wait. The step relation \<open>mon_step\<close>
  interleaves the threads in every possible way, spurious wakeups included.
\<close>

section \<open>\<open>CurrentThread\<close>\<close>

text \<open>
  The thread-local cache of the thread id: \<open>0\<close> is not cached. \<open>gettid\<close> is what the system call
  returns in this thread.
\<close>

record tid_cache =
  cachedTid :: tid
  tidString :: string
  tidStringLength :: nat

definition tid_cache_init :: tid_cache where
  "tid_cache_init = \<lparr>cachedTid = 0, tidString = [], tidStringLength = 6\<rparr>"

text \<open>\<open>snprintf(t_tidString, 32, "%5d ", tid)\<close>: at least five characters, right-aligned, and a blank.\<close>

definition tid_text :: "tid \<Rightarrow> string" where
  "tid_text t = replicate (5 - length (show_nat t)) CHR '' '' @ show_nat t @ '' ''"

definition cacheTid :: "tid \<Rightarrow> tid_cache \<Rightarrow> tid_cache" where
  "cacheTid gettid c =
     (if cachedTid c = 0
      then c\<lparr>cachedTid := gettid, tidString := take 31 (tid_text gettid), tidStringLength := length (tid_text gettid)\<rparr>
      else c)"

definition CurrentThread_tid :: "tid \<Rightarrow> tid_cache \<Rightarrow> tid \<times> tid_cache" where
  "CurrentThread_tid gettid c = (let c1 = (if cachedTid c = 0 then cacheTid gettid c else c) in (cachedTid c1, c1))"

section \<open>\<open>MutexLock\<close> and \<open>Condition\<close>\<close>

record mutex =
  mtx_owner :: "tid option"
  mtx_holder :: tid

definition MutexLock_ctor :: mutex where
  "MutexLock_ctor = \<lparr>mtx_owner = None, mtx_holder = 0\<rparr>"

definition assignHolder :: "tid \<Rightarrow> mutex \<Rightarrow> mutex" where
  "assignHolder self m = m\<lparr>mtx_holder := self\<rparr>"

definition unassignHolder :: "mutex \<Rightarrow> mutex" where
  "unassignHolder m = m\<lparr>mtx_holder := 0\<rparr>"

definition isLockedByThisThread :: "tid \<Rightarrow> mutex \<Rightarrow> bool" where
  "isLockedByThisThread self m \<longleftrightarrow> mtx_holder m = self"

definition assertLocked :: "tid \<Rightarrow> mutex \<Rightarrow> unit res" where
  "assertLocked self m = cassert (isLockedByThisThread self m) (Inr ())"

text \<open>\<open>None\<close> is a call that blocks. \<open>pthread_mutex_destroy\<close> of a locked mutex fails, which \<open>MCHECK\<close> asserts.\<close>

definition MutexLock_lock :: "tid \<Rightarrow> mutex \<Rightarrow> mutex option" where
  "MutexLock_lock self m =
     (if mtx_owner m = None then Some (assignHolder self (m\<lparr>mtx_owner := Some self\<rparr>)) else None)"

definition MutexLock_unlock :: "mutex \<Rightarrow> mutex" where
  "MutexLock_unlock m = (unassignHolder m)\<lparr>mtx_owner := None\<rparr>"

definition MutexLock_dtor :: "mutex \<Rightarrow> unit res" where
  "MutexLock_dtor m = cassert (mtx_holder m = 0) (cassert (mtx_owner m = None) (Inr ()))"

text \<open>
  \<open>wait\<close> in two halves: \<open>UnassignGuard\<close> and the release of the mutex, atomic with blocking; then, when
  the thread is no longer blocked, locking again and the destructor of \<open>UnassignGuard\<close>.
\<close>

definition Condition_block :: "tid \<Rightarrow> 'c \<Rightarrow> mutex \<Rightarrow> ('c \<Rightarrow> tid set) \<Rightarrow> mutex \<times> ('c \<Rightarrow> tid set)" where
  "Condition_block self c m w = ((unassignHolder m)\<lparr>mtx_owner := None\<rparr>, w(c := insert self (w c)))"

definition Condition_resume :: "tid \<Rightarrow> 'c \<Rightarrow> mutex \<Rightarrow> ('c \<Rightarrow> tid set) \<Rightarrow> mutex option" where
  "Condition_resume self c m w =
     (if self \<notin> w c \<and> mtx_owner m = None then Some (assignHolder self (m\<lparr>mtx_owner := Some self\<rparr>)) else None)"

text \<open>\<open>notify\<close> unblocks one of the blocked threads, if there is one; \<open>woken\<close> is the kernel's choice.\<close>

definition Condition_notify :: "'c \<Rightarrow> tid \<Rightarrow> ('c \<Rightarrow> tid set) \<Rightarrow> ('c \<Rightarrow> tid set)" where
  "Condition_notify c woken w = w(c := w c - {woken})"

definition Condition_notifyAll :: "'c \<Rightarrow> ('c \<Rightarrow> tid set) \<Rightarrow> ('c \<Rightarrow> tid set)" where
  "Condition_notifyAll c w = w(c := {})"

text \<open>
  \<open>waitForSeconds(s)\<close> passes \<open>s\<close> seconds after the epoch as the absolute deadline: whether it has
  passed at the time \<open>now\<close> (in seconds).
\<close>

definition waitForSeconds_expired :: "int \<Rightarrow> int \<Rightarrow> bool" where
  "waitForSeconds_expired s now \<longleftrightarrow> s < now"

section \<open>Sections under one mutex\<close>

datatype ('op, 'c) mon_pc = Outside | Locking 'op | Inside 'op | Sleeping 'c 'op

datatype 'c notification = NotifyOne 'c | NotifyAll 'c

text \<open>
  How a section ends: it leaves, unlocking the mutex after these notifications, or waits in a condition and
  goes on with the given operation when it runs again.
\<close>

datatype ('op, 'c, 'd) section_end = Leaves 'd "'c notification list" | Waits 'c 'd 'op

record ('op, 'c, 'd) monitor =
  mon_mutex :: mutex
  mon_data :: 'd
  mon_waiting :: "'c \<Rightarrow> tid set"
  mon_pc :: "tid \<Rightarrow> ('op, 'c) mon_pc"

type_synonym ('op, 'c, 'd) body = "'op \<Rightarrow> tid \<Rightarrow> mutex \<Rightarrow> 'd \<Rightarrow> ('op, 'c, 'd) section_end res"

definition monitor_init :: "'d \<Rightarrow> ('op, 'c, 'd) monitor" where
  "monitor_init d = \<lparr>mon_mutex = MutexLock_ctor, mon_data = d, mon_waiting = (\<lambda>_. {}), mon_pc = (\<lambda>_. Outside)\<rparr>"

inductive notified :: "'c notification list \<Rightarrow> ('c \<Rightarrow> tid set) \<Rightarrow> ('c \<Rightarrow> tid set) \<Rightarrow> bool" where
  none: "notified [] w w"
| nobody: "w c = {} \<Longrightarrow> notified ns w w' \<Longrightarrow> notified (NotifyOne c # ns) w w'"
| one: "t \<in> w c \<Longrightarrow> notified ns (Condition_notify c t w) w' \<Longrightarrow> notified (NotifyOne c # ns) w w'"
| every: "notified ns (Condition_notifyAll c w) w' \<Longrightarrow> notified (NotifyAll c # ns) w w'"

inductive mon_step :: "('op, 'c, 'd) body \<Rightarrow> ('op, 'c, 'd) monitor \<Rightarrow> ('op, 'c, 'd) monitor \<Rightarrow> bool" for body where
  call: "mon_pc s t = Outside \<Longrightarrow> t \<noteq> 0 \<Longrightarrow> mon_step body s (s\<lparr>mon_pc := (mon_pc s)(t := Locking op)\<rparr>)"
| lock: "mon_pc s t = Locking op \<Longrightarrow> MutexLock_lock t (mon_mutex s) = Some m \<Longrightarrow>
    mon_step body s (s\<lparr>mon_mutex := m, mon_pc := (mon_pc s)(t := Inside op)\<rparr>)"
| leave: "mon_pc s t = Inside op \<Longrightarrow> body op t (mon_mutex s) (mon_data s) = Inr (Leaves d ns) \<Longrightarrow>
    notified ns (mon_waiting s) w \<Longrightarrow>
    mon_step body s (s\<lparr>mon_mutex := MutexLock_unlock (mon_mutex s), mon_data := d, mon_waiting := w,
      mon_pc := (mon_pc s)(t := Outside)\<rparr>)"
| wait: "mon_pc s t = Inside op \<Longrightarrow> body op t (mon_mutex s) (mon_data s) = Inr (Waits c d op') \<Longrightarrow>
    Condition_block t c (mon_mutex s) (mon_waiting s) = (m, w) \<Longrightarrow>
    mon_step body s (s\<lparr>mon_mutex := m, mon_data := d, mon_waiting := w, mon_pc := (mon_pc s)(t := Sleeping c op')\<rparr>)"
| resume: "mon_pc s t = Sleeping c op \<Longrightarrow> Condition_resume t c (mon_mutex s) (mon_waiting s) = Some m \<Longrightarrow>
    mon_step body s (s\<lparr>mon_mutex := m, mon_pc := (mon_pc s)(t := Inside op)\<rparr>)"
| spurious: "t \<in> mon_waiting s c \<Longrightarrow>
    mon_step body s (s\<lparr>mon_waiting := (mon_waiting s)(c := mon_waiting s c - {t})\<rparr>)"

text \<open>The mutex excludes: the owner is the one thread inside, and \<open>holder_\<close> names it.\<close>

definition mon_ok :: "('op, 'c, 'd) monitor \<Rightarrow> bool" where
  "mon_ok s \<longleftrightarrow> (\<forall>t. (\<exists>op. mon_pc s t = Inside op) \<longleftrightarrow> mtx_owner (mon_mutex s) = Some t)
     \<and> mtx_holder (mon_mutex s) = case_option 0 (\<lambda>t. t) (mtx_owner (mon_mutex s))
     \<and> (\<forall>t. mon_pc s t \<noteq> Outside \<longrightarrow> t \<noteq> 0)
     \<and> (\<forall>c. \<forall>t \<in> mon_waiting s c. \<exists>op. mon_pc s t = Sleeping c op)"

lemmas mutex_defs = MutexLock_ctor_def assignHolder_def unassignHolder_def MutexLock_lock_def
  MutexLock_unlock_def Condition_block_def Condition_resume_def Condition_notify_def Condition_notifyAll_def

lemma notified_subset: "notified ns w w' \<Longrightarrow> w' c \<subseteq> w c"
  by (induction rule: notified.induct) (auto simp: mutex_defs split: if_splits)

lemma notified_other:
  "notified ns w w' \<Longrightarrow> NotifyOne c \<notin> set ns \<Longrightarrow> NotifyAll c \<notin> set ns \<Longrightarrow> w' c = w c"
  by (induction rule: notified.induct) (auto simp: mutex_defs)

lemma notified_total: "\<exists>w'. notified ns w w'"
proof (induction ns arbitrary: w)
  case Nil
  show ?case by (blast intro: notified.none)
next
  case (Cons n ns)
  show ?case
  proof (cases n)
    case n: (NotifyOne c)
    show ?thesis
    proof (cases "w c = {}")
      case True
      with Cons [of w] show ?thesis unfolding n by (blast intro: notified.nobody)
    next
      case False
      then obtain t where "t \<in> w c" by blast
      with Cons [of "Condition_notify c t w"] show ?thesis unfolding n by (blast intro: notified.one)
    qed
  next
    case (NotifyAll c)
    then show ?thesis using Cons [of "Condition_notifyAll c w"] by (blast intro: notified.every)
  qed
qed

inductive_simps notified_Nil [simp]: "notified [] w w'"
inductive_simps notified_all [simp]: "notified (NotifyAll c # ns) w w'"
inductive_cases notified_oneE: "notified (NotifyOne c # ns) w w'"

lemma mon_okD:
  assumes "mon_ok s"
  shows "mon_pc s t = Inside op \<Longrightarrow> mtx_owner (mon_mutex s) = Some t"
    "mtx_owner (mon_mutex s) = Some t \<Longrightarrow> \<exists>op. mon_pc s t = Inside op"
    "mon_pc s t = Inside op \<Longrightarrow> mtx_holder (mon_mutex s) = t"
    "mon_pc s t \<noteq> Outside \<Longrightarrow> t \<noteq> 0"
    "t \<in> mon_waiting s c \<Longrightarrow> \<exists>op. mon_pc s t = Sleeping c op"
proof -
  show own: "mtx_owner (mon_mutex s) = Some t" if "mon_pc s t = Inside op"
    using assms that unfolding mon_ok_def by blast
  show "\<exists>op. mon_pc s t = Inside op" if "mtx_owner (mon_mutex s) = Some t"
    using assms that unfolding mon_ok_def by blast
  show "mtx_holder (mon_mutex s) = t" if "mon_pc s t = Inside op"
    using assms own [OF that] by (simp add: mon_ok_def)
qed (use assms in \<open>unfold mon_ok_def, blast+\<close>)

lemma mon_okI:
  assumes "\<And>t op. mon_pc s t = Inside op \<Longrightarrow> mtx_owner (mon_mutex s) = Some t"
    and "\<And>t. mtx_owner (mon_mutex s) = Some t \<Longrightarrow> \<exists>op. mon_pc s t = Inside op"
    and "mtx_holder (mon_mutex s) = case_option 0 (\<lambda>t. t) (mtx_owner (mon_mutex s))"
    and "\<And>t. mon_pc s t \<noteq> Outside \<Longrightarrow> t \<noteq> 0"
    and "\<And>t c. t \<in> mon_waiting s c \<Longrightarrow> \<exists>op. mon_pc s t = Sleeping c op"
  shows "mon_ok s"
  using assms unfolding mon_ok_def by blast

lemma mon_ok_init: "mon_ok (monitor_init d)"
  by (simp add: mon_ok_def monitor_init_def mutex_defs)

lemma mon_ok_outside:
  assumes ok: "mon_ok s" and t: "mon_pc s t = Inside op"
    and w: "\<And>u c. u \<in> w c \<Longrightarrow> u \<in> mon_waiting s c \<or> (u = t \<and> pc = Sleeping c op')"
    and pc: "pc = Outside \<or> (\<exists>c. pc = Sleeping c op')"
  shows "mon_ok (s\<lparr>mon_mutex := MutexLock_unlock (mon_mutex s), mon_data := d, mon_waiting := w,
    mon_pc := (mon_pc s)(t := pc)\<rparr>)" (is "mon_ok ?s")
proof (rule mon_okI)
  fix u c op''
  note own = mon_okD(1) [OF ok]
  show "mtx_owner (mon_mutex ?s) = Some u" if "mon_pc ?s u = Inside op''"
    using that pc own [of u op''] own [OF t] by (auto split: if_splits)
  show "\<exists>op. mon_pc ?s u = Sleeping c op" if "u \<in> mon_waiting ?s c"
    using w [of u c] that mon_okD(5) [OF ok, of u c] t by auto
  show "u \<noteq> 0" if "mon_pc ?s u \<noteq> Outside"
    using that mon_okD(4) [OF ok, of u] mon_okD(4) [OF ok, of t] t by (simp split: if_splits)
qed (simp_all add: mutex_defs)

lemma mon_ok_inside:
  assumes ok: "mon_ok s" and free: "mtx_owner (mon_mutex s) = None" and t: "\<And>c. t \<notin> mon_waiting s c" "t \<noteq> 0"
    and m: "m = assignHolder t ((mon_mutex s)\<lparr>mtx_owner := Some t\<rparr>)"
  shows "mon_ok (s\<lparr>mon_mutex := m, mon_pc := (mon_pc s)(t := Inside op)\<rparr>)" (is "mon_ok ?s")
proof (rule mon_okI)
  fix u c op''
  show "mtx_owner (mon_mutex ?s) = Some u" if "mon_pc ?s u = Inside op''"
    using that mon_okD(1) [OF ok, of u op''] free by (simp add: m mutex_defs split: if_splits)
  show "\<exists>op. mon_pc ?s u = Sleeping c op" if "u \<in> mon_waiting ?s c"
    using that mon_okD(5) [OF ok, of u c] t(1) [of c] by auto
  show "u \<noteq> 0" if "mon_pc ?s u \<noteq> Outside"
    using that mon_okD(4) [OF ok, of u] t(2) by (simp split: if_splits)
qed (simp_all add: m mutex_defs)

lemma mon_ok_step:
  assumes ok: "mon_ok s" and step: "mon_step body s s'"
  shows "mon_ok s'"
  using step
proof cases
  case (call t op)
  show ?thesis unfolding call(1)
  proof (rule mon_okI)
    fix u c op'
    let ?s = "s\<lparr>mon_pc := (mon_pc s)(t := Locking op)\<rparr>"
    show "mtx_owner (mon_mutex ?s) = Some u" if "mon_pc ?s u = Inside op'"
      using that mon_okD(1) [OF ok, of u op'] by (simp split: if_splits)
    show "\<exists>op. mon_pc ?s u = Inside op" if "mtx_owner (mon_mutex ?s) = Some u"
      using that mon_okD(2) [OF ok, of u] call(2) by auto
    show "\<exists>op. mon_pc ?s u = Sleeping c op" if "u \<in> mon_waiting ?s c"
      using that mon_okD(5) [OF ok, of u c] call(2) by auto
    show "u \<noteq> 0" if "mon_pc ?s u \<noteq> Outside"
      using that mon_okD(4) [OF ok, of u] call(3) by (simp split: if_splits)
  qed (use ok in \<open>simp add: mon_ok_def\<close>)
next
  case (lock t op m)
  then have "mtx_owner (mon_mutex s) = None" "m = assignHolder t ((mon_mutex s)\<lparr>mtx_owner := Some t\<rparr>)"
    by (simp_all add: MutexLock_lock_def split: if_splits)
  moreover have "t \<notin> mon_waiting s c" for c using mon_okD(5) [OF ok, of t c] lock(2) by auto
  moreover have "t \<noteq> 0" using mon_okD(4) [OF ok, of t] lock(2) by simp
  ultimately show ?thesis unfolding lock(1) by (intro mon_ok_inside [OF ok])
next
  case (leave t op d ns w)
  show ?thesis unfolding leave(1)
    by (rule mon_ok_outside [OF ok leave(2)]) (use notified_subset [OF leave(4)] in blast)+
next
  case (wait t op c d op' m w)
  then have m: "m = MutexLock_unlock (mon_mutex s)" and w: "w = (mon_waiting s)(c := insert t (mon_waiting s c))"
    by (simp_all add: mutex_defs)
  show ?thesis unfolding wait(1) m
    by (rule mon_ok_outside [OF ok wait(2), of w "Sleeping c op'" op' d]) (auto simp: w split: if_splits)
next
  case (resume t c op m)
  then have "mtx_owner (mon_mutex s) = None" "m = assignHolder t ((mon_mutex s)\<lparr>mtx_owner := Some t\<rparr>)" "t \<notin> mon_waiting s c"
    by (simp_all add: Condition_resume_def split: if_splits)
  moreover from this(3) have "t \<notin> mon_waiting s c'" for c'
    using mon_okD(5) [OF ok, of t c'] resume(2) by (cases "c' = c") auto
  moreover have "t \<noteq> 0" using mon_okD(4) [OF ok, of t] resume(2) by simp
  ultimately show ?thesis unfolding resume(1) by (intro mon_ok_inside [OF ok])
next
  case (spurious t c)
  then show ?thesis using ok by (auto simp: mon_ok_def)
qed

interpretation monitors: transition_system "\<lambda>s. \<exists>d. s = monitor_init d" "mon_step body" mon_ok for body
  by unfold_locales (auto simp: mon_ok_init intro: mon_ok_step)

text \<open>
  What a class guarded by one mutex promises about its members: every section, entered by the
  holder of the mutex, keeps the invariant of the members, whether it leaves or waits.
\<close>

locale monitor_client =
  fixes body :: "('op, 'c, 'd) body" and inv :: "'d \<Rightarrow> bool"
  assumes leaves: "inv d \<Longrightarrow> isLockedByThisThread t m \<Longrightarrow> body op t m d = Inr (Leaves d' ns) \<Longrightarrow> inv d'"
    and waits: "inv d \<Longrightarrow> isLockedByThisThread t m \<Longrightarrow> body op t m d = Inr (Waits c d' op') \<Longrightarrow> inv d'"
begin

lemma holder_inside: "mon_ok s \<Longrightarrow> mon_pc s t = Inside op \<Longrightarrow> isLockedByThisThread t (mon_mutex s)"
  by (simp add: mon_okD(3) isLockedByThisThread_def)

lemma data_step:
  assumes "mon_ok s" and "inv (mon_data s)" and "mon_step body s s'"
  shows "inv (mon_data s')"
  using assms(3)
proof cases
  case (leave t op d ns w)
  with leaves [OF assms(2) holder_inside [OF assms(1) leave(2)] leave(3)] show ?thesis by simp
next
  case (wait t op c d op' m w)
  with waits [OF assms(2) holder_inside [OF assms(1) wait(2)] wait(3)] show ?thesis by simp
qed (use assms(2) in simp_all)

lemma data_reachable:
  assumes "inv d" and "(mon_step body)\<^sup>*\<^sup>* (monitor_init d) s"
  shows "inv (mon_data s)"
  using assms(2)
proof (induction rule: rtranclp_induct)
  case base
  then show ?case using assms(1) by (simp add: monitor_init_def)
next
  case (step s s')
  have "mon_ok s" using monitors.reachable_inv [of "monitor_init d" body s] step.hyps(1) by blast
  with step show ?case by (blast intro: data_step)
qed

end

text \<open>
  A monitor whose sections are each one operation of an abstract object: a section that leaves does
  one abstract step or none, and one that waits does none. The whole monitor, with its mutex, its
  sleepers and their wakeups, then refines the object.
\<close>

locale monitor_refinement = monitor_client body inv for body :: "('op, 'c, 'd) body" and inv +
  fixes spec_step :: "'a \<Rightarrow> 'a \<Rightarrow> bool" and view :: "'d \<Rightarrow> 'a"
  assumes leaves_spec: "inv d \<Longrightarrow> isLockedByThisThread t m \<Longrightarrow> body op t m d = Inr (Leaves d' ns) \<Longrightarrow>
      spec_step (view d) (view d') \<or> view d' = view d"
    and waits_spec: "inv d \<Longrightarrow> isLockedByThisThread t m \<Longrightarrow> body op t m d = Inr (Waits c d' op') \<Longrightarrow> view d' = view d"
begin

lemma section_refines:
  assumes "mon_ok s" and "inv (mon_data s)" and "mon_step body s s'"
  shows "spec_step (view (mon_data s)) (view (mon_data s')) \<or> view (mon_data s') = view (mon_data s)"
  using assms(3)
proof cases
  case (leave t op d ns w)
  with leaves_spec [OF assms(2) holder_inside [OF assms(1) leave(2)] leave(3)] show ?thesis by simp
next
  case (wait t op c d op' m w)
  with waits_spec [OF assms(2) holder_inside [OF assms(1) wait(2)] wait(3)] show ?thesis by simp
qed simp_all

end

sublocale monitor_refinement \<subseteq> monitor: refinement "\<lambda>s. \<exists>d. inv d \<and> s = monitor_init d" "mon_step body"
    "\<lambda>s. mon_ok s \<and> inv (mon_data s)" spec_step "\<lambda>s. view (mon_data s)"
proof unfold_locales
  fix s s' :: "('op, 'c, 'd) monitor"
  show "mon_ok s \<and> inv (mon_data s)" if "\<exists>d. inv d \<and> s = monitor_init d"
    using that mon_ok_init by (auto simp: monitor_init_def)
  show "mon_ok s' \<and> inv (mon_data s')" if "mon_ok s \<and> inv (mon_data s)" "mon_step body s s'"
    using that by (blast intro: mon_ok_step data_step)
  show "spec_step (view (mon_data s)) (view (mon_data s')) \<or> view (mon_data s') = view (mon_data s)"
    if "mon_ok s \<and> inv (mon_data s)" "mon_step body s s'"
    using that by (blast dest: section_refines)
qed

text \<open>Whoever is inside can be brought to leave the mutex, if its section does not fail.\<close>

lemma mutex_freed:
  assumes ok: "mon_ok s" and total: "\<And>op t. mon_pc s t = Inside op \<Longrightarrow> \<exists>r. body op t (mon_mutex s) (mon_data s) = Inr r"
  shows "\<exists>s'. (mon_step body)\<^sup>=\<^sup>= s s' \<and> mtx_owner (mon_mutex s') = None
    \<and> (\<forall>t. mon_pc s t = Outside \<or> (\<exists>op. mon_pc s t = Inside op) \<or> mon_pc s' t = mon_pc s t)"
proof (cases "mtx_owner (mon_mutex s)")
  case None
  then show ?thesis by blast
next
  case (Some t)
  then obtain op where op: "mon_pc s t = Inside op" using mon_okD(2) [OF ok] by blast
  from total [OF this] obtain r where r: "body op t (mon_mutex s) (mon_data s) = Inr r" by blast
  show ?thesis
  proof (cases r)
    case (Leaves d ns)
    obtain w where w: "notified ns (mon_waiting s) w" using notified_total by blast
    let ?s = "s\<lparr>mon_mutex := MutexLock_unlock (mon_mutex s), mon_data := d, mon_waiting := w,
      mon_pc := (mon_pc s)(t := Outside)\<rparr>"
    have "mon_step body s ?s" using mon_step.leave [OF op _ w] r Leaves by simp
    moreover have "mtx_owner (mon_mutex ?s) = None" by (simp add: mutex_defs)
    ultimately show ?thesis using op by (intro exI [of _ ?s]) auto
  next
    case (Waits c d op')
    obtain m w where mw: "Condition_block t c (mon_mutex s) (mon_waiting s) = (m, w)" by (cases "Condition_block t c (mon_mutex s) (mon_waiting s)")
    let ?s = "s\<lparr>mon_mutex := m, mon_data := d, mon_waiting := w, mon_pc := (mon_pc s)(t := Sleeping c op')\<rparr>"
    have "mon_step body s ?s" using mon_step.wait [OF op _ mw] r Waits by simp
    moreover have "mtx_owner (mon_mutex ?s) = None" using mw by (auto simp: mutex_defs)
    ultimately show ?thesis using op by (intro exI [of _ ?s]) auto
  qed
qed

section \<open>No wakeup is lost\<close>

text \<open>The threads with such an operation that run inside or were unblocked from the condition.\<close>

definition awake :: "'c \<Rightarrow> ('op \<Rightarrow> bool) \<Rightarrow> ('op, 'c, 'd) monitor \<Rightarrow> tid set" where
  "awake c P s = {t. \<exists>op. P op \<and> (mon_pc s t = Inside op \<or> mon_pc s t = Sleeping c op \<and> t \<notin> mon_waiting s c)}"

definition active_finite :: "('op, 'c, 'd) monitor \<Rightarrow> bool" where
  "active_finite s \<longleftrightarrow> finite {t. mon_pc s t \<noteq> Outside}"

lemma finite_awake: "active_finite s \<Longrightarrow> finite (awake c P s)"
  unfolding active_finite_def by (rule finite_subset [rotated]) (auto simp: awake_def)

lemma active_finite_step: "active_finite s \<Longrightarrow> mon_step body s s' \<Longrightarrow> active_finite s'"
  unfolding active_finite_def
  by (erule mon_step.cases) (rule finite_subset [where B = "{t. mon_pc s t \<noteq> Outside} \<union> {t}" for t], auto split: if_splits)+

text \<open>How the set of awake threads moves when thread \<open>t\<close> leaves the monitor, or waits.\<close>

lemma awake_leave:
  assumes t: "mon_pc s t = Inside op"
    and s': "mon_pc s' = (mon_pc s)(t := Outside)" "\<And>c. mon_waiting s' c \<subseteq> mon_waiting s c"
  shows "awake c P s - {t} \<subseteq> awake c P s'" and "\<not> P op \<Longrightarrow> awake c P s \<subseteq> awake c P s'"
  using assms by (auto simp: awake_def)

lemma awake_wait:
  assumes t: "mon_pc s t = Inside op"
    and s': "mon_pc s' = (mon_pc s)(t := Sleeping c' op')" "mon_waiting s' = (mon_waiting s)(c' := insert t (mon_waiting s c'))"
  shows "\<not> P op \<Longrightarrow> awake c P s \<subseteq> awake c P s'"
  using assms by (auto simp: awake_def)

lemma awake_other:
  assumes "mon_step body s s'" and "\<And>t op. mon_pc s t = Inside op \<Longrightarrow> mon_pc s' t = Inside op"
    and "mon_ok s"
  shows "awake c P s \<subseteq> awake c P s'"
  using assms(1)
proof cases
  case (leave t op d ns w)
  with assms(2) [OF leave(2)] show ?thesis by simp
next
  case (wait t op c d op' m w)
  with assms(2) [OF wait(2)] show ?thesis by simp
next
  case (resume t c op m)
  then show ?thesis by (auto simp: awake_def)
qed (auto simp: awake_def split: if_splits)

lemma card_awake_leave:
  assumes fin: "active_finite s'" and t: "mon_pc s t = Inside op"
    and s': "mon_pc s' = (mon_pc s)(t := Outside)" "\<And>c. mon_waiting s' c \<subseteq> mon_waiting s c"
  shows "card (awake c P s) - 1 \<le> card (awake c P s')"
    and "\<not> P op \<Longrightarrow> card (awake c P s) \<le> card (awake c P s')"
    and "\<not> P op \<Longrightarrow> u \<in> mon_waiting s c \<Longrightarrow> mon_waiting s' c = mon_waiting s c - {u} \<Longrightarrow>
      mon_pc s u = Sleeping c op' \<Longrightarrow> P op' \<Longrightarrow> active_finite s \<Longrightarrow> Suc (card (awake c P s)) \<le> card (awake c P s')"
proof -
  note sub = awake_leave [OF t s', where c = c and P = P] and fin' = finite_awake [OF fin, of c P]
  have "card (awake c P s) - 1 \<le> card (awake c P s - {t})"
    by (metis card_Diff_singleton_if diff_le_self order_refl)
  with card_mono [OF fin' sub(1)] show "card (awake c P s) - 1 \<le> card (awake c P s')" by simp
  show "card (awake c P s) \<le> card (awake c P s')" if "\<not> P op"
    using card_mono [OF fin' sub(2) [OF that]] .
  show "Suc (card (awake c P s)) \<le> card (awake c P s')" if "\<not> P op" "u \<in> mon_waiting s c"
    "mon_waiting s' c = mon_waiting s c - {u}" "mon_pc s u = Sleeping c op'" "P op'" "active_finite s"
  proof -
    have "u \<noteq> t" using that(4) t by auto
    then have "u \<in> awake c P s'" using that(3-5) by (simp add: awake_def s'(1))
    moreover have "u \<notin> awake c P s" using that(2,4) by (simp add: awake_def)
    ultimately have "insert u (awake c P s) \<subseteq> awake c P s'" using sub(2) [OF that(1)] by blast
    from card_mono [OF fin' this] finite_awake [OF that(6), of c P] \<open>u \<notin> awake c P s\<close> show ?thesis by simp
  qed
qed

lemma notified_every: "notified ns w w' \<Longrightarrow> NotifyAll c \<in> set ns \<Longrightarrow> w' c = {}"
proof (induction rule: notified.induct)
  case (every ns c' w w')
  show ?case
  proof (cases "NotifyAll c \<in> set ns")
    case True
    with every show ?thesis by simp
  next
    case False
    with every.prems have "c' = c" by simp
    with notified_subset [OF every.hyps, of c] show ?thesis by (simp add: mutex_defs)
  qed
qed auto

lemma notified_one:
  assumes "notified [NotifyOne c] w w'" and "w c \<noteq> {}"
  shows "\<exists>u \<in> w c. w' c = w c - {u}"
  using assms by (auto elim!: notified_oneE simp: Condition_notify_def)

text \<open>
  The contract of a condition variable that is signalled for one thread at a time. \<open>need\<close> is how many
  threads with an operation in \<open>P\<close> could proceed, \<open>live\<close> says that they should still block. A thread blocks in \<open>c\<close>
  only when nothing is needed; a section that uses up something lowers the need; a section that
  raises it does so by one and notifies one thread; every other section leaves it alone, or wakes
  all. Then a thread stays blocked only while enough others are awake to meet the need.
\<close>

locale signalling =
  fixes body :: "('op, 'c, 'd) body" and c :: 'c and P :: "'op \<Rightarrow> bool" and need :: "'d \<Rightarrow> nat" and live :: "'d \<Rightarrow> bool"
  assumes blocks: "body op t m d = Inr (Waits c d' op') \<Longrightarrow> P op' \<and> need d' = 0 \<and> live d'"
    and blocks_elsewhere: "body op t m d = Inr (Waits c' d' op') \<Longrightarrow> c' \<noteq> c \<Longrightarrow>
      \<not> P op \<and> need d' \<le> need d \<and> (live d \<longrightarrow> live d')"
    and signals: "body op t m d = Inr (Leaves d' ns) \<Longrightarrow> NotifyAll c \<in> set ns
      \<or> (live d \<longrightarrow> live d')
        \<and> (ns = [NotifyOne c] \<and> \<not> P op \<and> need d' \<le> Suc (need d)
           \<or> NotifyOne c \<notin> set ns \<and> need d' \<le> (if P op then need d - 1 else need d))"
begin

definition signal_ok :: "('op, 'c, 'd) monitor \<Rightarrow> bool" where
  "signal_ok s \<longleftrightarrow> (\<forall>t op. mon_pc s t = Sleeping c op \<longrightarrow> P op)
     \<and> (mon_waiting s c \<noteq> {} \<longrightarrow> live (mon_data s) \<and> need (mon_data s) \<le> card (awake c P s))"

lemma signal_leave:
  assumes ok: "mon_ok s" "active_finite s" "active_finite s'" "signal_ok s" and t: "mon_pc s t = Inside op"
    and body: "body op t (mon_mutex s) (mon_data s) = Inr (Leaves (mon_data s') ns)"
    and ntf: "notified ns (mon_waiting s) (mon_waiting s')" and pc: "mon_pc s' = (mon_pc s)(t := Outside)"
  shows "mon_waiting s' c \<noteq> {} \<longrightarrow> live (mon_data s') \<and> need (mon_data s') \<le> card (awake c P s')"
proof
  assume ne': "mon_waiting s' c \<noteq> {}"
  note sub = notified_subset [OF ntf]
  note cards = card_awake_leave [OF ok(3) t pc sub, where c = c and P = P]
  have ne: "mon_waiting s c \<noteq> {}" using ne' sub [of c] by blast
  with ok(4) have live: "live (mon_data s)" and need: "need (mon_data s) \<le> card (awake c P s)"
    by (simp_all add: signal_ok_def)
  have noall: "NotifyAll c \<notin> set ns" using notified_every [OF ntf, of c] ne' by blast
  with signals [OF body] live have live': "live (mon_data s')" by blast
  from signals [OF body] noall consider
    (one) "ns = [NotifyOne c]" "\<not> P op" "need (mon_data s') \<le> Suc (need (mon_data s))"
    | (quiet) "NotifyOne c \<notin> set ns" "need (mon_data s') \<le> (if P op then need (mon_data s) - 1 else need (mon_data s))"
    by blast
  then have "need (mon_data s') \<le> card (awake c P s')"
  proof cases
    case one
    from notified_one [OF ntf [unfolded one(1)] ne] obtain u where
      u: "u \<in> mon_waiting s c" "mon_waiting s' c = mon_waiting s c - {u}" by blast
    from mon_okD(5) [OF ok(1) u(1)] obtain op' where op': "mon_pc s u = Sleeping c op'" by blast
    then have "P op'" using ok(4) by (simp add: signal_ok_def)
    from cards(3) [OF one(2) u op' this ok(2)] one(3) need show ?thesis by linarith
  next
    case quiet
    show ?thesis
    proof (cases "P op")
      case True
      with quiet(2) need cards(1) show ?thesis by simp
    next
      case False
      with quiet(2) need cards(2) [OF False] show ?thesis by simp
    qed
  qed
  with live' show "live (mon_data s') \<and> need (mon_data s') \<le> card (awake c P s')" ..
qed

lemma signal_step:
  assumes ok: "mon_ok s" "active_finite s" "signal_ok s" and step: "mon_step body s s'"
  shows "signal_ok s'"
proof -
  have fin': "active_finite s'" by (rule active_finite_step [OF ok(2) step])
  have keep: "signal_ok s'" if "awake c P s \<subseteq> awake c P s'" "need (mon_data s') \<le> need (mon_data s)"
    "live (mon_data s) \<longrightarrow> live (mon_data s')" "mon_waiting s' c \<subseteq> mon_waiting s c"
    "\<And>t op. mon_pc s' t = Sleeping c op \<Longrightarrow> mon_pc s t = Sleeping c op"
    using ok(3) that card_mono [OF finite_awake [OF fin'] that(1)] unfolding signal_ok_def
    by (metis le_trans subset_empty)
  from step show ?thesis
  proof cases
    case (leave t op d ns w)
    have "mon_waiting s' c \<noteq> {} \<longrightarrow> live (mon_data s') \<and> need (mon_data s') \<le> card (awake c P s')"
      by (rule signal_leave [OF ok(1,2) fin' ok(3) leave(2), where ns = ns]) (use leave in simp_all)
    moreover have "P op'" if "mon_pc s' u = Sleeping c op'" for u op'
      using ok(3) that leave(1) by (auto simp: signal_ok_def split: if_splits)
    ultimately show ?thesis by (simp add: signal_ok_def)
  next
    case (wait t op c' d op' m w)
    show ?thesis
    proof (cases "c' = c")
      case True
      with blocks [of op t "mon_mutex s" "mon_data s" d op'] wait(3) have "P op'" "need d = 0" "live d" by simp_all
      with ok(3) wait show ?thesis by (auto simp: signal_ok_def split: if_splits)
    next
      case False
      from blocks_elsewhere [OF wait(3) False] have r: "\<not> P op" "need d \<le> need (mon_data s)" "live (mon_data s) \<longrightarrow> live d"
        by simp_all
      show ?thesis
        by (rule keep, rule awake_wait [OF wait(2), of s' c' op'])
          (use wait r False in \<open>auto simp: mutex_defs split: if_splits\<close>)
    qed
  next
    case (call t op)
    show ?thesis by (rule keep, rule awake_other [OF step _ ok(1)]) (use call in \<open>auto split: if_splits\<close>)
  next
    case (lock t op m)
    show ?thesis by (rule keep, rule awake_other [OF step _ ok(1)]) (use lock in \<open>auto split: if_splits\<close>)
  next
    case (resume t c' op m)
    show ?thesis by (rule keep, rule awake_other [OF step _ ok(1)]) (use resume in \<open>auto split: if_splits\<close>)
  next
    case (spurious t c')
    show ?thesis by (rule keep, rule awake_other [OF step _ ok(1)]) (use spurious in \<open>auto split: if_splits\<close>)
  qed
qed

lemma signal_reachable:
  assumes "(mon_step body)\<^sup>*\<^sup>* (monitor_init d) s"
  shows "mon_ok s \<and> active_finite s \<and> signal_ok s"
  using assms
proof (induction rule: rtranclp_induct)
  case base
  then show ?case by (simp add: mon_ok_init) (simp add: monitor_init_def active_finite_def signal_ok_def)
next
  case (step s s')
  then show ?case by (blast intro: mon_ok_step active_finite_step signal_step)
qed

text \<open>Nobody is forgotten: while something is to be done, a blocked thread is not the only one.\<close>

lemma someone_awake:
  assumes "(mon_step body)\<^sup>*\<^sup>* (monitor_init d) s" and "t \<in> mon_waiting s c" and "need (mon_data s) > 0"
  shows "\<exists>u. u \<in> awake c P s"
proof -
  have "card (awake c P s) > 0" using signal_reachable [OF assms(1)] assms(2,3) by (auto simp: signal_ok_def)
  then show ?thesis by (metis card.empty ex_in_conv less_irrefl)
qed

end

section \<open>\<open>CountDownLatch\<close>\<close>

text \<open>
  The members of a latch, with histories: how often it was counted down and whose \<open>wait\<close>
  returned. The decrement of an \<open>int\<close> overflows at its minimum.
\<close>

datatype latch_op = LatchWait | LatchCountDown | LatchGetCount
datatype latch_cond = LatchCond

record latch =
  latch_count :: int
  downs :: nat
  released :: "tid list"

definition CountDownLatch_ctor :: "int \<Rightarrow> latch" where
  "CountDownLatch_ctor n = \<lparr>latch_count = n, downs = 0, released = []\<rparr>"

definition latch_wait :: "tid \<Rightarrow> latch \<Rightarrow> (latch_op, latch_cond, latch) section_end" where
  "latch_wait self d =
     (if latch_count d > 0 then Waits LatchCond d LatchWait else Leaves (d\<lparr>released := released d @ [self]\<rparr>) [])"

definition latch_countDown :: "latch \<Rightarrow> (latch_op, latch_cond, latch) section_end res" where
  "latch_countDown d =
     (if latch_count d = - (2 ^ 31) then Inl Overflow
      else let d1 = d\<lparr>latch_count := latch_count d - 1, downs := Suc (downs d)\<rparr>
           in Inr (Leaves d1 (if latch_count d1 = 0 then [NotifyAll LatchCond] else [])))"

definition latch_getCount :: "latch \<Rightarrow> int" where
  "latch_getCount d = latch_count d"

fun latch_body :: "(latch_op, latch_cond, latch) body" where
  "latch_body LatchWait self m d = Inr (latch_wait self d)"
| "latch_body LatchCountDown self m d = latch_countDown d"
| "latch_body LatchGetCount self m d = Inr (Leaves d [])"

lemmas latch_defs = latch_wait_def latch_countDown_def Let_def

text \<open>Counting and releasing.\<close>

definition latch_inv :: "int \<Rightarrow> latch \<Rightarrow> bool" where
  "latch_inv n d \<longleftrightarrow> latch_count d = n - int (downs d) \<and> (released d \<noteq> [] \<longrightarrow> latch_count d \<le> 0)"

interpretation latch_data: monitor_client latch_body "latch_inv n" for n
proof unfold_locales
  fix d d' :: latch and t m op ns c op'
  assume inv: "latch_inv n d"
  show "latch_inv n d'" if "latch_body op t m d = Inr (Leaves d' ns)"
    using that inv by (cases op) (auto simp: latch_defs latch_inv_def split: if_splits)
  show "latch_inv n d'" if "latch_body op t m d = Inr (Waits c d' op')"
    using that inv by (cases op) (auto simp: latch_defs latch_inv_def split: if_splits)
qed

text \<open>The latch without threads: a counter that goes down, and a gate that lets pass whoever comes once it is not positive.\<close>

inductive gate_step :: "int \<times> tid list \<Rightarrow> int \<times> tid list \<Rightarrow> bool" where
  down: "gate_step (n, passed) (n - 1, passed)"
| pass: "n \<le> 0 \<Longrightarrow> gate_step (n, passed) (n, passed @ [t])"

interpretation latch_gate: monitor_refinement latch_body "latch_inv n" gate_step "\<lambda>d. (latch_count d, released d)" for n
proof unfold_locales
  fix d d' :: latch and t m op ns c op'
  show "gate_step (latch_count d, released d) (latch_count d', released d') \<or> (latch_count d', released d') = (latch_count d, released d)"
    if "latch_body op t m d = Inr (Leaves d' ns)"
    using that gate_step.down [of "latch_count d" "released d"] gate_step.pass [of "latch_count d" "released d" t]
    by (cases op) (auto simp: latch_defs split: if_splits)
  show "(latch_count d', released d') = (latch_count d, released d)" if "latch_body op t m d = Inr (Waits c d' op')"
    using that by (cases op) (auto simp: latch_defs split: if_splits)
qed

text \<open>Nobody is left blocked at zero, and a blocked thread is one that waits.\<close>

definition latch_awake :: "(latch_op, latch_cond, latch) monitor \<Rightarrow> bool" where
  "latch_awake s \<longleftrightarrow> (latch_count (mon_data s) \<le> 0 \<longrightarrow> mon_waiting s LatchCond = {})
     \<and> (\<forall>t c op. mon_pc s t = Sleeping c op \<longrightarrow> op = LatchWait)"

lemma latch_cond_all: "c = LatchCond"
  by (cases c) simp

lemma latch_awake_step:
  assumes aw: "latch_awake s" and step: "mon_step latch_body s s'"
  shows "latch_awake s'"
  using step
proof cases
  case (leave t op d ns w)
  show ?thesis
  proof (cases op)
    case LatchWait
    with leave aw show ?thesis by (auto simp: latch_awake_def latch_defs split: if_splits)
  next
    case LatchCountDown
    with leave(3) have d: "latch_count d = latch_count (mon_data s) - 1" "ns = (if latch_count d = 0 then [NotifyAll LatchCond] else [])"
      by (auto simp: latch_defs split: if_splits)
    have "w LatchCond = {}" if "latch_count d \<le> 0"
    proof (cases "latch_count d = 0")
      case True
      with leave(4) d(2) show ?thesis by (simp add: mutex_defs)
    next
      case False
      with that d leave(4) aw show ?thesis by (simp add: latch_awake_def)
    qed
    with leave aw show ?thesis by (auto simp: latch_awake_def split: if_splits)
  next
    case LatchGetCount
    with leave aw show ?thesis by (auto simp: latch_awake_def split: if_splits)
  qed
next
  case (wait t op c d op' m w)
  then have "op = LatchWait" "op' = LatchWait" "d = mon_data s" "latch_count d > 0"
    by (cases op; auto simp: latch_defs split: if_splits)+
  with wait aw show ?thesis by (auto simp: latch_awake_def)
next
  case (spurious t c)
  with aw show ?thesis by (auto simp: latch_awake_def)
qed (use aw in \<open>auto simp: latch_awake_def split: if_splits\<close>)

definition latch_start :: "int \<Rightarrow> (latch_op, latch_cond, latch) monitor \<Rightarrow> bool" where
  "latch_start n s \<longleftrightarrow> s = monitor_init (CountDownLatch_ctor n)"

definition latch_good :: "int \<Rightarrow> (latch_op, latch_cond, latch) monitor \<Rightarrow> bool" where
  "latch_good n s \<longleftrightarrow> mon_ok s \<and> latch_inv n (mon_data s) \<and> latch_awake s"

interpretation latches: transition_system "latch_start n" "mon_step latch_body" "latch_good n" for n
proof unfold_locales
  fix s
  assume "latch_start n s"
  then show "latch_good n s"
    using mon_ok_init by (auto simp: latch_start_def latch_good_def latch_inv_def latch_awake_def monitor_init_def CountDownLatch_ctor_def)
next
  fix s s'
  assume "latch_good n s" and "mon_step latch_body s s'"
  then show "latch_good n s'"
    unfolding latch_good_def by (blast intro: mon_ok_step latch_data.data_step latch_awake_step)
qed

lemma latch_count_decreases:
  assumes "mon_step latch_body s s'"
  shows "latch_count (mon_data s') \<le> latch_count (mon_data s)"
  using assms
proof cases
  case (leave t op d ns w)
  then show ?thesis by (cases op) (auto simp: latch_defs split: if_splits)
next
  case (wait t op c d op' m w)
  then show ?thesis by (cases op) (auto simp: latch_defs split: if_splits)
qed auto

text \<open>Getting in when the mutex is free, and out again at zero.\<close>

lemma latch_leave:
  assumes "mon_pc s t = Inside LatchWait" and "latch_count (mon_data s) \<le> 0"
  shows "\<exists>s'. mon_step latch_body s s' \<and> mon_pc s' t = Outside \<and> t \<in> set (released (mon_data s'))"
proof -
  let ?d = "(mon_data s)\<lparr>released := released (mon_data s) @ [t]\<rparr>"
  have "latch_body LatchWait t (mon_mutex s) (mon_data s) = Inr (Leaves ?d [])"
    using assms(2) by (simp add: latch_defs)
  from mon_step.leave [where body = latch_body, OF assms(1) this notified.none] show ?thesis
    by (rule_tac exI) (rule conjI, assumption, simp)
qed

lemma latch_enter:
  assumes free: "mtx_owner (mon_mutex s) = None" and aw: "latch_awake s" and le: "latch_count (mon_data s) \<le> 0"
    and pc: "mon_pc s t = Locking LatchWait \<or> (\<exists>c. mon_pc s t = Sleeping c LatchWait)"
  shows "\<exists>s'. mon_step latch_body s s' \<and> mon_pc s' t = Inside LatchWait \<and> mon_data s' = mon_data s"
  using pc
proof
  assume "mon_pc s t = Locking LatchWait"
  from mon_step.lock [where body = latch_body, OF this] free show ?thesis
    by (auto simp: MutexLock_lock_def)
next
  assume "\<exists>c. mon_pc s t = Sleeping c LatchWait"
  then obtain c where c: "mon_pc s t = Sleeping c LatchWait" by blast
  have "mon_waiting s c = {}" using aw le latch_cond_all [of c] by (simp add: latch_awake_def)
  with mon_step.resume [where body = latch_body, OF c] free show ?thesis
    by (auto simp: Condition_resume_def)
qed

lemma latch_returns:
  assumes good: "latch_good n s" and le: "latch_count (mon_data s) \<le> 0" and room: "- (2 ^ 31) < latch_count (mon_data s)"
    and pc: "mon_pc s t \<in> {Locking LatchWait, Inside LatchWait} \<or> (\<exists>c. mon_pc s t = Sleeping c LatchWait)"
  shows "\<exists>s'. (mon_step latch_body)\<^sup>*\<^sup>* s s' \<and> mon_pc s' t = Outside \<and> t \<in> set (released (mon_data s'))"
proof (cases "mon_pc s t = Inside LatchWait")
  case True
  with latch_leave [OF True le] show ?thesis by blast
next
  case False
  have ok: "mon_ok s" using good by (simp add: latch_good_def)
  have "\<exists>r. latch_body op u (mon_mutex s) (mon_data s) = Inr r" for op u
    using room by (cases op) (auto simp: latch_defs)
  from mutex_freed [where body = latch_body, OF ok this] obtain s1 where s1: "(mon_step latch_body)\<^sup>=\<^sup>= s s1" "mtx_owner (mon_mutex s1) = None"
    "mon_pc s t = Outside \<or> (\<exists>op. mon_pc s t = Inside op) \<or> mon_pc s1 t = mon_pc s t" by metis
  from s1(3) pc False have pc1: "mon_pc s1 t = Locking LatchWait \<or> (\<exists>c. mon_pc s1 t = Sleeping c LatchWait)" by auto
  have "latch_good n s1" using s1(1) good latches.inv_step by blast
  then have aw1: "latch_awake s1" by (simp add: latch_good_def)
  have le1: "latch_count (mon_data s1) \<le> 0" using s1(1) le latch_count_decreases by fastforce
  from latch_enter [OF s1(2) aw1 le1 pc1] obtain s2 where s2: "mon_step latch_body s1 s2"
    "mon_pc s2 t = Inside LatchWait" "mon_data s2 = mon_data s1" by blast
  from latch_leave [OF s2(2)] le1 s2(3) obtain s3 where s3: "mon_step latch_body s2 s3"
    "mon_pc s3 t = Outside \<and> t \<in> set (released (mon_data s3))" by auto
  have "(mon_step latch_body)\<^sup>*\<^sup>* s s1" using s1(1) by auto
  from this s2(1) s3(1) have "(mon_step latch_body)\<^sup>*\<^sup>* s s3"
    by (blast intro: rtranclp.rtrancl_into_rtrancl)
  with s3(2) show ?thesis by blast
qed

section \<open>\<open>thread\<close>\<close>

text \<open>
  A thread object: the calls of \<open>pthread_join\<close> and \<open>pthread_detach\<close> are a history. \<open>created\<close> is
  whether \<open>pthread_create\<close> succeeded, \<open>self\<close> the thread that calls \<open>start\<close>. The sections of the
  latch run undisturbed here: \<open>None\<close> is a \<open>start\<close> that blocks in the latch.
\<close>

datatype pthread_call = PthreadJoin | PthreadDetach

record thread_obj =
  th_started :: bool
  th_joined :: bool
  th_name :: string
  th_tid :: tid
  th_latch :: latch
  th_calls :: "pthread_call list"

definition thread_ctor :: "string \<Rightarrow> thread_obj" where
  "thread_ctor nm = \<lparr>th_started = False, th_joined = False, th_name = nm, th_tid = 0,
     th_latch = CountDownLatch_ctor 1, th_calls = []\<rparr>"

definition thread_setDefaultName :: "thread_obj \<Rightarrow> thread_obj" where
  "thread_setDefaultName th = (if th_name th = [] then th\<lparr>th_name := ''thread''\<rparr> else th)"

fun section_data :: "('op, 'c, 'd) section_end \<Rightarrow> 'd" where
  "section_data (Leaves d ns) = d"
| "section_data (Waits c d op) = d"

definition thread_start :: "bool \<Rightarrow> tid \<Rightarrow> thread_obj \<Rightarrow> thread_obj option res" where
  "thread_start created self th =
     cassert (\<not> th_started th)
       (bindR (latch_countDown (th_latch th)) (\<lambda>r.
          let th1 = th\<lparr>th_started := True, th_latch := section_data r\<rparr>
          in if \<not> created then Inr (Some (th1\<lparr>th_started := False, th_tid := self\<rparr>))
             else case latch_wait self (th_latch th1) of
                    Waits c d op \<Rightarrow> Inr None
                  | Leaves d ns \<Rightarrow> Inr (Some (th1\<lparr>th_latch := d, th_tid := self\<rparr>))))"

text \<open>What the new thread does before the user's function.\<close>

definition startFunc :: "thread_obj \<Rightarrow> thread_obj res" where
  "startFunc th = bindR (latch_countDown (th_latch th)) (\<lambda>r. Inr (th\<lparr>th_latch := section_data r\<rparr>))"

definition thread_join :: "thread_obj \<Rightarrow> thread_obj res" where
  "thread_join th =
     cassert (th_started th) (cassert (\<not> th_joined th)
       (Inr (th\<lparr>th_joined := True, th_calls := th_calls th @ [PthreadJoin]\<rparr>)))"

definition thread_dtor :: "thread_obj \<Rightarrow> pthread_call list" where
  "thread_dtor th = (if th_started th \<and> th_joined th then th_calls th @ [PthreadDetach] else th_calls th)"

text \<open>
  \<open>start\<close> does not wait for the new thread: it has counted its latch down itself. The id it stores
  is the caller's, and the destructor detaches exactly the threads that were joined.
\<close>

lemma thread_lifecycle:
  "\<exists>th. thread_start True self (thread_ctor nm) = Inr (Some th) \<and> th_started th \<and> th_tid th = self
    \<and> latch_count (th_latch th) = 0 \<and> thread_dtor th = []
    \<and> (\<exists>th'. thread_join th = Inr th' \<and> thread_dtor th' = [PthreadJoin, PthreadDetach]
        \<and> thread_join th' = Inl AssertFailed)
    \<and> thread_start True self th = Inl AssertFailed"
  "\<exists>th. thread_start False self (thread_ctor nm) = Inr (Some th) \<and> \<not> th_started th \<and> thread_join th = Inl AssertFailed"
  by (simp_all add: thread_start_def thread_ctor_def CountDownLatch_ctor_def latch_defs thread_join_def thread_dtor_def)

section \<open>Properties\<close>

text \<open>
  C35. The latch. In every state reachable by threads that wait and count down in any order, with
  spurious wakeups: at most one thread is inside, and \<open>holder_\<close> names it; the count is the initial
  one less the calls of \<open>countDown\<close>; no \<open>wait\<close> has returned before the count came to zero; at zero
  no thread is left blocked in the condition; and from then on every thread in \<open>wait\<close> can return,
  whatever the others are doing (as long as the count has not fallen to the least integer). Every
  run is a run of a counter and a gate that opens at zero.
\<close>

theorem latch_correct:
  assumes "latch_start n s0" and "(mon_step latch_body)\<^sup>*\<^sup>* s0 s"
  shows "(\<forall>t u op op'. mon_pc s t = Inside op \<longrightarrow> mon_pc s u = Inside op' \<longrightarrow> t = u \<and> mtx_holder (mon_mutex s) = t)
    \<and> latch_count (mon_data s) = n - int (downs (mon_data s))
    \<and> (released (mon_data s) \<noteq> [] \<longrightarrow> int (downs (mon_data s)) \<ge> n)
    \<and> (int (downs (mon_data s)) \<ge> n \<longrightarrow> mon_waiting s LatchCond = {})
    \<and> (\<forall>t. latch_count (mon_data s) \<le> 0 \<longrightarrow> - (2 ^ 31) < latch_count (mon_data s) \<longrightarrow>
        mon_pc s t \<in> {Locking LatchWait, Inside LatchWait} \<or> (\<exists>c. mon_pc s t = Sleeping c LatchWait) \<longrightarrow>
        (\<exists>s'. (mon_step latch_body)\<^sup>*\<^sup>* s s' \<and> mon_pc s' t = Outside \<and> t \<in> set (released (mon_data s'))))
    \<and> gate_step\<^sup>*\<^sup>* (n, []) (latch_count (mon_data s), released (mon_data s))"
proof -
  have good: "latch_good n s" using latches.reachable_inv [OF assms] .
  then have ok: "mon_ok s" and inv: "latch_inv n (mon_data s)" and aw: "latch_awake s" by (simp_all add: latch_good_def)
  have "t = u \<and> mtx_holder (mon_mutex s) = t" if "mon_pc s t = Inside op" "mon_pc s u = Inside op'" for t u op op'
    using mon_okD(3) [OF ok that(1)] mon_okD(3) [OF ok that(2)] by simp
  moreover have "gate_step\<^sup>*\<^sup>* (n, []) (latch_count (mon_data s), released (mon_data s))"
    using latch_gate.monitor.refines [of n s0 s] assms
    by (simp add: latch_start_def latch_inv_def monitor_init_def CountDownLatch_ctor_def)
  ultimately show ?thesis using inv aw latch_returns [OF good] by (auto simp: latch_inv_def latch_awake_def)
qed

text \<open>Thread 1 waits on a latch of one; thread 2 counts down; then thread 1 can return.\<close>

definition latch_asleep :: "(latch_op, latch_cond, latch) monitor" where
  "latch_asleep = (monitor_init (CountDownLatch_ctor 1))
     \<lparr>mon_waiting := (\<lambda>_. {1}), mon_pc := (\<lambda>_. Outside)(1 := Sleeping LatchCond LatchWait)\<rparr>"

definition latch_opened :: "(latch_op, latch_cond, latch) monitor" where
  "latch_opened = latch_asleep\<lparr>mon_data := \<lparr>latch_count = 0, downs = 1, released = []\<rparr>, mon_waiting := (\<lambda>_. {})\<rparr>"

lemma section_steps:
  assumes "mon_pc s t = Outside" and "t \<noteq> 0" and free: "mon_mutex s = MutexLock_ctor"
    and r: "body op t \<lparr>mtx_owner = Some t, mtx_holder = t\<rparr> (mon_data s) = Inr r"
    and s': "case r of Leaves d ns \<Rightarrow> (\<exists>w. notified ns (mon_waiting s) w
          \<and> s' = s\<lparr>mon_mutex := MutexLock_ctor, mon_data := d, mon_waiting := w, mon_pc := (mon_pc s)(t := Outside)\<rparr>)
      | Waits c d op' \<Rightarrow> s' = s\<lparr>mon_mutex := MutexLock_ctor, mon_data := d, mon_waiting := (mon_waiting s)(c := insert t (mon_waiting s c)),
          mon_pc := (mon_pc s)(t := Sleeping c op')\<rparr>"
  shows "(mon_step body)\<^sup>*\<^sup>* s s'"
proof -
  let ?m = "\<lparr>mtx_owner = Some t, mtx_holder = t\<rparr>"
  let ?s1 = "s\<lparr>mon_pc := (mon_pc s)(t := Locking op)\<rparr>"
  let ?s2 = "s\<lparr>mon_mutex := ?m, mon_pc := (mon_pc s)(t := Inside op)\<rparr>"
  have 1: "mon_step body s ?s1" by (rule mon_step.call [OF assms(1,2)])
  have 2: "mon_step body ?s1 ?s2"
    using mon_step.lock [where body = body and s = ?s1 and t = t and op = op and m = ?m] free
    by (simp add: MutexLock_lock_def MutexLock_ctor_def assignHolder_def)
  have 3: "mon_step body ?s2 s'"
  proof (cases r)
    case (Leaves d ns)
    with s' obtain w where w: "notified ns (mon_waiting s) w"
      "s' = s\<lparr>mon_mutex := MutexLock_ctor, mon_data := d, mon_waiting := w, mon_pc := (mon_pc s)(t := Outside)\<rparr>" by auto
    show ?thesis
      using mon_step.leave [where body = body and s = ?s2 and t = t and op = op and d = d and ns = ns and w = w] r Leaves w(1) free
      by (simp add: mutex_defs w(2))
  next
    case (Waits c d op')
    then show ?thesis
      using mon_step.wait [where body = body and s = ?s2 and t = t and op = op and d = d and c = c and op' = op'] r s' free
      by (simp add: mutex_defs)
  qed
  from 1 2 3 show ?thesis by (meson converse_rtranclp_into_rtranclp r_into_rtranclp)
qed

theorem latch_correct_witness:
  "\<exists>s'. (mon_step latch_body)\<^sup>*\<^sup>* latch_opened s' \<and> mon_pc s' 1 = Outside \<and> 1 \<in> set (released (mon_data s'))"
proof -
  let ?s0 = "monitor_init (CountDownLatch_ctor 1) :: (latch_op, latch_cond, latch) monitor"
  have "(mon_step latch_body)\<^sup>*\<^sup>* ?s0 latch_asleep"
    by (rule section_steps [where t = 1 and op = LatchWait and r = "Waits LatchCond (CountDownLatch_ctor 1) LatchWait"])
      (simp_all add: monitor_init_def latch_defs CountDownLatch_ctor_def latch_asleep_def fun_eq_iff latch_cond_all)
  also have "(mon_step latch_body)\<^sup>*\<^sup>* latch_asleep latch_opened"
    by (rule section_steps [where t = 2 and op = LatchCountDown
          and r = "Leaves \<lparr>latch_count = 0, downs = 1, released = []\<rparr> [NotifyAll LatchCond]"])
      (auto simp: monitor_init_def latch_defs CountDownLatch_ctor_def latch_asleep_def latch_opened_def
        mutex_defs fun_eq_iff latch_cond_all)
  finally have reach: "(mon_step latch_body)\<^sup>*\<^sup>* ?s0 latch_opened" .
  have "latch_count (mon_data latch_opened) = 0" "mon_pc latch_opened 1 = Sleeping LatchCond LatchWait"
    by (simp_all add: latch_opened_def latch_asleep_def)
  with latch_correct [OF _ reach, of 1] show ?thesis by (simp add: latch_start_def)
qed

end
