(* ===== verification/Thread_Pool.thy ===== *)
theory Thread_Pool
  imports Threads
begin

text \<open>
  \<open>net/ThreadPool\<close>: worker threads that take tasks from a bounded queue. The members the mutex guards
  are the data of a monitor with the two conditions \<open>notEmpty_\<close> and \<open>notFull_\<close>; what was queued and
  what each \<open>take\<close> returned are histories. The thread objects and the loop of \<open>start\<close> are outside the
  mutex.
\<close>

section \<open>Data\<close>

datatype tp_cond = NotEmpty | NotFull

datatype 'k tp_op = TpRun 'k | TpTake | TpStop | TpQueueSize

record 'k tpool =
  tp_queue :: "'k list"
  maxQueueSize :: nat
  tp_running :: bool
  tp_pushed :: "'k list"
  tp_taken :: "(tid \<times> 'k option) list"

type_synonym 'k tp_end = "('k tp_op, tp_cond, 'k tpool) section_end"
type_synonym 'k tp_monitor = "('k tp_op, tp_cond, 'k tpool) monitor"

definition ThreadPool_ctor :: "'k tpool" where
  "ThreadPool_ctor = \<lparr>tp_queue = [], maxQueueSize = 0, tp_running = False, tp_pushed = [], tp_taken = []\<rparr>"

text \<open>The argument is an \<open>int\<close> and the member a \<open>size_t\<close>.\<close>

definition setMaxQueueSize :: "int \<Rightarrow> 'k tpool \<Rightarrow> 'k tpool" where
  "setMaxQueueSize n d = d\<lparr>maxQueueSize := nat (n mod 2 ^ 64)\<rparr>"

section \<open>The sections under the mutex\<close>

definition isFull :: "tid \<Rightarrow> mutex \<Rightarrow> 'k tpool \<Rightarrow> bool res" where
  "isFull self m d =
     bindR (assertLocked self m) (\<lambda>_. Inr (maxQueueSize d > 0 \<and> length (tp_queue d) \<ge> maxQueueSize d))"

definition tp_run :: "'k \<Rightarrow> tid \<Rightarrow> mutex \<Rightarrow> 'k tpool \<Rightarrow> 'k tp_end res" where
  "tp_run f self m d =
     bindR (isFull self m d) (\<lambda>full.
       if full then Inr (Waits NotFull d (TpRun f))
       else bindR (isFull self m d) (\<lambda>full'. cassert (\<not> full')
         (Inr (Leaves (d\<lparr>tp_queue := tp_queue d @ [f], tp_pushed := tp_pushed d @ [f]\<rparr>) [NotifyOne NotEmpty]))))"

definition tp_take :: "tid \<Rightarrow> 'k tpool \<Rightarrow> 'k tp_end" where
  "tp_take self d =
     (if tp_queue d = [] \<and> tp_running d then Waits NotEmpty d TpTake
      else case tp_queue d of
             [] \<Rightarrow> Leaves (d\<lparr>tp_taken := tp_taken d @ [(self, None)]\<rparr>) []
           | f # fs \<Rightarrow> Leaves (d\<lparr>tp_queue := fs, tp_taken := tp_taken d @ [(self, Some f)]\<rparr>)
               (if maxQueueSize d > 0 then [NotifyOne NotFull] else []))"

definition tp_stop :: "'k tpool \<Rightarrow> 'k tp_end" where
  "tp_stop d = Leaves (d\<lparr>tp_running := False\<rparr>) [NotifyAll NotEmpty]"

definition tp_queueSize :: "'k tpool \<Rightarrow> nat" where
  "tp_queueSize d = length (tp_queue d)"

fun tp_body :: "('k tp_op, tp_cond, 'k tpool) body" where
  "tp_body (TpRun f) self m d = tp_run f self m d"
| "tp_body TpTake self m d = Inr (tp_take self d)"
| "tp_body TpStop self m d = Inr (tp_stop d)"
| "tp_body TpQueueSize self m d = Inr (Leaves d [])"

section \<open>The pool outside its mutex\<close>

text \<open>
  \<open>start\<close>: the body of the \<open>for\<close> loop increments \<open>i\<close> a second time, so the thread it creates is not
  the one it starts. A thread whose \<open>start\<close> blocked would end the loop there; none does. \<open>reserve\<close>
  of a negative number throws. \<open>inits\<close> counts calls of the initialisation callback made here.
\<close>

record pool_obj =
  tp_name :: string
  tp_threads :: "thread_obj list"
  hasInitCallback :: bool
  inits :: nat

function start_from :: "tid \<Rightarrow> nat \<Rightarrow> nat \<Rightarrow> pool_obj \<Rightarrow> pool_obj res" where
  "start_from self i numThreads p =
     (if i < numThreads
      then let i1 = i + 1;
               ths = tp_threads p @ [thread_ctor (tp_name p @ take 31 (show_nat i1))]
           in if i1 < length ths
              then bindR (thread_start True self (ths ! i1)) (\<lambda>r.
                case r of None \<Rightarrow> Inr (p\<lparr>tp_threads := ths\<rparr>)
                | Some th \<Rightarrow> start_from self (i1 + 1) numThreads (p\<lparr>tp_threads := ths[i1 := th]\<rparr>))
              else Inl OutOfBounds
      else Inr p)"
  by pat_completeness auto

termination
  by (relation "measure (\<lambda>(self, i, n, p). n - i)") auto

definition ThreadPool_start :: "tid \<Rightarrow> int \<Rightarrow> pool_obj \<times> 'k tpool \<Rightarrow> (pool_obj \<times> 'k tpool) res" where
  "ThreadPool_start self numThreads pd =
     (let (p, d) = pd
      in cassert (tp_threads p = [])
          (if numThreads < 0 then Inl LengthError
           else bindR (start_from self 0 (nat numThreads) p) (\<lambda>p1.
             Inr (if numThreads = 0 \<and> hasInitCallback p1 then p1\<lparr>inits := inits p1 + 1\<rparr> else p1,
                  d\<lparr>tp_running := True\<rparr>))))"

text \<open>\<open>run\<close>: without threads the task runs at once (\<open>Inl\<close>), else the caller enters the monitor.\<close>

definition ThreadPool_run :: "'k \<Rightarrow> pool_obj \<Rightarrow> 'k + 'k tp_op" where
  "ThreadPool_run f p = (if tp_threads p = [] then Inl f else Inr (TpRun f))"

text \<open>
  \<open>stop\<close>: its section under the mutex, here undisturbed, and the joins, which return when the workers
  do; the destructor stops a pool that still runs.
\<close>

definition join_all :: "pool_obj \<Rightarrow> pool_obj res" where
  "join_all p = bindR (foldR (\<lambda>th acc. bindR (thread_join th) (\<lambda>th'. Inr (acc @ [th']))) (tp_threads p) [])
     (\<lambda>ths. Inr (p\<lparr>tp_threads := ths\<rparr>))"

definition ThreadPool_stop :: "pool_obj \<times> 'k tpool \<Rightarrow> (pool_obj \<times> 'k tpool) res" where
  "ThreadPool_stop = (\<lambda>(p, d). bindR (join_all p) (\<lambda>p1. Inr (p1, section_data (tp_stop d))))"

definition ThreadPool_dtor :: "pool_obj \<times> 'k tpool \<Rightarrow> (pool_obj \<times> 'k tpool) res" where
  "ThreadPool_dtor = (\<lambda>(p, d). if tp_running d then ThreadPool_stop (p, d) else Inr (p, d))"

text \<open>
  The worker: the initialisation callback, then what \<open>running_\<close> reads and \<open>take\<close> returns, round by
  round. An exception of a task ends the process (\<open>abort\<close>, or an exception no thread catches).
\<close>

fun worker_rounds :: "('k \<Rightarrow> 'w \<Rightarrow> 'w res) \<Rightarrow> (bool \<times> 'k option) list \<Rightarrow> 'w \<Rightarrow> 'w res" where
  "worker_rounds exec [] w = Inr w"
| "worker_rounds exec ((running, task) # rounds) w =
     (if running then bindR (case task of None \<Rightarrow> Inr w | Some k \<Rightarrow> exec k w) (worker_rounds exec rounds) else Inr w)"

definition runInThread :: "('w \<Rightarrow> 'w res) option \<Rightarrow> ('k \<Rightarrow> 'w \<Rightarrow> 'w res) \<Rightarrow> (bool \<times> 'k option) list \<Rightarrow> 'w \<Rightarrow> 'w res" where
  "runInThread init exec rounds w =
     bindR (case init of None \<Rightarrow> Inr w | Some cb \<Rightarrow> cb w) (worker_rounds exec rounds)"

section \<open>The queue\<close>

definition given :: "(tid \<times> 'k option) list \<Rightarrow> 'k list" where
  "given xs = concat (map (\<lambda>(t, k). case k of None \<Rightarrow> [] | Some f \<Rightarrow> [f]) xs)"

lemma given_simps [simp]: "given [] = []" "given (xs @ [(t, None)]) = given xs" "given (xs @ [(t, Some f)]) = given xs @ [f]"
  by (simp_all add: given_def)

definition tp_inv :: "'k tpool \<Rightarrow> bool" where
  "tp_inv d \<longleftrightarrow> tp_pushed d = given (tp_taken d) @ tp_queue d
     \<and> (maxQueueSize d > 0 \<longrightarrow> length (tp_queue d) \<le> maxQueueSize d)"

lemmas tp_defs = tp_run_def tp_take_def tp_stop_def isFull_def assertLocked_def

lemma tp_run_inside:
  "isLockedByThisThread t m \<Longrightarrow> tp_run f t m d =
    (if maxQueueSize d > 0 \<and> length (tp_queue d) \<ge> maxQueueSize d then Inr (Waits NotFull d (TpRun f))
     else Inr (Leaves (d\<lparr>tp_queue := tp_queue d @ [f], tp_pushed := tp_pushed d @ [f]\<rparr>) [NotifyOne NotEmpty]))"
  by (auto simp: tp_defs)

interpretation pool_queue: monitor_client tp_body tp_inv
proof unfold_locales
  fix d d' :: "'k tpool" and t m op ns c op'
  assume inv: "tp_inv d" and held: "isLockedByThisThread t m"
  show "tp_inv d'" if "tp_body op t m d = Inr (Leaves d' ns)"
    using that inv held
    by (cases op) (auto simp: tp_run_inside tp_take_def tp_stop_def tp_inv_def split: if_splits list.splits)
  show "tp_inv d'" if "tp_body op t m d = Inr (Waits c d' op')"
    using that inv held
    by (cases op) (auto simp: tp_run_inside tp_take_def tp_stop_def split: if_splits list.splits)
qed

declare start_from.simps [simp del]

section \<open>Signalling\<close>

text \<open>What a section of the pool does to the queue and whom it notifies.\<close>

lemma tp_leaves:
  assumes "tp_body op t m d = Inr (Leaves d' ns)"
  obtains (run) f where "op = TpRun f" "d' = d\<lparr>tp_queue := tp_queue d @ [f], tp_pushed := tp_pushed d @ [f]\<rparr>"
      "ns = [NotifyOne NotEmpty]" "maxQueueSize d = 0 \<or> length (tp_queue d) < maxQueueSize d"
  | (take) f fs where "op = TpTake" "tp_queue d = f # fs" "d' = d\<lparr>tp_queue := fs, tp_taken := tp_taken d @ [(t, Some f)]\<rparr>"
      "ns = (if maxQueueSize d > 0 then [NotifyOne NotFull] else [])"
  | (none) "op = TpTake" "tp_queue d = []" "d' = d\<lparr>tp_taken := tp_taken d @ [(t, None)]\<rparr>" "ns = []"
  | (stop) "op = TpStop" "d' = d\<lparr>tp_running := False\<rparr>" "ns = [NotifyAll NotEmpty]"
  | (size) "op = TpQueueSize" "d' = d" "ns = []"
  using assms
  by (cases op) (auto simp: tp_defs bindR_eq_Inr cassert_eq_Inr split: if_splits list.splits)

lemma tp_waits:
  assumes "tp_body op t m d = Inr (Waits c d' op')"
  obtains (run) f where "op = TpRun f" "op' = TpRun f" "c = NotFull" "d' = d" "maxQueueSize d > 0" "maxQueueSize d \<le> length (tp_queue d)"
  | (take) "op = TpTake" "op' = TpTake" "c = NotEmpty" "d' = d" "tp_queue d = []" "tp_running d"
  using assms
  by (cases op) (auto simp: tp_defs bindR_eq_Inr cassert_eq_Inr split: if_splits list.splits)

text \<open>The pool as an abstract bounded queue: the tasks waiting, and those handed to workers.\<close>

definition tp_bounded :: "nat \<Rightarrow> 'k tpool \<Rightarrow> bool" where
  "tp_bounded n d \<longleftrightarrow> maxQueueSize d = n"

definition pool_view :: "'k tpool \<Rightarrow> 'k list \<times> 'k list" where
  "pool_view d = (tp_queue d, given (tp_taken d))"

lemma tp_leaves_fifo:
  assumes "tp_body op t m d = Inr (Leaves d' ns)"
  shows "fifo_step (maxQueueSize d) (pool_view d) (pool_view d') \<or> pool_view d' = pool_view d"
  using assms by (cases rule: tp_leaves) (simp_all add: pool_view_def fifo_step.accept fifo_step.hand_out)

interpretation pool_fifo: monitor_refinement tp_body "tp_bounded n" "fifo_step n" pool_view for n
proof unfold_locales
  fix d d' :: "'k tpool" and op op' t m c' ns
  assume n: "tp_bounded n d"
  show "tp_bounded n d'" "fifo_step n (pool_view d) (pool_view d') \<or> pool_view d' = pool_view d"
    if "tp_body op t m d = Inr (Leaves d' ns)"
    using tp_leaves_fifo [OF that] that n by (auto simp: tp_bounded_def elim: tp_leaves)
  show "tp_bounded n d'" "pool_view d' = pool_view d" if "tp_body op t m d = Inr (Waits c' d' op')"
    using that n by (auto elim: tp_waits)
qed

definition is_run :: "'k tp_op \<Rightarrow> bool" where
  "is_run op \<longleftrightarrow> (\<exists>f. op = TpRun f)"

interpretation takers: signalling tp_body NotEmpty "\<lambda>op. op = TpTake" "\<lambda>d. length (tp_queue d)" tp_running
proof unfold_locales
  fix op op' :: "'k tp_op" and t m d d' c' ns
  show "op' = TpTake \<and> length (tp_queue d') = 0 \<and> tp_running d'" if "tp_body op t m d = Inr (Waits NotEmpty d' op')"
    using that by (cases rule: tp_waits) simp_all
  show "op \<noteq> TpTake \<and> length (tp_queue d') \<le> length (tp_queue d) \<and> (tp_running d \<longrightarrow> tp_running d')"
    if "tp_body op t m d = Inr (Waits c' d' op')" "c' \<noteq> NotEmpty"
    using that by (cases rule: tp_waits) simp_all
  show "NotifyAll NotEmpty \<in> set ns \<or> (tp_running d \<longrightarrow> tp_running d')
        \<and> (ns = [NotifyOne NotEmpty] \<and> op \<noteq> TpTake \<and> length (tp_queue d') \<le> Suc (length (tp_queue d))
           \<or> NotifyOne NotEmpty \<notin> set ns
             \<and> length (tp_queue d') \<le> (if op = TpTake then length (tp_queue d) - 1 else length (tp_queue d)))"
    if "tp_body op t m d = Inr (Leaves d' ns)"
    using that by (cases rule: tp_leaves) simp_all
qed

interpretation producers: signalling tp_body NotFull is_run "\<lambda>d. maxQueueSize d - length (tp_queue d)" "\<lambda>d. maxQueueSize d > 0"
proof unfold_locales
  fix op op' :: "'k tp_op" and t m d d' c' ns
  let ?room = "\<lambda>d :: 'k tpool. maxQueueSize d - length (tp_queue d)"
  show "is_run op' \<and> ?room d' = 0 \<and> 0 < maxQueueSize d'" if "tp_body op t m d = Inr (Waits NotFull d' op')"
    using that by (cases rule: tp_waits) (simp_all add: is_run_def)
  show "\<not> is_run op \<and> ?room d' \<le> ?room d \<and> (0 < maxQueueSize d \<longrightarrow> 0 < maxQueueSize d')"
    if "tp_body op t m d = Inr (Waits c' d' op')" "c' \<noteq> NotFull"
    using that by (cases rule: tp_waits) (simp_all add: is_run_def)
  show "NotifyAll NotFull \<in> set ns \<or> (0 < maxQueueSize d \<longrightarrow> 0 < maxQueueSize d')
        \<and> (ns = [NotifyOne NotFull] \<and> \<not> is_run op \<and> ?room d' \<le> Suc (?room d)
           \<or> NotifyOne NotFull \<notin> set ns \<and> ?room d' \<le> (if is_run op then ?room d - 1 else ?room d))"
    if "tp_body op t m d = Inr (Leaves d' ns)"
    using that by (cases rule: tp_leaves) (auto simp: is_run_def)
qed

lemma tp_sections_return:
  assumes "mon_ok s" and "mon_pc s t = Inside op"
  shows "\<exists>r. tp_body op t (mon_mutex s) (mon_data s) = Inr r"
proof (cases op)
  case (TpRun f)
  with tp_run_inside [OF pool_queue.holder_inside [OF assms], of f "mon_data s"] show ?thesis
    by (cases "0 < maxQueueSize (mon_data s) \<and> maxQueueSize (mon_data s) \<le> length (tp_queue (mon_data s))") simp_all
qed simp_all

section \<open>Properties\<close>

text \<open>
  C36. Starting a pool. With no threads the pool runs, the initialisation callback is called once if
  there is one, and every task runs at once in its caller. With a negative number \<open>reserve\<close> throws.
  But with any positive number of threads \<open>start\<close> accesses the vector of threads out of bounds,
  because the loop increments its index twice; and a pool cannot be started twice while it has
  threads.
\<close>

theorem pool_starting:
  assumes "tp_threads p = []"
  shows "(\<exists>p'. ThreadPool_start self 0 (p, d) = Inr (p', d\<lparr>tp_running := True\<rparr>)
      \<and> ThreadPool_run f p' = Inl f \<and> inits p' = inits p + (if hasInitCallback p then 1 else 0))
    \<and> (n < 0 \<longrightarrow> ThreadPool_start self n (p, d) = Inl LengthError)
    \<and> (n > 0 \<longrightarrow> ThreadPool_start self n (p, d) = Inl OutOfBounds)
    \<and> ThreadPool_start self n (p\<lparr>tp_threads := th # ths\<rparr>, d) = Inl AssertFailed"
  using assms by (simp add: ThreadPool_start_def start_from.simps [of self 0] ThreadPool_run_def)

definition sample_pool_obj :: pool_obj where
  "sample_pool_obj = \<lparr>tp_name = ''pool'', tp_threads = [], hasInitCallback = True, inits = 0\<rparr>"

theorem pool_starting_witness:
  "ThreadPool_start 1 4 (sample_pool_obj, ThreadPool_ctor :: nat tpool) = Inl OutOfBounds
    \<and> ThreadPool_start 1 (-1) (sample_pool_obj, ThreadPool_ctor :: nat tpool) = Inl LengthError
    \<and> (\<exists>p'. ThreadPool_start 1 0 (sample_pool_obj, ThreadPool_ctor :: nat tpool)
        = Inr (p', ThreadPool_ctor\<lparr>tp_running := True\<rparr>) \<and> inits p' = 1)"
  using pool_starting [of sample_pool_obj 1 "ThreadPool_ctor :: nat tpool" 0 4 "thread_ctor []" "[]"]
    pool_starting [of sample_pool_obj 1 "ThreadPool_ctor :: nat tpool" 0 "-1" "thread_ctor []" "[]"]
  by (auto simp: sample_pool_obj_def)

text \<open>
  C37. The bounded queue. From a pool with any bound, in every state reachable by threads that run
  tasks, take them, ask for the size and stop the pool in any order: no section fails an assertion,
  in particular \<open>isFull\<close> finds the mutex held by its caller; the tasks queued are exactly the tasks
  taken, in the same order, followed by the queue, so no task is lost, repeated or reordered; a
  bounded queue never exceeds its bound; while there is a task and a worker is blocked, another
  worker is awake to take it, and while there is room and a caller of \<open>run\<close> is blocked, another is
  awake to use it; a stopped pool has no blocked worker. But \<open>stop\<close> wakes no caller of \<open>run\<close>: who is
  blocked in a full queue stays blocked. Seen from outside, the pool with its mutex and its two
  conditions is a bounded first-in first-out queue: each section under the mutex is one step of it
  or none.
\<close>

theorem pool_queue_correct:
  assumes "d0 = setMaxQueueSize n (ThreadPool_ctor\<lparr>tp_running := b\<rparr>)"
    and "(mon_step tp_body)\<^sup>*\<^sup>* (monitor_init d0) s"
  shows "(\<forall>t op. mon_pc s t = Inside op \<longrightarrow> (\<exists>r. tp_body op t (mon_mutex s) (mon_data s) = Inr r))
    \<and> tp_pushed (mon_data s) = given (tp_taken (mon_data s)) @ tp_queue (mon_data s)
    \<and> (maxQueueSize (mon_data s) > 0 \<longrightarrow> length (tp_queue (mon_data s)) \<le> maxQueueSize (mon_data s))
    \<and> (\<forall>t. t \<in> mon_waiting s NotEmpty \<longrightarrow> tp_running (mon_data s)
        \<and> (tp_queue (mon_data s) \<noteq> [] \<longrightarrow> (\<exists>u. u \<in> awake NotEmpty (\<lambda>op. op = TpTake) s)))
    \<and> (\<forall>t. t \<in> mon_waiting s NotFull \<longrightarrow> length (tp_queue (mon_data s)) < maxQueueSize (mon_data s) \<longrightarrow>
        (\<exists>u. u \<in> awake NotFull is_run s))
    \<and> (\<forall>t d ns w. tp_body TpStop t (mon_mutex s) (mon_data s) = Inr (Leaves d ns) \<longrightarrow> notified ns (mon_waiting s) w \<longrightarrow>
        w NotFull = mon_waiting s NotFull)
    \<and> (fifo_step (maxQueueSize d0))\<^sup>*\<^sup>* ([], []) (tp_queue (mon_data s), given (tp_taken (mon_data s)))"
proof -
  have ok: "mon_ok s" and tk: "takers.signal_ok s" using takers.signal_reachable [OF assms(2)] by simp_all
  have "tp_inv d0" by (simp add: assms(1) setMaxQueueSize_def ThreadPool_ctor_def tp_inv_def)
  from pool_queue.data_reachable [OF this assms(2)] have inv: "tp_inv (mon_data s)" .
  have "tp_running (mon_data s) \<and> (tp_queue (mon_data s) \<noteq> [] \<longrightarrow> (\<exists>u. u \<in> awake NotEmpty (\<lambda>op. op = TpTake) s))"
    if "t \<in> mon_waiting s NotEmpty" for t
    using takers.someone_awake [OF assms(2) that] tk that by (auto simp: takers.signal_ok_def)
  moreover have "\<exists>u. u \<in> awake NotFull is_run s"
    if "t \<in> mon_waiting s NotFull" "length (tp_queue (mon_data s)) < maxQueueSize (mon_data s)" for t
    using producers.someone_awake [OF assms(2) that(1)] that(2) by simp
  moreover have "(fifo_step (maxQueueSize d0))\<^sup>*\<^sup>* ([], []) (tp_queue (mon_data s), given (tp_taken (mon_data s)))"
    using pool_fifo.monitor.refines [of "maxQueueSize d0" "monitor_init d0" s] assms
    by (auto simp: tp_bounded_def pool_view_def monitor_init_def setMaxQueueSize_def ThreadPool_ctor_def)
  ultimately show ?thesis
    using inv tp_sections_return [OF ok] by (auto simp: tp_inv_def Condition_notifyAll_def tp_stop_def)
qed

text \<open>A producer queues a task and a worker, who waited for it, is awake.\<close>

definition pool_asleep :: "nat tp_monitor" where
  "pool_asleep = (monitor_init (setMaxQueueSize 2 (ThreadPool_ctor\<lparr>tp_running := True\<rparr>)))
     \<lparr>mon_waiting := (\<lambda>_. {})(NotEmpty := {1, 2}),
      mon_pc := (\<lambda>_. Outside)(1 := Sleeping NotEmpty TpTake, 2 := Sleeping NotEmpty TpTake)\<rparr>"

theorem pool_queue_correct_witness:
  "\<exists>s. (mon_step tp_body)\<^sup>*\<^sup>* (monitor_init (setMaxQueueSize 2 (ThreadPool_ctor\<lparr>tp_running := True\<rparr>))) s
    \<and> tp_queue (mon_data s) = [7 :: nat] \<and> 2 \<in> mon_waiting s NotEmpty
    \<and> (\<exists>u. u \<in> awake NotEmpty (\<lambda>op. op = TpTake) s)"
proof -
  let ?d = "setMaxQueueSize 2 (ThreadPool_ctor\<lparr>tp_running := True\<rparr>) :: nat tpool"
  let ?s1 = "(monitor_init ?d)\<lparr>mon_waiting := (\<lambda>_. {})(NotEmpty := {1}), mon_pc := (\<lambda>_. Outside)(1 := Sleeping NotEmpty TpTake)\<rparr>"
  let ?d2 = "?d\<lparr>tp_queue := [7], tp_pushed := [7]\<rparr>"
  let ?s2 = "pool_asleep\<lparr>mon_data := ?d2, mon_waiting := (\<lambda>_. {})(NotEmpty := {2})\<rparr>"
  note defs = monitor_init_def setMaxQueueSize_def ThreadPool_ctor_def pool_asleep_def
  have one: "notified [NotifyOne NotEmpty] (mon_waiting pool_asleep) ((\<lambda>_. {})(NotEmpty := {2}))"
    by (rule notified.one [where t = 1]) (simp_all add: pool_asleep_def Condition_notify_def)
  have "(mon_step tp_body)\<^sup>*\<^sup>* (monitor_init ?d) ?s1"
    by (rule section_steps [where t = 1 and op = TpTake and r = "Waits NotEmpty ?d TpTake"])
      (simp_all add: defs tp_take_def fun_eq_iff)
  also have "(mon_step tp_body)\<^sup>*\<^sup>* ?s1 pool_asleep"
    by (rule section_steps [where t = 2 and op = TpTake and r = "Waits NotEmpty ?d TpTake"])
      (simp_all add: defs tp_take_def fun_eq_iff insert_commute)
  also have "(mon_step tp_body)\<^sup>*\<^sup>* pool_asleep ?s2"
    by (rule section_steps [where t = 3 and op = "TpRun 7" and r = "Leaves ?d2 [NotifyOne NotEmpty]"])
      (use one in \<open>auto simp: defs tp_defs isLockedByThisThread_def fun_eq_iff MutexLock_ctor_def\<close>)
  finally have reach: "(mon_step tp_body)\<^sup>*\<^sup>* (monitor_init ?d) ?s2" .
  from pool_queue_correct [OF refl reach] show ?thesis
    using reach by (intro exI [of _ ?s2]) (simp add: pool_asleep_def)
qed

end
