(* ===== verification/Loop_Thread.thy ===== *)
theory Loop_Thread
  imports Threads
begin

text \<open>
  \<open>net/EventLoopThread\<close>: a thread that owns an event loop. The thread that calls \<open>startLoop\<close> (1) waits
  under the mutex until the new thread (2) has stored the address of its loop; when the loop ends, the
  thread takes the address back. The sections under the mutex are the sections of a monitor; the
  course of the new thread in between is its phase.
\<close>

section \<open>Model\<close>


record elt =
  elt_loop :: "addr option"
  elt_got :: "addr list"












text \<open>The destructor reads \<open>loop_\<close> without the mutex; \<open>True\<close> is that it told the loop to quit.\<close>

definition EventLoopThread_dtor :: "elt \<Rightarrow> thread_obj \<Rightarrow> (bool \<times> thread_obj) res" where
  "EventLoopThread_dtor d th =
     (if elt_loop d \<noteq> None then bindR (thread_join th) (\<lambda>th'. Inr (True, th')) else Inr (False, th))"

section \<open>The invariant\<close>



















section \<open>The starter\<close>







section \<open>Properties\<close>




end
