(* ===== verification/Log_File.thy ===== *)
theory Log_File
  imports Threads "HOL-Library.Sublist"
begin

text \<open>
  \<open>src/FixedBuffer.h\<close>, \<open>src/FileUtil\<close>, \<open>src/LogFile\<close>, \<open>src/Logging\<close>, \<open>base/Processinfo\<close>,
  \<open>base/timeMethod\<close>, \<open>base/chrMethod\<close>: the buffers log lines are collected in, the files they end
  in, and the lines themselves. How many bytes each \<open>fwrite\<close> takes and how many it leaves in the stream's
  buffer, what \<open>time\<close> returns and whether \<open>fopen\<close> succeeds are arguments. That the disk takes what leaves
  the stream's buffer is assumed.
\<close>

section \<open>\<open>FixedBuffer\<close>\<close>

text \<open>\<open>fb_size\<close> is the template argument; \<open>fb_text\<close> the bytes from \<open>data_\<close> to \<open>cur_\<close>, the only ones that are read.\<close>

record fixed_buffer =
  fb_size :: nat
  fb_text :: string

definition KSmallBuffer :: nat where
  "KSmallBuffer = 4000"

definition KLargeBuffer :: nat where
  "KLargeBuffer = 4000 * 1000"

definition FixedBuffer_ctor :: "nat \<Rightarrow> fixed_buffer" where
  "FixedBuffer_ctor sz = \<lparr>fb_size = sz, fb_text = []\<rparr>"

definition fb_length :: "fixed_buffer \<Rightarrow> nat" where
  "fb_length b = length (fb_text b)"

definition fb_avail :: "fixed_buffer \<Rightarrow> nat" where
  "fb_avail b = fb_size b - fb_length b"

text \<open>\<open>mem\<close> is the memory from \<open>buf\<close> to the end of its object.\<close>

definition fb_append :: "string \<Rightarrow> nat \<Rightarrow> fixed_buffer \<Rightarrow> fixed_buffer res" where
  "fb_append mem len b =
     (if fb_avail b > len
      then if len \<le> length mem then Inr (b\<lparr>fb_text := fb_text b @ take len mem\<rparr>) else Inl OutOfBounds
      else Inr b)"

definition fb_bzero :: "fixed_buffer \<Rightarrow> fixed_buffer" where
  "fb_bzero b = b\<lparr>fb_text := replicate (fb_length b) CHR 0x00\<rparr>"

definition fb_reset :: "fixed_buffer \<Rightarrow> fixed_buffer" where
  "fb_reset b = b\<lparr>fb_text := []\<rparr>"

section \<open>\<open>AppendFile\<close>\<close>

text \<open>
  \<open>af_text\<close> is what the stream has taken, \<open>af_flushed\<close> how much of it has left the stream's buffer: only that
  is in the file. The stream's buffer is the member \<open>buffer_\<close> of 60 KB. The class has no destructor: when the object goes
  (\<open>af_freed\<close>), its buffer goes with it, the stream is neither flushed nor closed, and what was in the buffer is lost.
\<close>

record append_file =
  af_name :: string
  af_text :: string
  af_flushed :: nat
  af_closed :: bool
  af_freed :: bool
  writtenBytes :: nat

definition stream_size :: nat where
  "stream_size = 60 * 1024"

definition AppendFile_ctor :: "bool \<Rightarrow> string \<Rightarrow> append_file res" where
  "AppendFile_ctor opened nm =
     cassert opened (Inr \<lparr>af_name = nm, af_text = [], af_flushed = 0, af_closed = False, af_freed = False, writtenBytes = 0\<rparr>)"

definition AppendFile_free :: "append_file \<Rightarrow> append_file" where
  "AppendFile_free f = f\<lparr>af_freed := True\<rparr>"

text \<open>The bytes in the file, and those that are only in the stream's buffer.\<close>

definition af_disk :: "append_file \<Rightarrow> string" where
  "af_disk f = take (af_flushed f) (af_text f)"

definition af_tail :: "append_file \<Rightarrow> string" where
  "af_tail f = drop (af_flushed f) (af_text f)"

text \<open>
  \<open>fwrite_unlocked\<close> reads \<open>len\<close> bytes, takes \<open>fst answer\<close> of them at most, and leaves at most \<open>snd answer\<close> bytes, and never
  more than fit, in the stream's buffer.
\<close>

definition af_write :: "nat \<times> nat \<Rightarrow> string \<Rightarrow> nat \<Rightarrow> append_file \<Rightarrow> (nat \<times> append_file) res" where
  "af_write answer mem len f =
     (if af_closed f \<or> af_freed f then Inl UseAfterFree
      else if len \<le> length mem
      then let n = min (fst answer) len; t = af_text f @ take n mem
           in Inr (n, f\<lparr>af_text := t, af_flushed := max (af_flushed f) (length t - min (snd answer) stream_size)\<rparr>)
      else Inl OutOfBounds)"

definition first_answer :: "nat \<Rightarrow> (nat \<times> nat) list \<Rightarrow> nat \<times> nat" where
  "first_answer len answers = (case answers of [] \<Rightarrow> (len, stream_size) | a # _ \<Rightarrow> a)"

text \<open>The loop over \<open>remain\<close>; when no answers are left, \<open>fwrite\<close> takes everything and leaves in the buffer what fits.\<close>

fun af_append_rest :: "string \<Rightarrow> nat \<Rightarrow> (nat \<times> nat) list \<Rightarrow> append_file \<Rightarrow> append_file res" where
  "af_append_rest mem remain [] f =
     (if remain > 0 then bindR (af_write (remain, stream_size) mem remain f) (\<lambda>(x, f1). Inr f1) else Inr f)"
| "af_append_rest mem remain (a # as) f =
     (if remain > 0
      then bindR (af_write a mem remain f) (\<lambda>(x, f1).
        if x = 0 then Inr f1 else af_append_rest mem (szsub remain x) as f1)
      else Inr f)"

definition af_append :: "(nat \<times> nat) list \<Rightarrow> string \<Rightarrow> nat \<Rightarrow> append_file \<Rightarrow> append_file res" where
  "af_append answers mem len f =
     bindR (af_write (first_answer len answers) mem len f) (\<lambda>(n, f1).
       bindR (af_append_rest mem (szsub n len) (tl answers) f1) (\<lambda>f2.
         Inr (f2\<lparr>writtenBytes := szadd (writtenBytes f2) len\<rparr>)))"

definition af_append_cstr :: "(nat \<times> nat) list \<Rightarrow> string \<Rightarrow> append_file \<Rightarrow> append_file res" where
  "af_append_cstr answers mem f =
     (case memchr CHR 0x00 mem of None \<Rightarrow> Inl OutOfBounds | Some n \<Rightarrow> af_append answers mem n f)"

definition af_flush :: "append_file \<Rightarrow> append_file res" where
  "af_flush f = (if af_closed f \<or> af_freed f then Inl UseAfterFree else Inr (f\<lparr>af_flushed := length (af_text f)\<rparr>))"

definition WrittenBytes :: "append_file \<Rightarrow> nat" where
  "WrittenBytes f = writtenBytes f"

definition af_close :: "append_file \<Rightarrow> append_file res" where
  "af_close f = bindR (af_flush f) (\<lambda>f1. Inr (f1\<lparr>af_closed := True\<rparr>))"

section \<open>Names of log files\<close>

text \<open>What \<open>gmtime_r\<close> and \<open>strftime\<close> make of a number of seconds since 1970.\<close>

definition leap_year :: "nat \<Rightarrow> bool" where
  "leap_year y \<longleftrightarrow> y mod 4 = 0 \<and> y mod 100 \<noteq> 0 \<or> y mod 400 = 0"

definition month_lengths :: "nat \<Rightarrow> nat list" where
  "month_lengths y = [31, if leap_year y then 29 else 28, 31, 30, 31, 30, 31, 31, 30, 31, 30, 31]"

function year_and_day :: "nat \<Rightarrow> nat \<Rightarrow> nat \<times> nat" where
  "year_and_day y d =
     (if d < sum_list (month_lengths y) then (y, d) else year_and_day (y + 1) (d - sum_list (month_lengths y)))"
  by pat_completeness auto

termination
  by (relation "measure snd") (auto simp: month_lengths_def)

declare year_and_day.simps [simp del]

fun month_and_day :: "nat list \<Rightarrow> nat \<Rightarrow> nat \<times> nat" where
  "month_and_day [] d = (0, d)"
| "month_and_day (n # ns) d = (if d < n then (0, d) else (let (m, r) = month_and_day ns (d - n) in (Suc m, r)))"

definition two_digits :: "nat \<Rightarrow> string" where
  "two_digits n = [digit_char (n div 10 mod 10), digit_char (n mod 10)]"

definition month_to_second :: "nat \<Rightarrow> nat \<Rightarrow> nat \<Rightarrow> string" where
  "month_to_second m d s = two_digits (m + 1) @ two_digits (d + 1) @ ''-''
     @ two_digits (s div 3600) @ two_digits (s div 60 mod 60) @ two_digits (s mod 60) @ ''.''"

definition time_text :: "nat \<Rightarrow> string" where
  "time_text now =
     (let (y, yd) = year_and_day 1970 (now div 86400); (m, d) = month_and_day (month_lengths y) yd
      in ''.'' @ show_nat y @ month_to_second m d (now mod 86400))"

text \<open>
  \<open>TimeStamp::toFormatString\<close> of a time after 1970 uses the same calendar. It adds eight to the hour of
  the day and leaves the day alone.
\<close>

definition six_digits :: "nat \<Rightarrow> string" where
  "six_digits n = replicate (6 - length (show_nat n)) CHR ''0'' @ show_nat n"

definition TimeStamp_toFormatString :: "nat \<Rightarrow> string" where
  "TimeStamp_toFormatString micros =
     (let second = micros div 1000000; (y, yd) = year_and_day 1970 (second div 86400);
          (m, d) = month_and_day (month_lengths y) yd; s = second mod 86400
      in replicate (4 - length (show_nat y)) CHR '' '' @ show_nat y @ two_digits (m + 1) @ two_digits (d + 1) @ '' ''
         @ two_digits (s div 3600 + 8) @ '':'' @ two_digits (s div 60 mod 60) @ '':'' @ two_digits (s mod 60) @ ''.''
         @ six_digits (micros mod 1000000))"

text \<open>\<open>gethostname\<close> fills 256 bytes or fails (\<open>None\<close>).\<close>

definition hostname :: "string option \<Rightarrow> string" where
  "hostname answer = (case answer of None \<Rightarrow> ''unknownhost'' | Some buf \<Rightarrow> takeWhile (\<lambda>c. c \<noteq> CHR 0x00) (take 255 buf))"

definition getLogFileName :: "string option \<Rightarrow> nat \<Rightarrow> string \<Rightarrow> nat \<Rightarrow> string" where
  "getLogFileName host pid basename now =
     basename @ time_text now @ hostname host @ ''.'' @ show_nat pid @ ''.log''"

section \<open>\<open>LogFile\<close>\<close>

text \<open>
  The host's name and the process id are the process's; \<open>lf_left\<close> are the files that were replaced,
  a history: \<open>file_.reset\<close> destroys their objects. What a call finds: the time \<open>append_unlocked\<close> and \<open>rollFile\<close> read, whether \<open>fopen\<close>
  succeeds, and what \<open>fwrite\<close> takes.
\<close>

record process_env =
  pe_host :: "string option"
  pe_pid :: nat

record log_env =
  le_time :: nat
  le_roll_time :: nat
  le_opened :: bool
  le_answers :: "(nat \<times> nat) list"

record log_file =
  lf_basename :: string
  flushInterval :: int
  rollSize :: int
  checkEveryN :: int
  lastRoll :: nat
  lastFlush :: nat
  startTime :: nat
  lf_count :: int
  lf_mutex :: "mutex option"
  lf_file :: "append_file option"
  lf_left :: "append_file list"

definition day_start :: "nat \<Rightarrow> nat" where
  "day_start now = now div (60 * 60 * 24) * (60 * 60 * 24)"

definition rollFile :: "process_env \<Rightarrow> log_env \<Rightarrow> log_file \<Rightarrow> (bool \<times> log_file) res" where
  "rollFile pe env lf =
     (let now = le_roll_time env;
          filename = getLogFileName (pe_host pe) (pe_pid pe) (lf_basename lf) now
      in if now > lastRoll lf
         then bindR (AppendFile_ctor (le_opened env) filename) (\<lambda>f.
           Inr (True, lf\<lparr>lastRoll := now, lastFlush := now, startTime := day_start now,
             lf_left := lf_left lf @ (case lf_file lf of None \<Rightarrow> [] | Some old \<Rightarrow> [AppendFile_free old]), lf_file := Some f\<rparr>))
         else Inr (False, lf))"

definition LogFile_ctor :: "process_env \<Rightarrow> log_env \<Rightarrow> string \<Rightarrow> int \<Rightarrow> bool \<Rightarrow> int \<Rightarrow> int \<Rightarrow> log_file res" where
  "LogFile_ctor pe env basename roll threadSafe flush check =
     cassert (CHR ''/'' \<notin> set basename)
       (bindR (rollFile pe env \<lparr>lf_basename = basename, flushInterval = flush, rollSize = roll, checkEveryN = check,
          lastRoll = 0, lastFlush = 0, startTime = 0, lf_count = 0,
          lf_mutex = (if threadSafe then Some MutexLock_ctor else None), lf_file = None, lf_left = []\<rparr>) (\<lambda>(_, lf). Inr lf))"

definition with_file :: "(append_file \<Rightarrow> append_file res) \<Rightarrow> log_file \<Rightarrow> log_file res" where
  "with_file g lf = (case lf_file lf of None \<Rightarrow> Inl NullDeref | Some f \<Rightarrow> bindR (g f) (\<lambda>f1. Inr (lf\<lparr>lf_file := Some f1\<rparr>)))"

text \<open>An \<open>int\<close> or \<open>off_t\<close> that is converted to \<open>size_t\<close>.\<close>

definition to_size :: "int \<Rightarrow> nat" where
  "to_size i = nat (i mod int size_mod)"

definition append_unlocked :: "process_env \<Rightarrow> log_env \<Rightarrow> string \<Rightarrow> int \<Rightarrow> log_file \<Rightarrow> log_file res" where
  "append_unlocked pe env mem len lf =
     bindR (with_file (af_append (le_answers env) mem (to_size len)) lf) (\<lambda>lf1.
       if WrittenBytes (the (lf_file lf1)) > to_size (rollSize lf1)
       then bindR (rollFile pe env lf1) (\<lambda>(_, lf2). Inr lf2)
       else if lf_count lf1 + 1 \<ge> checkEveryN lf1
            then let lf2 = lf1\<lparr>lf_count := 0\<rparr>
                 in if day_start (le_time env) \<noteq> startTime lf2 then bindR (rollFile pe env lf2) (\<lambda>(_, lf3). Inr lf3)
                    else if int (le_time env) - int (lastFlush lf2) > flushInterval lf2
                         then with_file af_flush (lf2\<lparr>lastFlush := le_time env\<rparr>)
                         else Inr lf2
            else Inr (lf1\<lparr>lf_count := lf_count lf1 + 1\<rparr>))"

text \<open>\<open>None\<close> is a call that blocks in the mutex.\<close>

definition lf_locked :: "tid \<Rightarrow> (log_file \<Rightarrow> log_file res) \<Rightarrow> log_file \<Rightarrow> log_file option res" where
  "lf_locked self g lf =
     (case lf_mutex lf of
        None \<Rightarrow> bindR (g lf) (\<lambda>lf1. Inr (Some lf1))
      | Some m \<Rightarrow>
          (case MutexLock_lock self m of
             None \<Rightarrow> Inr None
           | Some m1 \<Rightarrow> bindR (g (lf\<lparr>lf_mutex := Some m1\<rparr>)) (\<lambda>lf1.
               Inr (Some (lf1\<lparr>lf_mutex := map_option MutexLock_unlock (lf_mutex lf1)\<rparr>)))))"

definition LogFile_append :: "tid \<Rightarrow> process_env \<Rightarrow> log_env \<Rightarrow> string \<Rightarrow> int \<Rightarrow> log_file \<Rightarrow> log_file option res" where
  "LogFile_append self pe env logline len = lf_locked self (append_unlocked pe env logline len)"

definition LogFile_flush :: "tid \<Rightarrow> log_file \<Rightarrow> log_file option res" where
  "LogFile_flush self = lf_locked self (with_file af_flush)"


section \<open>\<open>Logger\<close>\<close>

datatype LogLevel = TRACE | DEBUG | INFO | WARN | ERROR | FATAL | NUM_LOG_LEVELS

primrec level_number :: "LogLevel \<Rightarrow> nat" where
  "level_number TRACE = 0"
| "level_number DEBUG = 1"
| "level_number INFO = 2"
| "level_number WARN = 3"
| "level_number ERROR = 4"
| "level_number FATAL = 5"
| "level_number NUM_LOG_LEVELS = 6"

definition LogLevelName :: "string list" where
  "LogLevelName = [''TRACE'', ''DEBUG'', ''INFO'', ''WARN'', ''ERROR'', ''FATAL'']"

text \<open>\<open>strrchr\<close>: the last position that holds \<open>c\<close>.\<close>

definition strrchr :: "char \<Rightarrow> string \<Rightarrow> nat option" where
  "strrchr c s = map_option (\<lambda>i. length s - 1 - i) (memchr c (rev s))"

definition CouperChr :: "string \<Rightarrow> char \<Rightarrow> string option" where
  "CouperChr arr c = map_option (\<lambda>i. drop (i + 1) arr) (strrchr c arr)"

text \<open>
  The two constructors of \<open>SourceFIle\<close>: \<open>__FILE__\<close> is an array and takes the first one; \<open>None\<close> is a
  \<open>size_\<close> the constructor does not write.
\<close>

record source_file =
  sf_data :: string
  sf_size :: "nat option"

definition SourceFIle_array :: "string \<Rightarrow> source_file" where
  "SourceFIle_array arr =
     (case memchr CHR ''/'' arr of
        None \<Rightarrow> \<lparr>sf_data = arr, sf_size = Some (length arr)\<rparr>
      | Some slash \<Rightarrow> \<lparr>sf_data = drop (slash + 1) arr, sf_size = Some (slash + 1)\<rparr>)"

definition SourceFIle_pointer :: "string \<Rightarrow> source_file" where
  "SourceFIle_pointer arr =
     (case strrchr CHR ''/'' arr of
        None \<Rightarrow> \<lparr>sf_data = arr, sf_size = None\<rparr>
      | Some slash \<Rightarrow> \<lparr>sf_data = drop (slash + 1) arr, sf_size = Some (length (drop (slash + 1) arr))\<rparr>)"

definition sf_name :: "source_file \<Rightarrow> string" where
  "sf_name sf = sf_data sf"

definition GetTimeStamp :: "int \<times> int \<Rightarrow> int" where
  "GetTimeStamp timeval = fst timeval"

text \<open>The static members, with the calls of output functions as a history.\<close>

record 'o logging =
  g_logLevel :: LogLevel
  p_outPutFUnc :: "'o option"
  lg_calls :: "('o \<times> string \<times> nat) list"

definition setOutPutFunc :: "'o option \<Rightarrow> 'o logging \<Rightarrow> 'o logging" where
  "setOutPutFunc func g = g\<lparr>p_outPutFUnc := func\<rparr>"

definition SetLogLevel :: "LogLevel \<Rightarrow> 'o logging \<Rightarrow> 'o logging" where
  "SetLogLevel lv g = g\<lparr>g_logLevel := lv\<rparr>"

definition logLevel :: "'o logging \<Rightarrow> LogLevel" where
  "logLevel g = g_logLevel g"

definition OutPut :: "string \<Rightarrow> nat \<Rightarrow> 'o logging \<Rightarrow> 'o logging" where
  "OutPut line len g = (case p_outPutFUnc g of None \<Rightarrow> g | Some func \<Rightarrow> g\<lparr>lg_calls := lg_calls g @ [(func, line, len)]\<rparr>)"

definition Logger_ctor :: "int \<times> int \<Rightarrow> source_file \<Rightarrow> LogLevel \<Rightarrow> string \<Rightarrow> string res" where
  "Logger_ctor timeval file level func =
     (if level_number level < length LogLevelName
      then Inr (show_int (GetTimeStamp timeval) @ ''-'' @ sf_name file @ ''-'' @ LogLevelName ! level_number level
             @ ''-'' @ func @ '': '')
      else Inl OutOfBounds)"

definition Logger_dtor :: "string \<Rightarrow> 'o logging \<Rightarrow> 'o logging res" where
  "Logger_dtor logBuf g =
     (let line = logBuf @ ''-[end]'' @ [CHR 0x0A]
      in case p_outPutFUnc g of
           None \<Rightarrow> Inl NullDeref
         | Some func \<Rightarrow> Inr (g\<lparr>lg_calls := lg_calls g @ [(func, line, length line)]\<rparr>))"

text \<open>The macros: the level that is compared, and the label that is passed; \<open>msg\<close> is what the statement streams.\<close>

datatype log_macro = LOG_DEBUG | LOG_TRACE | LOG_ERROR

primrec macro_level :: "log_macro \<Rightarrow> LogLevel" where
  "macro_level LOG_DEBUG = DEBUG"
| "macro_level LOG_TRACE = TRACE"
| "macro_level LOG_ERROR = ERROR"

primrec macro_label :: "log_macro \<Rightarrow> LogLevel" where
  "macro_label LOG_DEBUG = DEBUG"
| "macro_label LOG_TRACE = DEBUG"
| "macro_label LOG_ERROR = DEBUG"

definition log_statement :: "log_macro \<Rightarrow> int \<times> int \<Rightarrow> string \<Rightarrow> string \<Rightarrow> string \<Rightarrow> 'o logging \<Rightarrow> 'o logging res" where
  "log_statement mac timeval file func msg g =
     (if level_number (g_logLevel g) \<le> level_number (macro_level mac)
      then bindR (Logger_ctor timeval (SourceFIle_array file) (macro_label mac) func) (\<lambda>buf. Logger_dtor (buf @ msg) g)
      else Inr g)"

section \<open>Writing to a file\<close>

lemma to_size_small [simp]: "0 \<le> i \<Longrightarrow> i < 2 ^ 63 \<Longrightarrow> to_size i = nat i"
  by (simp add: to_size_def size_mod_def)

text \<open>A complete \<open>fwrite\<close> leaves nothing to do.\<close>

lemma af_append_full:
  assumes "\<not> af_closed f" "\<not> af_freed f" and "len \<le> length mem" and "len < size_mod" and "len \<le> fst (first_answer len answers)"
  shows "af_append answers mem len f
    = Inr (f\<lparr>af_text := af_text f @ take len mem,
        af_flushed := max (af_flushed f) (length (af_text f) + len - min (snd (first_answer len answers)) stream_size),
        writtenBytes := szadd (writtenBytes f) len\<rparr>)"
proof -
  have "af_append_rest mem 0 as g = Inr g" for as g by (cases as) simp_all
  moreover have "szsub len len = 0" using assms(4) by (simp add: szsub_def)
  ultimately show ?thesis
    using assms by (simp add: af_append_def af_write_def min_absorb2 Let_def)
qed

text \<open>After an incomplete one the remaining length wraps around, and the next \<open>fwrite\<close> reads far beyond the line.\<close>

lemma af_append_short:
  assumes "\<not> af_closed f" "\<not> af_freed f" and "fst a < len" and "len \<le> length mem" and "length mem \<le> max_size"
  shows "af_append (a # as) mem len f = Inl OutOfBounds"
proof -
  have w: "szsub (fst a) len = size_mod - (len - fst a)"
    using assms max_size_double by (intro szsub_wraps) linarith+
  have big: "size_mod - (len - fst a) > length mem"
    using assms max_size_double by linarith
  then have pos: "size_mod - (len - fst a) > 0" by linarith
  have "af_append_rest mem (size_mod - (len - fst a)) as' g = Inl OutOfBounds" if "\<not> af_closed g" "\<not> af_freed g" for as' g
    using big pos that by (cases as') (simp_all add: af_write_def)
  then show ?thesis using assms w by (simp add: af_append_def af_write_def first_answer_def min_absorb1 Let_def)
qed


section \<open>Different seconds give different names\<close>

lemma year_and_day_sum:
  "year_and_day y d = (y', r) \<Longrightarrow>
    y \<le> y' \<and> d = (\<Sum>k = y..<y'. sum_list (month_lengths k)) + r \<and> r < sum_list (month_lengths y')"
proof (induction y d rule: year_and_day.induct)
  case (1 y d)
  show ?case
  proof (cases "d < sum_list (month_lengths y)")
    case True
    with 1(2) show ?thesis by (simp add: year_and_day.simps [of y d])
  next
    case False
    with 1 have "y + 1 \<le> y' \<and> d - sum_list (month_lengths y) = (\<Sum>k = y + 1..<y'. sum_list (month_lengths k)) + r
      \<and> r < sum_list (month_lengths y')" by (simp add: year_and_day.simps [of y d])
    moreover from this have "(\<Sum>k = y..<y'. sum_list (month_lengths k))
      = sum_list (month_lengths y) + (\<Sum>k = y + 1..<y'. sum_list (month_lengths k))"
      by (simp add: sum.atLeast_Suc_lessThan)
    ultimately show ?thesis using False by linarith
  qed
qed

lemma month_and_day_sum:
  "month_and_day ns d = (m, r) \<Longrightarrow>
    d = sum_list (take m ns) + r \<and> (d < sum_list ns \<longrightarrow> m < length ns \<and> r < ns ! m)"
proof (induction ns arbitrary: d m)
  case (Cons n ns)
  show ?case
  proof (cases "d < n")
    case True
    with Cons.prems show ?thesis by auto
  next
    case False
    with Cons.prems obtain m' where m': "month_and_day ns (d - n) = (m', r)" "m = Suc m'"
      by (auto split: prod.splits)
    from Cons.IH [OF m'(1)] False m'(2) show ?thesis by auto
  qed
qed simp

lemma two_digits_inject: "a < 100 \<Longrightarrow> b < 100 \<Longrightarrow> two_digits a = two_digits b \<longleftrightarrow> a = b"
proof
  assume "a < 100" "b < 100" "two_digits a = two_digits b"
  then have "a div 10 = b div 10" "a mod 10 = b mod 10"
    by (simp_all add: two_digits_def digit_char_inject)
  then show "a = b" by (metis div_mult_mod_eq)
qed simp

lemma month_lengths_bounds:
  assumes "m < length (month_lengths y)"
  shows "m < 12 \<and> month_lengths y ! m \<le> 31"
proof -
  have "\<forall>n \<in> set (month_lengths y). n \<le> 31" by (simp add: month_lengths_def)
  with assms show ?thesis using nth_mem [OF assms] by (auto simp: month_lengths_def)
qed

text \<open>The parts of a date are small, and the date determines the second.\<close>

lemma date_parts:
  assumes "year_and_day 1970 (now div 86400) = (y, yd)" and "month_and_day (month_lengths y) yd = (m, d)"
  shows "m + 1 < 100" and "d + 1 < 100"
    and "now = ((\<Sum>k = 1970..<y. sum_list (month_lengths k)) + sum_list (take m (month_lengths y)) + d) * 86400 + now mod 86400"
proof -
  from year_and_day_sum [OF assms(1)] have y: "now div 86400 = (\<Sum>k = 1970..<y. sum_list (month_lengths k)) + yd"
    "yd < sum_list (month_lengths y)" by simp_all
  from month_and_day_sum [OF assms(2)] y(2) have m: "yd = sum_list (take m (month_lengths y)) + d"
    "m < length (month_lengths y)" "d < month_lengths y ! m" by simp_all
  from month_lengths_bounds [OF m(2)] m(3) show "m + 1 < 100" "d + 1 < 100" by simp_all
  have "now = now div 86400 * 86400 + now mod 86400" by simp
  then show "now = ((\<Sum>k = 1970..<y. sum_list (month_lengths k)) + sum_list (take m (month_lengths y)) + d) * 86400 + now mod 86400"
    unfolding y(1) m(1) by (simp only: add.assoc)
qed

lemma clock_inject:
  fixes s s' :: nat
  assumes "s div 3600 = s' div 3600" and "s div 60 mod 60 = s' div 60 mod 60" and "s mod 60 = s' mod 60"
  shows "s = s'"
proof -
  have "s div 60 = s div 3600 * 60 + s div 60 mod 60" "s' div 60 = s' div 3600 * 60 + s' div 60 mod 60"
    by (simp_all add: div_mult2_eq [of _ 60 60, simplified])
  with assms have "s div 60 = s' div 60" by simp
  with assms(3) show ?thesis by (metis div_mult_mod_eq)
qed

lemma month_to_second_inject:
  assumes eq: "month_to_second m d s = month_to_second m' d' s'"
    and small: "m + 1 < 100" "d + 1 < 100" "m' + 1 < 100" "d' + 1 < 100" "s < 86400" "s' < 86400"
  shows "m = m' \<and> d = d' \<and> s = s'"
proof -
  have clock: "t div 3600 < 100" "t div 60 mod 60 < 100" "t mod 60 < 100" if "t < 86400" for t :: nat
    using that by (auto simp: div_less_iff_less_mult intro: less_trans [OF mod_less_divisor])
  have split: "two_digits i @ xs = two_digits j @ ys \<longleftrightarrow> two_digits i = two_digits j \<and> xs = ys" for i j xs ys
    by (simp add: two_digits_def)
  have "two_digits (m + 1) = two_digits (m' + 1) \<and> two_digits (d + 1) = two_digits (d' + 1)
      \<and> two_digits (s div 3600) = two_digits (s' div 3600) \<and> two_digits (s div 60 mod 60) = two_digits (s' div 60 mod 60)
      \<and> two_digits (s mod 60) = two_digits (s' mod 60)"
    using eq unfolding month_to_second_def split by (simp add: split)
  then have "m + 1 = m' + 1" "d + 1 = d' + 1" "s div 3600 = s' div 3600" "s div 60 mod 60 = s' div 60 mod 60" "s mod 60 = s' mod 60"
    using small clock [OF small(5)] clock [OF small(6)] two_digits_inject by blast+
  then show ?thesis using clock_inject [of s s'] by simp
qed

lemma time_text_inject: "time_text a = time_text b \<longleftrightarrow> a = b"
proof
  assume eq: "time_text a = time_text b"
  obtain y yd m d where a: "year_and_day 1970 (a div 86400) = (y, yd)" "month_and_day (month_lengths y) yd = (m, d)"
    by (metis surj_pair)
  obtain y' yd' m' d' where b: "year_and_day 1970 (b div 86400) = (y', yd')" "month_and_day (month_lengths y') yd' = (m', d')"
    by (metis surj_pair)
  have len: "length (month_to_second m d (a mod 86400)) = length (month_to_second m' d' (b mod 86400))"
    by (simp add: month_to_second_def two_digits_def)
  have "show_nat y @ month_to_second m d (a mod 86400) = show_nat y' @ month_to_second m' d' (b mod 86400)"
    using eq by (simp add: time_text_def a b)
  with append_eq_append_conv [OF disjI2 [OF len]]
  have "y = y'" and rest: "month_to_second m d (a mod 86400) = month_to_second m' d' (b mod 86400)"
    by (simp_all only: show_nat_inject)
  moreover have "m = m' \<and> d = d' \<and> a mod 86400 = b mod 86400"
    by (rule month_to_second_inject [OF rest date_parts(1,2) [OF a] date_parts(1,2) [OF b]]) simp_all
  ultimately show "a = b" using date_parts(3) [OF a] date_parts(3) [OF b] by metis
qed simp

text \<open>In the evening the formatted time is no time of day.\<close>

lemma toFormatString_evening:
  "TimeStamp_toFormatString (72000 * 1000000) = ''19700101 28:00:00.000000''"
proof -
  have "year_and_day 1970 0 = (1970, 0)" by (subst year_and_day.simps) (simp add: month_lengths_def)
  moreover have "replicate 5 c = [c, c, c, c, c]" for c :: char by (simp add: numeral_eq_Suc)
  ultimately show ?thesis
    by (simp add: TimeStamp_toFormatString_def month_lengths_def six_digits_def two_digits_def show_nat.simps digit_char_def Let_def)
      (simp add: char_of_def bit_Suc_0_iff)
qed

section \<open>What the files keep\<close>

definition log_files :: "log_file \<Rightarrow> append_file list" where
  "log_files lf = lf_left lf @ (case lf_file lf of None \<Rightarrow> [] | Some f \<Rightarrow> [f])"

text \<open>All that the log file was given, whether or not it reached a file.\<close>

definition log_text :: "log_file \<Rightarrow> string" where
  "log_text lf = concat (map af_text (log_files lf))"

text \<open>The files as they are on the disk, each with what is missing at its end.\<close>

type_synonym segment = "string \<times> string"

definition segments :: "log_file \<Rightarrow> segment list" where
  "segments lf = map (\<lambda>f. (af_disk f, af_tail f)) (log_files lf)"

definition whole :: "segment list \<Rightarrow> string" where
  "whole S = concat (map (\<lambda>(d, t). d @ t) S)"

definition short_tails :: "segment list \<Rightarrow> bool" where
  "short_tails S \<longleftrightarrow> (\<forall>x \<in> set S. length (snd x) \<le> stream_size)"

text \<open>
  Writing \<open>X\<close>: files that were replaced before stay as they are; what is on the disk of the last one stays there;
  new files may follow it, and no file misses more than a stream's buffer.
\<close>

definition wrote :: "string \<Rightarrow> segment list \<Rightarrow> segment list \<Rightarrow> bool" where
  "wrote X S S' \<longleftrightarrow> (\<exists>K d t N. S = K @ [(d, t)] \<and> S' = K @ N \<and> N \<noteq> [] \<and> whole N = d @ t @ X
     \<and> prefix d (fst (hd N)) \<and> short_tails N)"

lemma whole_simps [simp]: "whole [] = []" "whole (x # S) = fst x @ snd x @ whole S" "whole (S @ S') = whole S @ whole S'"
  by (auto simp: whole_def split: prod.split)

lemma short_tails_simps [simp]:
  "short_tails []" "short_tails (x # S) \<longleftrightarrow> length (snd x) \<le> stream_size \<and> short_tails S"
  "short_tails (S @ S') \<longleftrightarrow> short_tails S \<and> short_tails S'"
  by (auto simp: short_tails_def)

lemma log_text_whole: "log_text lf = whole (segments lf)"
  by (simp add: log_text_def whole_def segments_def comp_def af_disk_def af_tail_def)

lemma wrote_whole: "wrote X S S' \<Longrightarrow> whole S' = whole S @ X"
  by (auto simp: wrote_def)

lemma wrote_trans:
  assumes "wrote X S S'" and "wrote Y S' S''"
  shows "wrote (X @ Y) S S''"
proof -
  from assms(1) obtain K d t N where N: "S = K @ [(d, t)]" "S' = K @ N" "N \<noteq> []" "whole N = d @ t @ X"
    "prefix d (fst (hd N))" "short_tails N" by (auto simp: wrote_def)
  from assms(2) obtain K2 d2 t2 M where M: "S' = K2 @ [(d2, t2)]" "S'' = K2 @ M" "M \<noteq> []" "whole M = d2 @ t2 @ Y"
    "prefix d2 (fst (hd M))" "short_tails M" by (auto simp: wrote_def)
  from N(2,3) M(1) have l: "butlast N @ [(d2, t2)] = N" "K2 = K @ butlast N"
    by (metis append_butlast_last_id last_appendR last_snoc) (metis N(2,3) M(1) butlast_append butlast_snoc)
  have "S'' = K @ (butlast N @ M)" using M(2) l(2) by simp
  moreover have "whole (butlast N) @ d2 @ t2 = d @ t @ X" using N(4) l(1) whole_simps(3) [of "butlast N" "[(d2, t2)]"] by simp
  then have "whole (butlast N @ M) = d @ t @ X @ Y" using M(4) by simp
  moreover have "prefix d (fst (hd (butlast N @ M)))"
  proof (cases "butlast N = []")
    case True
    then have "N = [(d2, t2)]" using l(1) by simp
    with N(5) M(5) True show ?thesis by (auto intro: prefix_order.trans)
  next
    case False
    then have "hd (butlast N @ M) = hd N" using l(1) by (metis hd_append2)
    with N(5) show ?thesis by simp
  qed
  moreover have "short_tails (butlast N @ M)" using N(6) M(6) l(1) short_tails_simps(3) [of "butlast N" "[(d2, t2)]"] by simp
  ultimately show ?thesis using N(1) M(3) unfolding wrote_def by (intro exI [of _ K] exI [of _ d] exI [of _ t] exI [of _ "butlast N @ M"]) simp
qed

definition file_name :: "process_env \<Rightarrow> log_file \<Rightarrow> nat \<Rightarrow> string" where
  "file_name pe lf = getLogFileName (pe_host pe) (pe_pid pe) (lf_basename lf)"

text \<open>
  There is a file, with its buffer; the objects of the files before it are gone, though no file was ever closed; no
  stream has more bytes waiting than its buffer holds; and the files carry the names of increasing seconds, the
  last of them \<open>lastRoll_\<close>.
\<close>

definition file_ok :: "append_file \<Rightarrow> bool" where
  "file_ok f \<longleftrightarrow> \<not> af_closed f \<and> af_flushed f \<le> length (af_text f) \<and> length (af_text f) \<le> af_flushed f + stream_size"

definition lf_ok :: "process_env \<Rightarrow> log_file \<Rightarrow> bool" where
  "lf_ok pe lf \<longleftrightarrow> (\<exists>f. lf_file lf = Some f \<and> \<not> af_freed f) \<and> (\<forall>f \<in> set (lf_left lf). af_freed f)
     \<and> (\<forall>f \<in> set (log_files lf). file_ok f)
     \<and> (\<exists>ts. sorted_wrt (<) (ts @ [lastRoll lf]) \<and> map af_name (log_files lf) = map (file_name pe lf) (ts @ [lastRoll lf]))"

lemma file_tail: "file_ok f \<Longrightarrow> length (af_tail f) \<le> stream_size"
  by (auto simp: file_ok_def af_tail_def)

lemma disk_tail: "af_disk f @ af_tail f = af_text f"
  by (simp add: af_disk_def af_tail_def)

lemma lf_okD:
  assumes "lf_ok pe lf"
  obtains f where "lf_file lf = Some f" "\<not> af_freed f" "file_ok f" "log_files lf = lf_left lf @ [f]"
    "\<forall>g \<in> set (lf_left lf). af_freed g \<and> file_ok g"
  using assms by (auto simp: lf_ok_def log_files_def)

lemma file_name_inject: "file_name pe lf a = file_name pe lf b \<longleftrightarrow> a = b"
proof -
  have "time_text a @ zs = time_text b @ zs \<longleftrightarrow> a = b" for zs by (simp add: time_text_inject)
  then show ?thesis by (simp add: file_name_def getLogFileName_def)
qed

lemma names_distinct:
  assumes "lf_ok pe lf"
  shows "distinct (map af_name (log_files lf))"
proof -
  from assms obtain ts where ts: "sorted_wrt (<) (ts @ [lastRoll lf])" "map af_name (log_files lf) = map (file_name pe lf) (ts @ [lastRoll lf])"
    unfolding lf_ok_def by blast
  from ts(1) have "distinct (ts @ [lastRoll lf])" by (simp only: strict_sorted_iff)
  then show ?thesis unfolding ts(2) distinct_map by (simp add: inj_on_def file_name_inject)
qed

text \<open>A change of the current file that keeps its name.\<close>

lemma lf_ok_put:
  assumes ok: "lf_ok pe lf" and f: "lf_file lf = Some f"
    and g: "af_name g = af_name f" "\<not> af_freed g" "file_ok g"
  shows "lf_ok pe (lf\<lparr>lf_file := Some g\<rparr>)"
  using assms by (auto simp: lf_ok_def log_files_def file_name_def)

lemma put_wrote:
  assumes ok: "lf_ok pe lf" and f: "lf_file lf = Some f"
    and g: "af_text g = af_text f @ X" "af_flushed f \<le> af_flushed g" "file_ok g"
  shows "wrote X (segments lf) (segments (lf\<lparr>lf_file := Some g\<rparr>))"
proof -
  let ?K = "map (\<lambda>f. (af_disk f, af_tail f)) (lf_left lf)"
  have "segments lf = ?K @ [(af_disk f, af_tail f)]" "segments (lf\<lparr>lf_file := Some g\<rparr>) = ?K @ [(af_disk g, af_tail g)]"
    using f by (simp_all add: segments_def log_files_def)
  moreover have "whole [(af_disk g, af_tail g)] = af_disk f @ af_tail f @ X"
    using disk_tail [of f] disk_tail [of g] g(1) by simp
  moreover have "file_ok f" using lf_okD [OF ok] f by auto
  then have "af_disk f = take (af_flushed f) (af_disk g)" using g(1,2) by (simp add: af_disk_def file_ok_def min_absorb1)
  then have "prefix (af_disk f) (af_disk g)" by (metis take_is_prefix)
  ultimately show ?thesis using file_tail [OF g(3)] unfolding wrote_def by (intro exI conjI) (assumption | simp)+
qed

lemma segments_upd [simp]:
  "segments (lf\<lparr>lf_count := n\<rparr>) = segments lf" "segments (lf\<lparr>lastFlush := t\<rparr>) = segments lf" "segments (lf\<lparr>lf_mutex := mx\<rparr>) = segments lf"
  by (simp_all add: segments_def log_files_def)

lemma lf_ok_upd [simp]:
  "lf_ok pe (lf\<lparr>lf_count := n\<rparr>) = lf_ok pe lf" "lf_ok pe (lf\<lparr>lastFlush := t\<rparr>) = lf_ok pe lf" "lf_ok pe (lf\<lparr>lf_mutex := mx\<rparr>) = lf_ok pe lf"
  by (simp_all add: lf_ok_def log_files_def file_name_def)

lemma wrote_refl:
  assumes "lf_ok pe lf" shows "wrote [] (segments lf) (segments lf)"
proof -
  from assms obtain f where f: "lf_file lf = Some f" "file_ok f" by (rule lf_okD)
  then have "lf\<lparr>lf_file := Some f\<rparr> = lf" by simp
  with put_wrote [OF assms f(1), of f "[]"] f(2) show ?thesis by simp
qed

lemma rollFile_rolls:
  assumes ok: "lf_ok pe lf" and opened: "le_opened env" and late: "le_roll_time env > lastRoll lf" and f: "lf_file lf = Some f"
  shows "\<exists>lf' g. rollFile pe env lf = Inr (True, lf') \<and> lf_ok pe lf' \<and> wrote [] (segments lf) (segments lf')
    \<and> lf_left lf' = lf_left lf @ [AppendFile_free f] \<and> lf_file lf' = Some g \<and> af_text g = [] \<and> lf_mutex lf' = lf_mutex lf
    \<and> rollSize lf' = rollSize lf"
proof -
  from ok f have fok: "\<not> af_freed f" "file_ok f" "\<forall>g \<in> set (lf_left lf). af_freed g \<and> file_ok g" by (auto elim: lf_okD)
  from ok obtain ts where ts: "sorted_wrt (<) (ts @ [lastRoll lf])" "map af_name (log_files lf) = map (file_name pe lf) (ts @ [lastRoll lf])"
    unfolding lf_ok_def by blast
  let ?now = "le_roll_time env"
  let ?g = "\<lparr>af_name = file_name pe lf ?now, af_text = [], af_flushed = 0, af_closed = False, af_freed = False, writtenBytes = 0\<rparr>"
  let ?lf = "lf\<lparr>lastRoll := ?now, lastFlush := ?now, startTime := day_start ?now, lf_left := lf_left lf @ [AppendFile_free f], lf_file := Some ?g\<rparr>"
  have roll: "rollFile pe env lf = Inr (True, ?lf)"
    using late opened f by (simp add: rollFile_def AppendFile_ctor_def file_name_def Let_def)
  have files: "log_files ?lf = lf_left lf @ [AppendFile_free f, ?g]" "log_files lf = lf_left lf @ [f]" using f by (simp_all add: log_files_def)
  have fn: "file_name pe ?lf = file_name pe lf" by (simp add: file_name_def fun_eq_iff)
  have free: "file_ok (AppendFile_free f)" "af_name (AppendFile_free f) = af_name f" "af_freed (AppendFile_free f)"
    "af_disk (AppendFile_free f) = af_disk f" "af_tail (AppendFile_free f) = af_tail f"
    using fok(2) by (simp_all add: AppendFile_free_def file_ok_def af_disk_def af_tail_def)
  have new: "file_ok ?g" by (simp add: file_ok_def)
  have "sorted_wrt (<) ((ts @ [lastRoll lf]) @ [?now])"
    using ts(1) late unfolding sorted_wrt_append [of _ "ts @ [lastRoll lf]"] by (fastforce simp: sorted_wrt_append)
  moreover have "map af_name (log_files ?lf) = map (file_name pe ?lf) ((ts @ [lastRoll lf]) @ [lastRoll ?lf])"
    using ts(2) unfolding files fn by (simp add: free)
  ultimately have "\<exists>ts. sorted_wrt (<) (ts @ [lastRoll ?lf]) \<and> map af_name (log_files ?lf) = map (file_name pe ?lf) (ts @ [lastRoll ?lf])"
    by (intro exI [of _ "ts @ [lastRoll lf]"]) simp
  moreover have "\<forall>h \<in> set (log_files ?lf). file_ok h" "\<forall>h \<in> set (lf_left ?lf). af_freed h"
    unfolding files using fok free new by simp_all
  ultimately have "lf_ok pe ?lf" unfolding lf_ok_def by simp
  moreover let ?K = "map (\<lambda>f. (af_disk f, af_tail f)) (lf_left lf)"
  have "segments lf = ?K @ [(af_disk f, af_tail f)]" "segments ?lf = ?K @ [(af_disk f, af_tail f), ([], [])]"
    unfolding segments_def files by (simp_all add: free) (simp_all add: af_disk_def af_tail_def)
  then have "wrote [] (segments lf) (segments ?lf)"
    using file_tail [OF fok(2)] unfolding wrote_def by (intro exI conjI) (assumption | simp)+
  ultimately show ?thesis using roll by (intro exI [of _ ?lf] exI [of _ ?g]) simp
qed

lemma rollFile_keeps:
  assumes ok: "lf_ok pe lf" and opened: "le_opened env"
  shows "\<exists>b lf'. rollFile pe env lf = Inr (b, lf') \<and> lf_ok pe lf' \<and> wrote [] (segments lf) (segments lf') \<and> lf_mutex lf' = lf_mutex lf"
proof (cases "le_roll_time env > lastRoll lf")
  case False
  then show ?thesis using ok wrote_refl [OF ok] by (intro exI [of _ False]) (simp add: rollFile_def Let_def)
next
  case True
  from ok obtain f where "lf_file lf = Some f" by (rule lf_okD)
  from rollFile_rolls [OF ok opened True this] show ?thesis by blast
qed

lemma with_file_append:
  assumes ok: "lf_ok pe lf" and len: "len \<le> length mem" "len < size_mod" and full: "len \<le> fst (first_answer len answers)"
  shows "\<exists>lf'. with_file (af_append answers mem len) lf = Inr lf' \<and> lf_ok pe lf' \<and> wrote (take len mem) (segments lf) (segments lf')
    \<and> lf_mutex lf' = lf_mutex lf \<and> lf_file lf' \<noteq> None"
proof -
  from ok obtain f where f: "lf_file lf = Some f" "\<not> af_freed f" "file_ok f" by (rule lf_okD)
  let ?g = "f\<lparr>af_text := af_text f @ take len mem,
        af_flushed := max (af_flushed f) (length (af_text f) + len - min (snd (first_answer len answers)) stream_size),
        writtenBytes := szadd (writtenBytes f) len\<rparr>"
  have g: "file_ok ?g" using f(3) len by (auto simp: file_ok_def)
  have "with_file (af_append answers mem len) lf = Inr (lf\<lparr>lf_file := Some ?g\<rparr>)"
    using af_append_full [OF _ f(2) len full] f by (simp add: with_file_def file_ok_def)
  moreover have "lf_ok pe (lf\<lparr>lf_file := Some ?g\<rparr>)" by (rule lf_ok_put [OF ok f(1)]) (use f g in simp_all)
  moreover have "wrote (take len mem) (segments lf) (segments (lf\<lparr>lf_file := Some ?g\<rparr>))"
    by (rule put_wrote [OF ok f(1)]) (use g in simp_all)
  ultimately show ?thesis by (intro exI [of _ "lf\<lparr>lf_file := Some ?g\<rparr>"]) simp
qed

definition all_flushed :: "log_file \<Rightarrow> bool" where
  "all_flushed lf \<longleftrightarrow> (\<exists>f. lf_file lf = Some f \<and> af_tail f = [])"

lemma with_file_flush:
  assumes ok: "lf_ok pe lf"
  shows "\<exists>lf'. with_file af_flush lf = Inr lf' \<and> lf_ok pe lf' \<and> wrote [] (segments lf) (segments lf') \<and> lf_mutex lf' = lf_mutex lf
    \<and> all_flushed lf' \<and> lf_left lf' = lf_left lf"
proof -
  from ok obtain f where f: "lf_file lf = Some f" "\<not> af_freed f" "file_ok f" by (rule lf_okD)
  let ?g = "f\<lparr>af_flushed := length (af_text f)\<rparr>"
  have g: "file_ok ?g" using f(3) by (simp add: file_ok_def)
  have "with_file af_flush lf = Inr (lf\<lparr>lf_file := Some ?g\<rparr>)" using f by (simp add: with_file_def af_flush_def file_ok_def)
  moreover have "lf_ok pe (lf\<lparr>lf_file := Some ?g\<rparr>)" by (rule lf_ok_put [OF ok f(1)]) (use f g in simp_all)
  moreover have "wrote [] (segments lf) (segments (lf\<lparr>lf_file := Some ?g\<rparr>))"
    by (rule put_wrote [OF ok f(1)]) (use f(3) g in \<open>simp_all add: file_ok_def\<close>)
  ultimately show ?thesis by (intro exI [of _ "lf\<lparr>lf_file := Some ?g\<rparr>"]) (simp add: all_flushed_def af_tail_def)
qed

lemma append_unlocked_keeps:
  assumes ok: "lf_ok pe lf" and len: "n \<le> length mem" "n \<le> max_size" and opened: "le_opened env"
    and full: "n \<le> fst (first_answer n (le_answers env))"
  shows "\<exists>lf'. append_unlocked pe env mem (int n) lf = Inr lf' \<and> lf_ok pe lf' \<and> wrote (take n mem) (segments lf) (segments lf')
    \<and> lf_mutex lf' = lf_mutex lf"
proof -
  have n: "to_size (int n) = n" using len(2) by (simp add: max_size_def)
  have "n < size_mod" using len(2) max_size_lt by linarith
  from with_file_append [OF ok len(1) this full] obtain lf1 where lf1: "with_file (af_append (le_answers env) mem n) lf = Inr lf1"
    "lf_ok pe lf1" "wrote (take n mem) (segments lf) (segments lf1)" "lf_mutex lf1 = lf_mutex lf" by blast
  note then_nothing = wrote_trans [OF lf1(3), of "[]", unfolded append_Nil2]
  let ?lf2 = "lf1\<lparr>lf_count := 0\<rparr>"
  have ok2: "lf_ok pe ?lf2" and ok3: "lf_ok pe (?lf2\<lparr>lastFlush := le_time env\<rparr>)" using lf1(2) by simp_all
  show ?thesis
    using rollFile_keeps [OF lf1(2) opened] rollFile_keeps [OF ok2 opened] with_file_flush [OF ok3] lf1 then_nothing
    by (auto simp: append_unlocked_def n Let_def)
qed

text \<open>Whatever the environment does: a call that returns has written the line to the stream.\<close>

lemma rollFile_returned:
  assumes "lf_ok pe lf" and r: "rollFile pe env lf = Inr (b, lf')"
  shows "lf_ok pe lf' \<and> wrote [] (segments lf) (segments lf') \<and> lf_mutex lf' = lf_mutex lf"
proof (cases "le_opened env \<or> \<not> le_roll_time env > lastRoll lf")
  case True
  have "rollFile pe env lf = Inr (False, lf)" if "\<not> le_roll_time env > lastRoll lf" using that by (simp add: rollFile_def Let_def)
  with True r rollFile_keeps [OF assms(1), of env] assms(1) wrote_refl [OF assms(1)] show ?thesis by fastforce
next
  case False
  with r show ?thesis by (simp add: rollFile_def AppendFile_ctor_def Let_def)
qed

lemma append_unlocked_returned:
  assumes ok: "lf_ok pe lf" and len: "n \<le> length mem" "length mem \<le> max_size" and r: "append_unlocked pe env mem (int n) lf = Inr lf'"
  shows "lf_ok pe lf' \<and> wrote (take n mem) (segments lf) (segments lf') \<and> lf_mutex lf' = lf_mutex lf"
proof -
  have n: "to_size (int n) = n" "n < size_mod" using len max_size_lt by (simp_all add: max_size_def size_mod_def)
  from ok obtain f where f: "lf_file lf = Some f" "\<not> af_freed f" "file_ok f" by (rule lf_okD)
  have full: "n \<le> fst (first_answer n (le_answers env))"
  proof (cases "le_answers env")
    case (Cons a as)
    with r af_append_short [OF _ f(2) _ len, of a as] f(3) show ?thesis
      by (cases "n \<le> fst a") (auto simp: append_unlocked_def n with_file_def f(1) first_answer_def file_ok_def)
  qed (simp add: first_answer_def)
  from with_file_append [OF ok len(1) n(2) full] obtain lf1 where lf1: "with_file (af_append (le_answers env) mem n) lf = Inr lf1"
    "lf_ok pe lf1" "wrote (take n mem) (segments lf) (segments lf1)" "lf_mutex lf1 = lf_mutex lf" by blast
  note then_nothing = wrote_trans [OF lf1(3), of "[]", unfolded append_Nil2]
  let ?lf2 = "lf1\<lparr>lf_count := 0\<rparr>"
  have ok2: "lf_ok pe ?lf2" and ok3: "lf_ok pe (?lf2\<lparr>lastFlush := le_time env\<rparr>)" using lf1(2) by simp_all
  from r show ?thesis
    using rollFile_returned [OF lf1(2)] rollFile_returned [OF ok2] with_file_flush [OF ok3] lf1 then_nothing
    by (auto simp: append_unlocked_def n Let_def cpp_res split: if_splits)
qed

text \<open>With or without a mutex, as long as it is free, and it is free again afterwards.\<close>

definition lf_free :: "log_file \<Rightarrow> bool" where
  "lf_free lf \<longleftrightarrow> lf_mutex lf = None \<or> lf_mutex lf = Some MutexLock_ctor"

lemma lf_locked_keeps:
  assumes free: "lf_free lf" and Q: "\<And>lf mx. Q lf \<Longrightarrow> Q (lf\<lparr>lf_mutex := mx\<rparr>)"
    and g: "\<And>mx. \<exists>lf'. g (lf\<lparr>lf_mutex := mx\<rparr>) = Inr lf' \<and> lf_ok pe lf' \<and> Q lf' \<and> lf_mutex lf' = mx"
  shows "\<exists>lf'. lf_locked self g lf = Inr (Some lf') \<and> lf_ok pe lf' \<and> Q lf' \<and> lf_free lf'"
proof (cases "lf_mutex lf")
  case None
  then have "lf\<lparr>lf_mutex := None\<rparr> = lf" by simp
  with g [of None] None show ?thesis by (auto simp: lf_locked_def lf_free_def)
next
  case (Some m)
  then have m: "m = MutexLock_ctor" using free by (simp add: lf_free_def)
  have lock: "MutexLock_lock self m = Some \<lparr>mtx_owner = Some self, mtx_holder = self\<rparr>" by (simp add: m mutex_defs)
  have unlock: "MutexLock_unlock \<lparr>mtx_owner = Some self, mtx_holder = self\<rparr> = MutexLock_ctor" by (simp add: mutex_defs)
  from g [of "Some \<lparr>mtx_owner = Some self, mtx_holder = self\<rparr>"] obtain lf' where
    lf': "g (lf\<lparr>lf_mutex := Some \<lparr>mtx_owner = Some self, mtx_holder = self\<rparr>\<rparr>) = Inr lf'" "lf_ok pe lf'" "Q lf'"
      "lf_mutex lf' = Some \<lparr>mtx_owner = Some self, mtx_holder = self\<rparr>" by blast
  with Some Q [OF lf'(3)] show ?thesis by (simp add: lf_locked_def lf_free_def lock unlock)
qed

lemma LogFile_append_keeps:
  assumes "lf_ok pe lf" and "lf_free lf" and "n \<le> length mem" "n \<le> max_size" and "le_opened env"
    and "n \<le> fst (first_answer n (le_answers env))"
  shows "\<exists>lf'. LogFile_append self pe env mem (int n) lf = Inr (Some lf') \<and> lf_ok pe lf'
    \<and> wrote (take n mem) (segments lf) (segments lf') \<and> lf_free lf'"
  unfolding LogFile_append_def
  using append_unlocked_keeps [of pe "lf\<lparr>lf_mutex := mx\<rparr>" n mem env for mx] assms
  by (intro lf_locked_keeps [where Q = "\<lambda>lf'. wrote (take n mem) (segments lf) (segments lf')"]) auto

lemma LogFile_flush_keeps:
  assumes "lf_ok pe lf" and "lf_free lf"
  shows "\<exists>lf'. LogFile_flush self lf = Inr (Some lf') \<and> lf_ok pe lf' \<and> (wrote [] (segments lf) (segments lf')
    \<and> all_flushed lf' \<and> lf_left lf' = lf_left lf) \<and> lf_free lf'"
  unfolding LogFile_flush_def
proof (rule lf_locked_keeps [where Q = "\<lambda>lf'. wrote [] (segments lf) (segments lf') \<and> all_flushed lf' \<and> lf_left lf' = lf_left lf"])
  fix mx
  from with_file_flush [of pe "lf\<lparr>lf_mutex := mx\<rparr>"] assms(1) show "\<exists>lf'. with_file af_flush (lf\<lparr>lf_mutex := mx\<rparr>) = Inr lf' \<and> lf_ok pe lf'
      \<and> (wrote [] (segments lf) (segments lf') \<and> all_flushed lf' \<and> lf_left lf' = lf_left lf) \<and> lf_mutex lf' = mx" by auto
qed (use assms(2) in \<open>auto simp: all_flushed_def\<close>)

lemma LogFile_append_short:
  assumes ok: "lf_ok pe lf" and free: "lf_free lf" and short: "le_answers env = a # as" "fst a < n" and len: "n \<le> length mem" "length mem \<le> max_size"
  shows "LogFile_append self pe env mem (int n) lf = Inl OutOfBounds"
proof -
  from ok obtain f where f: "lf_file lf = Some f" "\<not> af_freed f" "file_ok f" by (rule lf_okD)
  have n: "to_size (int n) = n" using len by (simp add: max_size_def)
  have "append_unlocked pe env mem (int n) (lf\<lparr>lf_mutex := mx\<rparr>) = Inl OutOfBounds" for mx
    using af_append_short [OF _ f(2) short(2) len] f(3) by (simp add: append_unlocked_def with_file_def f(1) n short(1) file_ok_def)
  from this [of "lf_mutex lf"] this show ?thesis
    using free by (auto simp: LogFile_append_def lf_locked_def lf_free_def MutexLock_lock_def MutexLock_ctor_def split: option.splits)
qed

text \<open>An \<open>append\<close> that exceeds the roll size: all that is in the stream's buffer then, the line included, is lost.\<close>

definition pending_bytes :: "append_file \<Rightarrow> nat" where
  "pending_bytes f = length (af_text f) - af_flushed f"

lemma append_rolls:
  assumes ok: "lf_ok pe lf" and free: "lf_free lf" and f: "lf_file lf = Some f" and env: "le_opened env" "le_answers env = []"
    and late: "lastRoll lf < le_roll_time env" and big: "to_size (rollSize lf) < szadd (writtenBytes f) (length line)"
    and room: "pending_bytes f + length line \<le> stream_size"
  shows "\<exists>lf' g h. LogFile_append self pe env line (int (length line)) lf = Inr (Some lf')
    \<and> lf_left lf' = lf_left lf @ [g] \<and> lf_file lf' = Some h \<and> af_text h = [] \<and> af_freed g \<and> af_name g = af_name f
    \<and> af_disk g = af_disk f \<and> af_tail g = af_tail f @ line"
proof -
  from ok f have fok: "\<not> af_freed f" "file_ok f" by (auto elim: lf_okD)
  let ?n = "length line" and ?lf = "\<lambda>mx. lf\<lparr>lf_mutex := mx\<rparr>"
  have small: "?n < size_mod" using room by (simp add: stream_size_def size_mod_def)
  have n: "to_size (int ?n) = ?n" using room by (simp add: stream_size_def)
  let ?g = "f\<lparr>af_text := af_text f @ line, writtenBytes := szadd (writtenBytes f) ?n\<rparr>"
  have "length (af_text f) + ?n - stream_size \<le> af_flushed f"
    using room fok(2) unfolding pending_bytes_def file_ok_def by linarith
  then have "max (af_flushed f) (length (af_text f) + ?n - stream_size) = af_flushed f" by (rule max_absorb1)
  then have app: "af_append [] line ?n f = Inr ?g"
    using af_append_full [of f ?n line "[]"] fok small by (simp add: first_answer_def file_ok_def)
  have g: "file_ok ?g" "af_disk ?g = af_disk f" "af_tail ?g = af_tail f @ line"
    using fok(2) room by (simp_all add: file_ok_def af_disk_def af_tail_def pending_bytes_def)
  have run: "\<exists>lf' h. append_unlocked pe env line (int ?n) (?lf mx) = Inr lf' \<and> lf_mutex lf' = mx
    \<and> lf_left lf' = lf_left lf @ [AppendFile_free ?g] \<and> lf_file lf' = Some h \<and> af_text h = []" for mx
  proof -
    let ?m = "(?lf mx)\<lparr>lf_file := Some ?g\<rparr>"
    have "lf_ok pe ?m" by (rule lf_ok_put [of pe _ f]) (use ok f fok g in simp_all)
    from rollFile_rolls [OF this env(1)] late obtain lf' h where roll: "rollFile pe env ?m = Inr (True, lf')"
      "lf_left lf' = lf_left lf @ [AppendFile_free ?g]" "lf_file lf' = Some h" "af_text h = []" "lf_mutex lf' = mx" by auto
    have "with_file (af_append (le_answers env) line (to_size (int ?n))) (?lf mx) = Inr ?m"
      using app f by (simp add: with_file_def n env(2))
    with roll big show ?thesis by (simp add: append_unlocked_def WrittenBytes_def)
  qed
  obtain lf' h where lf': "LogFile_append self pe env line (int ?n) lf = Inr (Some lf')"
    "lf_left lf' = lf_left lf @ [AppendFile_free ?g]" "lf_file lf' = Some h" "af_text h = []"
  proof (cases "lf_mutex lf")
    case None
    then have "?lf None = lf" by simp
    with run [of None] None that show thesis by (auto simp: LogFile_append_def lf_locked_def)
  next
    case (Some m)
    then have m: "m = MutexLock_ctor" using free by (simp add: lf_free_def)
    have lock: "MutexLock_lock self m = Some \<lparr>mtx_owner = Some self, mtx_holder = self\<rparr>" by (simp add: m mutex_defs)
    from run [of "Some \<lparr>mtx_owner = Some self, mtx_holder = self\<rparr>"] Some that show thesis
      by (auto simp: LogFile_append_def lf_locked_def lock)
  qed
  then show ?thesis using g by (intro exI [of _ lf'] exI [of _ "AppendFile_free ?g"] exI [of _ h])
    (simp add: AppendFile_free_def af_disk_def af_tail_def)
qed

lemma LogFile_ctor_ok:
  assumes "CHR ''/'' \<notin> set basename" and "0 < le_roll_time env" and "le_opened env"
  shows "\<exists>lf. LogFile_ctor pe env basename roll threadSafe flush check = Inr lf \<and> lf_ok pe lf \<and> lf_free lf \<and> segments lf = [([], [])]
    \<and> all_flushed lf \<and> lf_left lf = []"
proof -
  let ?now = "le_roll_time env"
  have one: "\<exists>ts. sorted_wrt (<) (ts @ [t]) \<and> [nm t] = map nm (ts @ [t])" for t :: nat and nm :: "nat \<Rightarrow> string"
    by (rule exI [of _ "[]"]) simp
  show ?thesis
    using assms one [of ?now] by (simp add: LogFile_ctor_def rollFile_def AppendFile_ctor_def lf_ok_def lf_free_def log_files_def segments_def
      file_name_def file_ok_def af_disk_def af_tail_def all_flushed_def Let_def)
qed

fun append_lines :: "tid \<Rightarrow> process_env \<Rightarrow> (log_env \<times> string) list \<Rightarrow> log_file \<Rightarrow> log_file option res" where
  "append_lines self pe [] lf = Inr (Some lf)"
| "append_lines self pe ((env, line) # script) lf =
     bindR (LogFile_append self pe env line (int (length line)) lf) (\<lambda>r.
       case r of None \<Rightarrow> Inr None | Some lf1 \<Rightarrow> append_lines self pe script lf1)"

definition disk_takes_all :: "(log_env \<times> string) list \<Rightarrow> bool" where
  "disk_takes_all script \<longleftrightarrow> (\<forall>(env, line) \<in> set script. le_opened env \<and> length line \<le> max_size
     \<and> length line \<le> fst (first_answer (length line) (le_answers env)))"

lemma append_lines_keeps:
  assumes "lf_ok pe lf" and "lf_free lf" and "disk_takes_all script"
  shows "\<exists>lf'. append_lines self pe script lf = Inr (Some lf') \<and> lf_ok pe lf' \<and> lf_free lf'
    \<and> wrote (concat (map snd script)) (segments lf) (segments lf')"
  using assms
proof (induction script arbitrary: lf)
  case Nil
  with wrote_refl [of pe lf] show ?case by simp
next
  case (Cons x script)
  obtain env line where x: "x = (env, line)" by fastforce
  from Cons.prems LogFile_append_keeps [of pe lf "length line" line env self] obtain lf1 where
    lf1: "LogFile_append self pe env line (int (length line)) lf = Inr (Some lf1)" "lf_ok pe lf1" "lf_free lf1"
      "wrote line (segments lf) (segments lf1)" by (auto simp: disk_takes_all_def x)
  from Cons.IH [OF lf1(2,3)] Cons.prems(3) obtain lf' where
    "append_lines self pe script lf1 = Inr (Some lf')" "lf_ok pe lf'" "lf_free lf'"
    "wrote (concat (map snd script)) (segments lf1) (segments lf')" by (auto simp: disk_takes_all_def)
  with lf1(1) wrote_trans [OF lf1(4)] show ?case by (simp add: x)
qed

text \<open>Log statements: what is printed, and that all three macros print the label of \<open>DEBUG\<close>.\<close>

lemma log_statement_line:
  "log_statement mac tv file func msg g =
    (if level_number (g_logLevel g) \<le> level_number (macro_level mac)
     then (case p_outPutFUnc g of None \<Rightarrow> Inl NullDeref
       | Some o' \<Rightarrow> Inr (g\<lparr>lg_calls := lg_calls g
           @ [(let line = show_int (fst tv) @ ''-'' @ sf_data (SourceFIle_array file) @ ''-DEBUG-'' @ func @ '': '' @ msg @ ''-[end]'' @ [CHR 0x0A]
               in (o', line, length line))]\<rparr>))
     else Inr g)"
  by (cases mac) (auto simp: log_statement_def Logger_ctor_def Logger_dtor_def LogLevelName_def sf_name_def GetTimeStamp_def Let_def
      split: option.splits)

lemma source_file_names:
  "CHR ''/'' \<notin> set d \<Longrightarrow> CHR ''/'' \<notin> set f \<Longrightarrow> sf_data (SourceFIle_array (d @ ''/'' @ r @ ''/'' @ f)) = r @ ''/'' @ f"
  "CHR ''/'' \<notin> set f \<Longrightarrow> sf_data (SourceFIle_pointer (d @ ''/'' @ f)) = f"
proof -
  have found: "memchr c (xs @ c # ys) = Some (length xs)" if "c \<notin> set xs" for c and xs ys :: string
    using that by (induction xs) auto
  show "sf_data (SourceFIle_array (d @ ''/'' @ r @ ''/'' @ f)) = r @ ''/'' @ f" if "CHR ''/'' \<notin> set d" "CHR ''/'' \<notin> set f"
    using found [OF that(1), of "r @ ''/'' @ f"] by (simp add: SourceFIle_array_def)
  show "sf_data (SourceFIle_pointer (d @ ''/'' @ f)) = f" if "CHR ''/'' \<notin> set f"
    using found [of "CHR ''/''" "rev f" "rev d"] that by (simp add: SourceFIle_pointer_def strrchr_def)
qed

section \<open>Properties\<close>

text \<open>
  C39. Log files. From its construction on, with or without a mutex, whatever the clock reads, a log
  file returns from every \<open>append\<close>, as long as \<open>fopen\<close> succeeds and \<open>fwrite\<close> takes what it is given: what is on the
  disk of its files, in the order they were opened, together with what is missing at the end of each, makes up the lines in the order
  of the calls, and each file misses at most the 60 KB of its stream's buffer. A \<open>flush\<close> puts all of the current file on the disk, so as
  long as no file is replaced it keeps every line. But a replaced file is never flushed nor closed, and its stream's buffer is
  destroyed with its object: an \<open>append\<close> that exceeds the roll size loses all that is in the buffer by then, its
  own line included. No two files share a name. And after one \<open>fwrite\<close> that takes less, the remaining length is computed the wrong way
  around, wraps, and the next \<open>fwrite\<close> reads outside of the line.
\<close>

theorem log_file_keeps_lines:
  assumes "CHR ''/'' \<notin> set basename" and "0 < le_roll_time env0" and "le_opened env0" and "disk_takes_all script"
  shows "\<exists>lf0 lf f. LogFile_ctor pe env0 basename roll threadSafe flush check = Inr lf0
    \<and> append_lines self pe script lf0 = Inr (Some lf) \<and> lf_file lf = Some f
    \<and> concat (map (\<lambda>f. af_disk f @ af_tail f) (lf_left lf @ [f])) = concat (map snd script)
    \<and> list_all (\<lambda>f. length (af_tail f) \<le> 61440) (lf_left lf @ [f])
    \<and> (\<exists>lf' f'. LogFile_flush self lf = Inr (Some lf') \<and> lf_left lf' = lf_left lf \<and> lf_file lf' = Some f'
        \<and> af_disk f' = af_disk f @ af_tail f \<and> (lf_left lf = [] \<longrightarrow> af_disk f' = concat (map snd script)))
    \<and> list_all (\<lambda>f. af_freed f \<and> \<not> af_closed f) (lf_left lf) \<and> distinct (map af_name (lf_left lf @ [f]))
    \<and> (\<forall>env line. le_opened env \<and> le_answers env = [] \<and> lastRoll lf < le_roll_time env
        \<and> to_size (rollSize lf) < szadd (writtenBytes f) (length line) \<and> length (af_tail f) + length line \<le> 61440 \<longrightarrow>
        (\<exists>lf' g h. LogFile_append self pe env line (int (length line)) lf = Inr (Some lf')
          \<and> lf_left lf' = lf_left lf @ [g] \<and> lf_file lf' = Some h \<and> af_text h = [] \<and> af_freed g \<and> af_name g = af_name f
          \<and> af_disk g = af_disk f \<and> af_tail g = af_tail f @ line))
    \<and> (\<forall>env a as line. le_answers env = a # as \<longrightarrow> fst a < length line \<longrightarrow> length line \<le> max_size \<longrightarrow>
        LogFile_append self pe env line (int (length line)) lf = Inl OutOfBounds)"
proof -
  from LogFile_ctor_ok [OF assms(1-3)] obtain lf0 where lf0: "LogFile_ctor pe env0 basename roll threadSafe flush check = Inr lf0"
    "lf_ok pe lf0" "lf_free lf0" "segments lf0 = [([], [])]" by blast
  from append_lines_keeps [OF lf0(2,3) assms(4)] obtain lf where lf: "append_lines self pe script lf0 = Inr (Some lf)"
    "lf_ok pe lf" "lf_free lf" "wrote (concat (map snd script)) (segments lf0) (segments lf)" by blast
  from lf(2) obtain f where f: "lf_file lf = Some f" "file_ok f" "log_files lf = lf_left lf @ [f]"
    "\<forall>g \<in> set (lf_left lf). af_freed g \<and> file_ok g" by (rule lf_okD)
  have all: "concat (map (\<lambda>f. af_disk f @ af_tail f) (lf_left lf @ [f])) = concat (map snd script)"
    using wrote_whole [OF lf(4), unfolded lf0(4)] by (simp add: segments_def f(3) whole_def comp_def)
  have tails: "list_all (\<lambda>f. length (af_tail f) \<le> 61440) (lf_left lf @ [f])"
    using f(2,4) file_tail by (auto simp: list_all_iff stream_size_def)
  from LogFile_flush_keeps [OF lf(2,3), of self] obtain lf' where lf': "LogFile_flush self lf = Inr (Some lf')" "lf_ok pe lf'"
    "wrote [] (segments lf) (segments lf')" "all_flushed lf'" "lf_left lf' = lf_left lf" by blast
  from lf'(4) obtain f' where f': "lf_file lf' = Some f'" "af_tail f' = []" by (auto simp: all_flushed_def)
  have "af_disk f' = af_disk f @ af_tail f"
    using wrote_whole [OF lf'(3)] f' lf'(5) by (simp add: segments_def log_files_def f(1))
  moreover have "length (af_tail f) = pending_bytes f" by (simp add: af_tail_def pending_bytes_def)
  ultimately have flush: "\<exists>lf' f'. LogFile_flush self lf = Inr (Some lf') \<and> lf_left lf' = lf_left lf \<and> lf_file lf' = Some f'
        \<and> af_disk f' = af_disk f @ af_tail f \<and> (lf_left lf = [] \<longrightarrow> af_disk f' = concat (map snd script))"
    and tail: "length (af_tail f) = pending_bytes f" using lf'(1,5) f'(1) all by auto
  have gone: "list_all (\<lambda>f. af_freed f \<and> \<not> af_closed f) (lf_left lf)" using f(4) by (simp add: list_all_iff file_ok_def)
  have roll: "\<forall>env line. le_opened env \<and> le_answers env = [] \<and> lastRoll lf < le_roll_time env
        \<and> to_size (rollSize lf) < szadd (writtenBytes f) (length line) \<and> length (af_tail f) + length line \<le> 61440 \<longrightarrow>
        (\<exists>lf' g h. LogFile_append self pe env line (int (length line)) lf = Inr (Some lf')
          \<and> lf_left lf' = lf_left lf @ [g] \<and> lf_file lf' = Some h \<and> af_text h = [] \<and> af_freed g \<and> af_name g = af_name f
          \<and> af_disk g = af_disk f \<and> af_tail g = af_tail f @ line)"
    using append_rolls [OF lf(2,3) f(1)] unfolding tail stream_size_def by simp
  have over: "\<forall>env a as line. le_answers env = a # as \<longrightarrow> fst a < length line \<longrightarrow> length line \<le> max_size \<longrightarrow>
        LogFile_append self pe env line (int (length line)) lf = Inl OutOfBounds"
    using LogFile_append_short [OF lf(2,3)] by blast
  note names = names_distinct [OF lf(2), unfolded f(3)]
  show ?thesis
    by (rule exI [of _ lf0], rule exI [of _ lf], rule exI [of _ f],
      (rule conjI, rule lf0(1) lf(1) f(1) all tails flush gone names roll)+, rule over)
qed

definition sample_script :: "(log_env \<times> string) list" where
  "sample_script = [(\<lparr>le_time = 90000, le_roll_time = 90000, le_opened = True, le_answers = [(3, 61440)]\<rparr>, ''on'')]"

text \<open>With a roll size of 2, the first line stays in the buffer and the second one rolls: the replaced file is empty.\<close>

theorem log_file_keeps_lines_witness:
  "\<exists>lf0 lf lf' g. LogFile_ctor \<lparr>pe_host = None, pe_pid = 7\<rparr> \<lparr>le_time = 100, le_roll_time = 100, le_opened = True, le_answers = []\<rparr>
      ''log'' 2 True 3 1024 = Inr lf0
    \<and> append_lines 1 \<lparr>pe_host = None, pe_pid = 7\<rparr> sample_script lf0 = Inr (Some lf)
    \<and> LogFile_append 1 \<lparr>pe_host = None, pe_pid = 7\<rparr> \<lparr>le_time = 90001, le_roll_time = 90001, le_opened = True, le_answers = []\<rparr>
        ''etwo'' 4 lf = Inr (Some lf')
    \<and> lf_left lf' = [g] \<and> af_disk g = [] \<and> af_tail g = ''onetwo'' \<and> af_freed g"
proof -
  let ?pe = "\<lparr>pe_host = None, pe_pid = 7\<rparr>"
    and ?env = "\<lparr>le_time = 100, le_roll_time = 100, le_opened = True, le_answers = []\<rparr>"
    and ?late = "\<lparr>le_time = 90001, le_roll_time = 90001, le_opened = True, le_answers = []\<rparr>"
  have disk: "disk_takes_all sample_script" by (simp add: disk_takes_all_def sample_script_def max_size_def first_answer_def)
  from log_file_keeps_lines [OF _ _ _ disk, of "''log''" ?env ?pe 2 True 3 1024 1] obtain lf0 lf f where
    lf: "LogFile_ctor ?pe ?env ''log'' 2 True 3 1024 = Inr lf0" "append_lines 1 ?pe sample_script lf0 = Inr (Some lf)" "lf_file lf = Some f"
    and roll: "\<forall>env line. le_opened env \<and> le_answers env = [] \<and> lastRoll lf < le_roll_time env
        \<and> to_size (rollSize lf) < szadd (writtenBytes f) (length line) \<and> length (af_tail f) + length line \<le> 61440 \<longrightarrow>
        (\<exists>lf' g h. LogFile_append 1 ?pe env line (int (length line)) lf = Inr (Some lf')
          \<and> lf_left lf' = lf_left lf @ [g] \<and> lf_file lf' = Some h \<and> af_text h = [] \<and> af_freed g \<and> af_name g = af_name f
          \<and> af_disk g = af_disk f \<and> af_tail g = af_tail f @ line)" by auto
  from lf(1) have lf0: "lf0 = \<lparr>lf_basename = ''log'', flushInterval = 3, rollSize = 2, checkEveryN = 1024, lastRoll = 100, lastFlush = 100,
      startTime = 0, lf_count = 0, lf_mutex = Some MutexLock_ctor, lf_file = Some \<lparr>af_name = getLogFileName None 7 ''log'' 100,
        af_text = [], af_flushed = 0, af_closed = False, af_freed = False, writtenBytes = 0\<rparr>, lf_left = []\<rparr>"
    by (simp add: LogFile_ctor_def rollFile_def AppendFile_ctor_def day_start_def Let_def)
  have f: "af_disk f = []" "af_tail f = ''on''" "writtenBytes f = 2" "lastRoll lf = 100" "rollSize lf = 2" "lf_left lf = []"
    using lf(2,3) by (auto simp: sample_script_def lf0 LogFile_append_def lf_locked_def append_unlocked_def with_file_def af_append_def
        af_write_def first_answer_def mutex_defs to_size_def size_mod_def szsub_def szadd_def WrittenBytes_def stream_size_def
        af_disk_def af_tail_def Let_def)
  from roll [rule_format, of ?late "''etwo''"] f obtain lf' g where
    "LogFile_append 1 ?pe ?late ''etwo'' 4 lf = Inr (Some lf')" "lf_left lf' = [g]" "af_freed g" "af_disk g = []" "af_tail g = ''onetwo''"
    by (auto simp: to_size_def size_mod_def szadd_def)
  with lf(1,2) show ?thesis by blast
qed

end
