(* ===== verification/Async_Logging.thy ===== *)
theory Async_Logging
  imports Log_File
begin

text \<open>
  \<open>src/AsyncLogging\<close>: threads append lines to a buffer under a mutex, a back-end thread exchanges the
  filled buffers for empty ones and writes them to a log file. The two sections under the mutex are
  the sections of a monitor; the course of the back end in between is its phase. The back end is
  thread 2, any other thread may append.
\<close>

section \<open>Model\<close>

datatype log_op = LogAppend string nat | LogTake | LogSwap
datatype log_cond = LogCond

text \<open>
  The members, the locals of the back end (\<open>newBuffer1\<close>, \<open>newBuffer2\<close>, \<open>bufferToWrite\<close>), and as a
  history the lines given to \<open>append\<close>. A null \<open>unique_ptr\<close> is \<open>None\<close>.
\<close>

record async =
  running :: bool
  currentBuffer :: "fixed_buffer option"
  nextBuffer :: "fixed_buffer option"
  filled :: "fixed_buffer list"
  newBuffer1 :: "fixed_buffer option"
  newBuffer2 :: "fixed_buffer option"
  bufferToWrite :: "fixed_buffer list"
  as_given :: "string list"

type_synonym log_end = "(log_op, log_cond, async) section_end"

definition new_buffer :: fixed_buffer where
  "new_buffer = FixedBuffer_ctor KLargeBuffer"

definition AsyncLogging_ctor :: async where
  "AsyncLogging_ctor = \<lparr>running = False, currentBuffer = Some (fb_bzero new_buffer), nextBuffer = Some (fb_bzero new_buffer),
     filled = [], newBuffer1 = None, newBuffer2 = None, bufferToWrite = [], as_given = []\<rparr>"

text \<open>
  \<open>start\<close>, \<open>stop\<close> and the destructor: the flag, and with it the start and the join of the thread object
  (\<open>created\<close> is whether \<open>pthread_create\<close> succeeds, \<open>None\<close> a \<open>start\<close> that blocks).
\<close>

definition async_start :: "async \<Rightarrow> async" where
  "async_start d = d\<lparr>running := True\<rparr>"

definition async_stop :: "async \<Rightarrow> async" where
  "async_stop d = d\<lparr>running := False\<rparr>"

definition AsyncLogging_start :: "bool \<Rightarrow> tid \<Rightarrow> async \<times> thread_obj \<Rightarrow> (async \<times> thread_obj) option res" where
  "AsyncLogging_start created self = (\<lambda>(d, th).
     bindR (thread_start created self th) (\<lambda>r. Inr (map_option (\<lambda>th'. (async_start d, th')) r)))"

definition AsyncLogging_stop :: "async \<times> thread_obj \<Rightarrow> (async \<times> thread_obj) res" where
  "AsyncLogging_stop = (\<lambda>(d, th). bindR (thread_join th) (\<lambda>th'. Inr (async_stop d, th')))"

definition AsyncLogging_dtor :: "async \<times> thread_obj \<Rightarrow> (async \<times> thread_obj) res" where
  "AsyncLogging_dtor = (\<lambda>(d, th). if running d then AsyncLogging_stop (d, th) else Inr (d, th))"

text \<open>\<open>static_cast<int>\<close> of a \<open>size_t\<close>.\<close>

definition to_int32 :: "nat \<Rightarrow> int" where
  "to_int32 n = (let r = int (n mod 2 ^ 32) in if r < 2 ^ 31 then r else r - 2 ^ 32)"

definition async_append :: "string \<Rightarrow> nat \<Rightarrow> async \<Rightarrow> log_end res" where
  "async_append mem len d =
     (case currentBuffer d of
        None \<Rightarrow> Inl NullDeref
      | Some b \<Rightarrow>
          let d1 = d\<lparr>as_given := as_given d @ [take len mem]\<rparr>
          in if int (fb_avail b) > to_int32 len
             then bindR (fb_append mem len b) (\<lambda>b1. Inr (Leaves (d1\<lparr>currentBuffer := Some b1\<rparr>) []))
             else let b0 = (case nextBuffer d of Some nb \<Rightarrow> nb | None \<Rightarrow> new_buffer)
                  in bindR (fb_append mem len b0) (\<lambda>b1.
                       Inr (Leaves (d1\<lparr>filled := filled d @ [b], nextBuffer := None, currentBuffer := Some b1\<rparr>) [NotifyOne LogCond])))"

text \<open>
  The exchange, in two parts because \<open>waitForSeconds\<close> lets go of the mutex. A null buffer would be
  dereferenced when it is written.
\<close>

definition async_swap :: "async \<Rightarrow> log_end res" where
  "async_swap d =
     (case currentBuffer d of
        None \<Rightarrow> Inl NullDeref
      | Some b \<Rightarrow>
          Inr (Leaves (d\<lparr>bufferToWrite := filled d @ [b], filled := bufferToWrite d, currentBuffer := newBuffer1 d, newBuffer1 := None,
            nextBuffer := (case nextBuffer d of None \<Rightarrow> newBuffer2 d | Some nb \<Rightarrow> Some nb),
            newBuffer2 := (case nextBuffer d of None \<Rightarrow> None | Some nb \<Rightarrow> newBuffer2 d)\<rparr>) []))"

definition async_take :: "async \<Rightarrow> log_end res" where
  "async_take d = (if filled d = [] then Inr (Waits LogCond d LogSwap) else async_swap d)"

fun log_body :: "(log_op, log_cond, async) body" where
  "log_body (LogAppend mem len) self m d = async_append mem len d"
| "log_body LogTake self m d = async_take d"
| "log_body LogSwap self m d = async_swap d"

text \<open>The back end outside the mutex: before the loop, at its top, and after the exchange.\<close>

definition backend_begin :: "process_env \<Rightarrow> log_env \<Rightarrow> string \<Rightarrow> int \<Rightarrow> async \<Rightarrow> (log_file \<times> async) res" where
  "backend_begin pe env basename roll d =
     cassert (running d)
       (bindR (LogFile_ctor pe env basename roll False 3 1024) (\<lambda>lf.
          Inr (lf, d\<lparr>newBuffer1 := Some new_buffer, newBuffer2 := Some new_buffer, bufferToWrite := []\<rparr>)))"

definition is_empty_buffer :: "fixed_buffer option \<Rightarrow> bool" where
  "is_empty_buffer p = (case p of None \<Rightarrow> False | Some b \<Rightarrow> fb_length b = 0)"

definition backend_top :: "async \<Rightarrow> unit res" where
  "backend_top d =
     cassert (is_empty_buffer (newBuffer1 d)) (cassert (is_empty_buffer (newBuffer2 d)) (cassert (bufferToWrite d = []) (Inr ())))"

text \<open>\<open>output\<close> has no mutex, so its \<open>append\<close> is \<open>append_unlocked\<close>; \<open>env\<close> gives what the i-th call finds.\<close>

fun write_all :: "process_env \<Rightarrow> (nat \<Rightarrow> log_env) \<Rightarrow> fixed_buffer list \<Rightarrow> log_file \<Rightarrow> log_file res" where
  "write_all pe env [] lf = Inr lf"
| "write_all pe env (b # bs) lf =
     bindR (append_unlocked pe (env 0) (fb_text b) (int (fb_length b)) lf) (write_all pe (\<lambda>i. env (Suc i)) bs)"

definition refill :: "fixed_buffer option \<Rightarrow> fixed_buffer list \<Rightarrow> (fixed_buffer option \<times> fixed_buffer list) res" where
  "refill p w =
     (case p of
        Some b \<Rightarrow> Inr (p, w)
      | None \<Rightarrow> if w = [] then Inl OutOfBounds else Inr (Some (fb_reset (last w)), butlast w))"

definition recycle :: "async \<Rightarrow> async res" where
  "recycle d =
     (let w = (if length (bufferToWrite d) > 2 then take 2 (bufferToWrite d) else bufferToWrite d)
      in bindR (refill (newBuffer1 d) w) (\<lambda>(n1, w1).
         bindR (refill (newBuffer2 d) w1) (\<lambda>(n2, w2).
           Inr (d\<lparr>newBuffer1 := n1, newBuffer2 := n2, bufferToWrite := []\<rparr>))))"

definition drop_message :: string where
  "drop_message = ''drop log!'' @ [CHR 0x00]"

definition backend_write :: "process_env \<Rightarrow> log_env \<Rightarrow> (nat \<Rightarrow> log_env) \<Rightarrow> log_file \<Rightarrow> async \<Rightarrow> (log_file \<times> async) res" where
  "backend_write pe denv env lf d =
     cassert (bufferToWrite d \<noteq> [])
       (bindR (if length (bufferToWrite d) > 25
               then bindR (append_unlocked pe denv drop_message 20 lf) (\<lambda>lf1. Inr (lf1, take 2 (bufferToWrite d)))
               else Inr (lf, bufferToWrite d)) (\<lambda>(lf1, w).
        bindR (write_all pe env w lf1) (\<lambda>lf2.
        bindR (recycle (d\<lparr>bufferToWrite := w\<rparr>)) (\<lambda>d1.
        bindR (with_file af_flush lf2) (\<lambda>lf3. Inr (lf3, d1))))))"

datatype backend_phase = BStart | BTop | BTaking | BDone

record async_sys =
  as_mon :: "(log_op, log_cond, async) monitor"
  as_phase :: backend_phase
  as_file :: "log_file option"

definition as_data :: "async_sys \<Rightarrow> async" where
  "as_data s = mon_data (as_mon s)"

definition set_data :: "async \<Rightarrow> async_sys \<Rightarrow> async_sys" where
  "set_data d s = s\<lparr>as_mon := (as_mon s)\<lparr>mon_data := d\<rparr>\<rparr>"

definition call_section :: "tid \<Rightarrow> log_op \<Rightarrow> async_sys \<Rightarrow> async_sys" where
  "call_section t op s = s\<lparr>as_mon := (as_mon s)\<lparr>mon_pc := (mon_pc (as_mon s))(t := Locking op)\<rparr>\<rparr>"

text \<open>The back end opens its first file after the first second of 1970.\<close>

inductive async_step :: "process_env \<Rightarrow> string \<Rightarrow> int \<Rightarrow> async_sys \<Rightarrow> async_sys \<Rightarrow> bool" for pe basename roll where
  front: "t \<noteq> 0 \<Longrightarrow> t \<noteq> 2 \<Longrightarrow> mon_pc (as_mon s) t = Outside \<Longrightarrow> len \<le> length mem \<Longrightarrow>
    async_step pe basename roll s (call_section t (LogAppend mem len) s)"
| within: "mon_step log_body (as_mon s) m \<Longrightarrow> (\<forall>t. mon_pc (as_mon s) t = Outside \<longrightarrow> mon_pc m t = Outside) \<Longrightarrow>
    async_step pe basename roll s (s\<lparr>as_mon := m\<rparr>)"
| begins: "as_phase s = BStart \<Longrightarrow> 0 < le_roll_time env \<Longrightarrow> backend_begin pe env basename roll (as_data s) = Inr (lf, d) \<Longrightarrow>
    async_step pe basename roll s ((set_data d s)\<lparr>as_phase := BTop, as_file := Some lf\<rparr>)"
| top: "as_phase s = BTop \<Longrightarrow> running (as_data s) \<Longrightarrow> backend_top (as_data s) = Inr () \<Longrightarrow>
    async_step pe basename roll s (call_section 2 LogTake (s\<lparr>as_phase := BTaking\<rparr>))"
| writes: "as_phase s = BTaking \<Longrightarrow> mon_pc (as_mon s) 2 = Outside \<Longrightarrow> as_file s = Some lf \<Longrightarrow>
    backend_write pe denv env lf (as_data s) = Inr (lf', d) \<Longrightarrow>
    async_step pe basename roll s ((set_data d s)\<lparr>as_phase := BTop, as_file := Some lf'\<rparr>)"
| finish: "as_phase s = BTop \<Longrightarrow> \<not> running (as_data s) \<Longrightarrow> as_file s = Some lf \<Longrightarrow> with_file af_flush lf = Inr lf' \<Longrightarrow>
    async_step pe basename roll s (s\<lparr>as_phase := BDone, as_file := Some lf'\<rparr>)"
| stop: "notified [NotifyOne LogCond] (mon_waiting (as_mon s)) w \<Longrightarrow>
    async_step pe basename roll s (s\<lparr>as_mon := (as_mon s)\<lparr>mon_data := async_stop (as_data s), mon_waiting := w\<rparr>\<rparr>)"

definition async_starting :: "async_sys \<Rightarrow> bool" where
  "async_starting s \<longleftrightarrow> s = \<lparr>as_mon = monitor_init (async_start AsyncLogging_ctor), as_phase = BStart, as_file = None\<rparr>"


section \<open>The buffers\<close>

definition buf_ok :: "fixed_buffer \<Rightarrow> bool" where
  "buf_ok b \<longleftrightarrow> fb_size b = KLargeBuffer \<and> length (fb_text b) < KLargeBuffer"

definition texts :: "fixed_buffer list \<Rightarrow> string" where
  "texts bs = concat (map fb_text bs)"

definition kept_lines :: "async \<Rightarrow> string" where
  "kept_lines d = concat (filter (\<lambda>l. length l < KLargeBuffer) (as_given d))"

lemma texts_simps [simp]: "texts [] = []" "texts (b # bs) = fb_text b @ texts bs" "texts (xs @ ys) = texts xs @ texts ys"
  by (simp_all add: texts_def)

lemma KLargeBuffer_pos [simp]: "0 < KLargeBuffer"
  by (simp add: KLargeBuffer_def)

lemma new_buffer_ok [simp]: "buf_ok new_buffer" "fb_text new_buffer = []" "fb_bzero new_buffer = new_buffer" "fb_length new_buffer = 0"
  by (simp_all add: new_buffer_def FixedBuffer_ctor_def buf_ok_def fb_bzero_def fb_length_def)

lemma buf_ok_reset [simp]: "buf_ok b \<Longrightarrow> buf_ok (fb_reset b)" "fb_text (fb_reset b) = []" "fb_length (fb_reset b) = 0"
  by (simp_all add: buf_ok_def fb_reset_def fb_length_def)

text \<open>
  The members between any two sections: there is a current buffer; a missing next buffer means that
  a filled one waits; what was given is what is written, being written, filled and current. In
  between, the back end has two empty buffers and nothing to write, or is about to write what it
  took and can get two buffers back.
\<close>

datatype backend_mode = Absent | Idle | Busy

definition mode_ok :: "backend_mode \<Rightarrow> async \<Rightarrow> bool" where
  "mode_ok md d \<longleftrightarrow>
     (case md of
        Absent \<Rightarrow> bufferToWrite d = []
      | Idle \<Rightarrow> (\<exists>b. newBuffer1 d = Some b \<and> buf_ok b \<and> fb_text b = []) \<and> (\<exists>b. newBuffer2 d = Some b \<and> buf_ok b \<and> fb_text b = [])
          \<and> bufferToWrite d = []
      | Busy \<Rightarrow> newBuffer1 d = None \<and> bufferToWrite d \<noteq> []
          \<and> (case newBuffer2 d of None \<Rightarrow> 2 \<le> length (bufferToWrite d) | Some b \<Rightarrow> buf_ok b \<and> fb_text b = []))"

definition async_data :: "string \<Rightarrow> backend_mode \<Rightarrow> async \<Rightarrow> bool" where
  "async_data T md d \<longleftrightarrow>
     (\<exists>b. currentBuffer d = Some b \<and> buf_ok b \<and> T @ texts (bufferToWrite d) @ texts (filled d) @ fb_text b = kept_lines d)
     \<and> (case nextBuffer d of None \<Rightarrow> filled d \<noteq> [] | Some b \<Rightarrow> buf_ok b \<and> fb_text b = [])
     \<and> (\<forall>b \<in> set (bufferToWrite d @ filled d). buf_ok b) \<and> mode_ok md d"

lemma async_dataI:
  assumes "currentBuffer d = Some b" "buf_ok b" "T @ texts (bufferToWrite d) @ texts (filled d) @ fb_text b = kept_lines d"
    and "nextBuffer d = None \<Longrightarrow> filled d \<noteq> []" "\<And>nb. nextBuffer d = Some nb \<Longrightarrow> buf_ok nb \<and> fb_text nb = []"
    and "\<And>c. c \<in> set (bufferToWrite d) \<union> set (filled d) \<Longrightarrow> buf_ok c" and "mode_ok md d"
  shows "async_data T md d"
  using assms by (auto simp: async_data_def split: option.split)

lemma async_dataD:
  assumes "async_data T md d"
  shows "nextBuffer d = None \<Longrightarrow> filled d \<noteq> []" "nextBuffer d = Some nb \<Longrightarrow> buf_ok nb \<and> fb_text nb = []"
    and "c \<in> set (bufferToWrite d) \<union> set (filled d) \<Longrightarrow> buf_ok c" and "mode_ok md d"
  using assms by (auto simp: async_data_def)

lemma to_int32_small: "n < 2 ^ 31 \<Longrightarrow> to_int32 n = int n"
  by (simp add: to_int32_def)

lemma mode_ok_cong:
  assumes "newBuffer1 d' = newBuffer1 d" "newBuffer2 d' = newBuffer2 d" "bufferToWrite d' = bufferToWrite d"
  shows "mode_ok md d' = mode_ok md d"
  unfolding mode_ok_def assms ..

lemma mode_ok_front [simp]:
  "mode_ok md (d\<lparr>as_given := g\<rparr>) = mode_ok md d" "mode_ok md (d\<lparr>currentBuffer := c\<rparr>) = mode_ok md d"
  "mode_ok md (d\<lparr>filled := f\<rparr>) = mode_ok md d" "mode_ok md (d\<lparr>nextBuffer := n\<rparr>) = mode_ok md d" "mode_ok md (d\<lparr>running := r\<rparr>) = mode_ok md d"
  by (rule mode_ok_cong; simp)+

lemma fb_append_stores:
  assumes "buf_ok b" and "len \<le> length mem"
  shows "\<exists>b'. fb_append mem len b = Inr b' \<and> buf_ok b'
    \<and> fb_text b' = fb_text b @ (if len < KLargeBuffer - length (fb_text b) then take len mem else [])"
  using assms by (auto simp: fb_append_def fb_avail_def fb_length_def buf_ok_def)

lemma async_append_keeps:
  assumes inv: "async_data T md d" and len: "len \<le> length mem"
  shows "\<exists>d' ns. async_append mem len d = Inr (Leaves d' ns) \<and> async_data T md d' \<and> running d' = running d"
proof -
  from inv obtain b where b: "currentBuffer d = Some b" "buf_ok b"
    "T @ texts (bufferToWrite d) @ texts (filled d) @ fb_text b = kept_lines d" by (auto simp: async_data_def)
  let ?d1 = "d\<lparr>as_given := as_given d @ [take len mem]\<rparr>"
  have kept: "kept_lines ?d1 = kept_lines d @ (if len < KLargeBuffer then take len mem else [])"
    using len by (simp add: kept_lines_def min_def)
  have av: "fb_avail b = KLargeBuffer - length (fb_text b)" using b(2) by (simp add: fb_avail_def fb_length_def buf_ok_def)
  show ?thesis
  proof (cases "int (fb_avail b) > to_int32 len")
    case True
    from fb_append_stores [OF b(2) len] obtain b' where b': "fb_append mem len b = Inr b'" "buf_ok b'"
      "fb_text b' = fb_text b @ (if len < KLargeBuffer - length (fb_text b) then take len mem else [])" by blast
    have "len < KLargeBuffer - length (fb_text b) \<longleftrightarrow> len < KLargeBuffer"
    proof
      assume "len < KLargeBuffer"
      then have "to_int32 len = int len" by (intro to_int32_small) (simp add: KLargeBuffer_def)
      with True av show "len < KLargeBuffer - length (fb_text b)" by simp
    qed simp
    with b' b(3) kept async_dataD [OF inv] have "async_data T md (?d1\<lparr>currentBuffer := Some b'\<rparr>)"
      by (intro async_dataI [where b = b']) (auto simp: kept_lines_def simp flip: append_assoc)
    with True b(1) b'(1) show ?thesis by (simp add: async_append_def)
  next
    case False
    let ?b0 = "case nextBuffer d of Some nb \<Rightarrow> nb | None \<Rightarrow> new_buffer"
    have b0: "buf_ok ?b0" "fb_text ?b0 = []" using inv by (auto simp: async_data_def split: option.splits)
    from fb_append_stores [OF b0(1) len] b0(2) obtain b' where b': "fb_append mem len ?b0 = Inr b'" "buf_ok b'"
      "fb_text b' = (if len < KLargeBuffer then take len mem else [])" by auto
    have "async_data T md (?d1\<lparr>filled := filled d @ [b], nextBuffer := None, currentBuffer := Some b'\<rparr>)"
      using b b' kept async_dataD [OF inv]
      by (intro async_dataI [where b = b']) (auto simp: kept_lines_def simp flip: append_assoc)
    with False b(1) b'(1) show ?thesis by (simp add: async_append_def Let_def)
  qed
qed

lemma async_swap_keeps:
  assumes inv: "async_data T Idle d"
  shows "\<exists>d'. async_swap d = Inr (Leaves d' []) \<and> async_data T Busy d' \<and> running d' = running d"
proof -
  from inv obtain b where b: "currentBuffer d = Some b" "buf_ok b"
    "T @ texts (filled d) @ fb_text b = kept_lines d" by (auto simp: async_data_def mode_ok_def)
  note D = async_dataD [OF inv]
  from D(4) obtain n1 n2 where n: "newBuffer1 d = Some n1" "buf_ok n1" "fb_text n1 = []" "newBuffer2 d = Some n2" "buf_ok n2" "fb_text n2 = []"
    "bufferToWrite d = []" by (auto simp: mode_ok_def)
  let ?d = "d\<lparr>bufferToWrite := filled d @ [b], filled := bufferToWrite d, currentBuffer := newBuffer1 d, newBuffer1 := None,
            nextBuffer := (case nextBuffer d of None \<Rightarrow> newBuffer2 d | Some nb \<Rightarrow> Some nb),
            newBuffer2 := (case nextBuffer d of None \<Rightarrow> None | Some nb \<Rightarrow> newBuffer2 d)\<rparr>"
  have "mode_ok Busy ?d" using D(1) n by (cases "nextBuffer d"; cases "filled d") (simp_all add: mode_ok_def)
  then have "async_data T Busy ?d"
    using b n D(2,3) by (intro async_dataI [where b = n1]) (auto simp: kept_lines_def split: option.splits)
  with b(1) show ?thesis by (simp add: async_swap_def)
qed


section \<open>The back end\<close>

text \<open>Between rounds the current file has all that was written to it.\<close>

definition output_ok :: "process_env \<Rightarrow> log_file \<Rightarrow> bool" where
  "output_ok pe lf \<longleftrightarrow> lf_ok pe lf \<and> all_flushed lf"

text \<open>An environment in which \<open>fopen\<close> succeeds and \<open>fwrite\<close> takes a whole buffer; how much it leaves in the stream's buffer is open.\<close>

definition env_ok :: "log_env \<Rightarrow> bool" where
  "env_ok env \<longleftrightarrow> le_opened env \<and> (case le_answers env of [] \<Rightarrow> True | a # _ \<Rightarrow> KLargeBuffer \<le> fst a)"

lemma env_takes: "env_ok env \<Longrightarrow> n \<le> KLargeBuffer \<Longrightarrow> le_opened env \<and> n \<le> fst (first_answer n (le_answers env))"
  by (auto simp: env_ok_def first_answer_def split: list.splits)

lemma buf_fits: "buf_ok b \<Longrightarrow> fb_length b \<le> length (fb_text b) \<and> length (fb_text b) \<le> max_size"
  by (simp add: buf_ok_def fb_length_def max_size_def KLargeBuffer_def)

lemma write_all_keeps:
  assumes "lf_ok pe lf" and "\<forall>b \<in> set bs. buf_ok b" and "\<forall>i. env_ok (env i)"
  shows "\<exists>lf'. write_all pe env bs lf = Inr lf' \<and> lf_ok pe lf' \<and> wrote (texts bs) (segments lf) (segments lf')"
  using assms
proof (induction bs arbitrary: lf env)
  case Nil
  with wrote_refl show ?case by simp
next
  case (Cons b bs)
  have fit: "fb_length b \<le> length (fb_text b)" "fb_length b \<le> max_size" "fb_length b \<le> KLargeBuffer"
    using Cons.prems(2) buf_fits [of b] by (simp_all add: buf_ok_def fb_length_def)
  from append_unlocked_keeps [OF Cons.prems(1) fit(1,2), of "env 0"] env_takes [OF Cons.prems(3) [rule_format, of 0] fit(3)]
  obtain lf1 where lf1: "append_unlocked pe (env 0) (fb_text b) (int (fb_length b)) lf = Inr lf1" "lf_ok pe lf1"
    "wrote (fb_text b) (segments lf) (segments lf1)" by (auto simp: fb_length_def)
  from Cons.IH [OF lf1(2), of "\<lambda>i. env (Suc i)"] Cons.prems(2,3) obtain lf' where
    "write_all pe (\<lambda>i. env (Suc i)) bs lf1 = Inr lf'" "lf_ok pe lf'" "wrote (texts bs) (segments lf1) (segments lf')" by auto
  with lf1(1) wrote_trans [OF lf1(3)] show ?case by auto
qed

lemma write_all_returned:
  assumes "lf_ok pe lf" and "\<forall>b \<in> set bs. buf_ok b" and "write_all pe env bs lf = Inr lf'"
  shows "lf_ok pe lf' \<and> wrote (texts bs) (segments lf) (segments lf')"
  using assms
proof (induction bs arbitrary: lf env)
  case Nil
  with wrote_refl show ?case by auto
next
  case (Cons b bs)
  from Cons.prems(3) obtain lf1 where lf1: "append_unlocked pe (env 0) (fb_text b) (int (fb_length b)) lf = Inr lf1"
    "write_all pe (\<lambda>i. env (Suc i)) bs lf1 = Inr lf'" by (auto simp: cpp_res)
  have w: "lf_ok pe lf1" "wrote (fb_text b) (segments lf) (segments lf1)"
    using append_unlocked_returned [OF Cons.prems(1) _ _ lf1(1)] buf_fits [of b] Cons.prems(2) by (simp_all add: fb_length_def)
  from Cons.IH [OF w(1) _ lf1(2)] Cons.prems(2) wrote_trans [OF w(2)] show ?case by simp
qed

text \<open>The message about dropped lines is shorter than the length it is appended with.\<close>

lemma drop_overreads:
  assumes "lf_ok pe lf" and "length (bufferToWrite d) > 25"
  shows "backend_write pe denv env lf d = Inl OutOfBounds"
proof -
  from assms(1) obtain f where f: "lf_file lf = Some f" "\<not> af_freed f" "file_ok f" by (rule lf_okD)
  have "af_append as drop_message 20 f = Inl OutOfBounds" for as
    using f(2,3) by (cases as) (simp_all add: af_append_def af_write_def drop_message_def file_ok_def)
  then have "append_unlocked pe denv drop_message 20 lf = Inl OutOfBounds"
    by (simp add: append_unlocked_def with_file_def f(1))
  moreover have "bufferToWrite d \<noteq> []" using assms(2) by auto
  ultimately show ?thesis using assms(2) by (simp add: backend_write_def)
qed

lemma recycle_ok:
  assumes busy: "mode_ok Busy d" and ok: "\<forall>b \<in> set (bufferToWrite d). buf_ok b"
  shows "\<exists>n1 n2. recycle d = Inr (d\<lparr>newBuffer1 := Some n1, newBuffer2 := Some n2, bufferToWrite := []\<rparr>)
    \<and> buf_ok n1 \<and> fb_text n1 = [] \<and> buf_ok n2 \<and> fb_text n2 = []"
proof -
  define w where "w = (if length (bufferToWrite d) > 2 then take 2 (bufferToWrite d) else bufferToWrite d)"
  have w: "w \<noteq> []" "set w \<subseteq> set (bufferToWrite d)" using busy by (auto simp: w_def mode_ok_def dest: in_set_takeD)
  have r1: "refill (newBuffer1 d) w = Inr (Some (fb_reset (last w)), butlast w)"
    using busy w(1) by (auto simp: mode_ok_def refill_def)
  have ok1: "buf_ok (last w)" using ok w last_in_set [OF w(1)] by blast
  show ?thesis
  proof (cases "newBuffer2 d")
    case None
    then have two: "2 \<le> length (bufferToWrite d)" using busy by (simp add: mode_ok_def)
    then have "length w = 2" by (simp add: w_def)
    then have "length (butlast w) = 1" by simp
    then have b: "butlast w \<noteq> []" by (cases "butlast w") simp_all
    have "last (butlast w) \<in> set (bufferToWrite d)" using in_set_butlastD [OF last_in_set [OF b]] w(2) by (rule rev_subsetD)
    with ok have "buf_ok (last (butlast w))" by simp
    moreover have "refill (newBuffer2 d) (butlast w) = Inr (Some (fb_reset (last (butlast w))), butlast (butlast w))"
      using b None by (simp add: refill_def)
    ultimately show ?thesis using r1 ok1 unfolding recycle_def Let_def w_def [symmetric]
      by (intro exI [of _ "fb_reset (last w)"] exI [of _ "fb_reset (last (butlast w))"]) simp
  next
    case (Some n2)
    then have "buf_ok n2" "fb_text n2 = []" using busy by (simp_all add: mode_ok_def)
    moreover have "refill (newBuffer2 d) (butlast w) = Inr (Some n2, butlast w)" using Some by (simp add: refill_def)
    ultimately show ?thesis using r1 ok1 unfolding recycle_def Let_def w_def [symmetric]
      by (intro exI [of _ "fb_reset (last w)"] exI [of _ n2]) simp
  qed
qed

lemma recycled_data:
  assumes inv: "async_data T Busy d" and n: "buf_ok n1" "fb_text n1 = []" "buf_ok n2" "fb_text n2 = []"
  shows "async_data (T @ texts (bufferToWrite d)) Idle (d\<lparr>newBuffer1 := Some n1, newBuffer2 := Some n2, bufferToWrite := []\<rparr>)"
proof -
  from inv obtain b where b: "currentBuffer d = Some b" "buf_ok b"
    "T @ texts (bufferToWrite d) @ texts (filled d) @ fb_text b = kept_lines d" by (auto simp: async_data_def)
  with async_dataD [OF inv] n show ?thesis
    by (intro async_dataI [where b = b]) (auto simp: kept_lines_def mode_ok_def)
qed

text \<open>A round appends the buffers' text to the log and leaves the current file flushed.\<close>

lemma backend_write_keeps:
  assumes inv: "async_data T Busy d" and out: "output_ok pe lf" and few: "length (bufferToWrite d) \<le> 25" and env: "\<forall>i. env_ok (env i)"
  shows "\<exists>lf' d'. backend_write pe denv env lf d = Inr (lf', d') \<and> output_ok pe lf'
    \<and> wrote (texts (bufferToWrite d)) (segments lf) (segments lf') \<and> async_data (T @ texts (bufferToWrite d)) Idle d'"
proof -
  have bufs: "\<forall>b \<in> set (bufferToWrite d). buf_ok b" using async_dataD(3) [OF inv] by blast
  from out have "lf_ok pe lf" by (simp add: output_ok_def)
  from write_all_keeps [OF this bufs env] obtain lf1 where lf1: "write_all pe env (bufferToWrite d) lf = Inr lf1"
    "lf_ok pe lf1" "wrote (texts (bufferToWrite d)) (segments lf) (segments lf1)" by blast
  from recycle_ok [OF async_dataD(4) [OF inv] bufs] obtain n1 n2 where
    rc: "recycle d = Inr (d\<lparr>newBuffer1 := Some n1, newBuffer2 := Some n2, bufferToWrite := []\<rparr>)"
    and n: "buf_ok n1" "fb_text n1 = []" "buf_ok n2" "fb_text n2 = []" by blast
  from with_file_flush [OF lf1(2)] obtain lf' where lf': "with_file af_flush lf1 = Inr lf'" "lf_ok pe lf'" "all_flushed lf'"
    "wrote [] (segments lf1) (segments lf')" by blast
  have "bufferToWrite d \<noteq> []" using async_dataD(4) [OF inv] by (simp add: mode_ok_def)
  with lf1(1) rc lf'(1) few have "backend_write pe denv env lf d = Inr (lf', d\<lparr>newBuffer1 := Some n1, newBuffer2 := Some n2, bufferToWrite := []\<rparr>)"
    by (simp add: backend_write_def)
  with wrote_trans [OF lf1(3) lf'(4)] recycled_data [OF inv n] lf'(2,3) show ?thesis by (auto simp: output_ok_def)
qed

lemma backend_write_returned:
  assumes inv: "async_data T Busy d" and out: "output_ok pe lf" and r: "backend_write pe denv env lf d = Inr (lf', d')"
  shows "output_ok pe lf' \<and> wrote (texts (bufferToWrite d)) (segments lf) (segments lf')
    \<and> async_data (T @ texts (bufferToWrite d)) Idle d'"
proof -
  have bufs: "\<forall>b \<in> set (bufferToWrite d). buf_ok b" using async_dataD(3) [OF inv] by blast
  from out have ok: "lf_ok pe lf" by (simp add: output_ok_def)
  have few: "\<not> length (bufferToWrite d) > 25" using r drop_overreads [OF ok] by fastforce
  from recycle_ok [OF async_dataD(4) [OF inv] bufs] obtain n1 n2 where
    rc: "recycle d = Inr (d\<lparr>newBuffer1 := Some n1, newBuffer2 := Some n2, bufferToWrite := []\<rparr>)"
    and n: "buf_ok n1" "fb_text n1 = []" "buf_ok n2" "fb_text n2 = []" by blast
  from r few rc obtain lf1 where lf1: "write_all pe env (bufferToWrite d) lf = Inr lf1" "with_file af_flush lf1 = Inr lf'"
    "d' = d\<lparr>newBuffer1 := Some n1, newBuffer2 := Some n2, bufferToWrite := []\<rparr>"
    by (auto simp: backend_write_def cpp_res)
  from write_all_returned [OF ok bufs lf1(1)] have w: "lf_ok pe lf1" "wrote (texts (bufferToWrite d)) (segments lf) (segments lf1)" by auto
  from with_file_flush [OF w(1)] lf1(2) have "lf_ok pe lf'" "wrote [] (segments lf1) (segments lf')" "all_flushed lf'" by auto
  with wrote_trans [OF w(2), of "[]"] recycled_data [OF inv n] lf1(3) show ?thesis by (simp add: output_ok_def)
qed

text \<open>A round in which the file is not replaced puts all of its text on the disk.\<close>

lemma no_roll_disk:
  assumes "wrote X (segments lf) (segments lf')" and "output_ok pe lf" "output_ok pe lf'" and left: "lf_left lf' = lf_left lf"
  shows "concat (map af_disk (log_files lf')) = concat (map af_disk (log_files lf)) @ X"
proof -
  from assms(2) obtain f where f: "lf_file lf = Some f" "af_tail f = []" by (auto simp: output_ok_def all_flushed_def)
  from assms(3) obtain f' where f': "lf_file lf' = Some f'" "af_tail f' = []" by (auto simp: output_ok_def all_flushed_def)
  from wrote_whole [OF assms(1)] f f' left have "af_disk f' = af_disk f @ X" by (simp add: segments_def log_files_def)
  with f(1) f'(1) left show ?thesis by (simp add: log_files_def)
qed


section \<open>The invariant\<close>

definition front_pc :: "(log_op, log_cond) mon_pc \<Rightarrow> bool" where
  "front_pc pc \<longleftrightarrow> (case pc of
     Outside \<Rightarrow> True
   | Locking (LogAppend mem len) \<Rightarrow> len \<le> length mem
   | Inside (LogAppend mem len) \<Rightarrow> len \<le> length mem
   | _ \<Rightarrow> False)"

definition back_pc :: "backend_phase \<Rightarrow> (log_op, log_cond) mon_pc \<Rightarrow> bool" where
  "back_pc ph pc \<longleftrightarrow> pc = Outside
     \<or> ph = BTaking \<and> pc \<in> {Locking LogTake, Inside LogTake, Sleeping LogCond LogSwap, Inside LogSwap}"

definition mode_of :: "backend_phase \<Rightarrow> (log_op, log_cond) mon_pc \<Rightarrow> backend_mode" where
  "mode_of ph pc = (case ph of BStart \<Rightarrow> Absent | BTaking \<Rightarrow> if pc = Outside then Busy else Idle | _ \<Rightarrow> Idle)"

definition files :: "async_sys \<Rightarrow> segment list" where
  "files s = (case as_file s of None \<Rightarrow> [] | Some lf \<Rightarrow> segments lf)"

text \<open>All that the back end gave to the log file.\<close>

definition file_text :: "async_sys \<Rightarrow> string" where
  "file_text s = whole (files s)"

lemma file_text_Some: "as_file s = Some lf \<Longrightarrow> file_text s = log_text lf"
  by (simp add: file_text_def files_def log_text_whole)

definition async_inv :: "process_env \<Rightarrow> async_sys \<Rightarrow> bool" where
  "async_inv pe s \<longleftrightarrow> mon_ok (as_mon s) \<and> (\<forall>t. t \<noteq> 2 \<longrightarrow> front_pc (mon_pc (as_mon s) t)) \<and> back_pc (as_phase s) (mon_pc (as_mon s) 2)
     \<and> (as_phase s = BStart \<longleftrightarrow> as_file s = None) \<and> (\<forall>lf. as_file s = Some lf \<longrightarrow> output_ok pe lf)
     \<and> async_data (file_text s) (mode_of (as_phase s) (mon_pc (as_mon s) 2)) (as_data s)"

lemma async_invI:
  assumes "mon_ok (as_mon s)" and "\<And>t. t \<noteq> 2 \<Longrightarrow> front_pc (mon_pc (as_mon s) t)" and "back_pc (as_phase s) (mon_pc (as_mon s) 2)"
    and "as_phase s = BStart \<longleftrightarrow> as_file s = None" and "\<And>lf. as_file s = Some lf \<Longrightarrow> output_ok pe lf"
    and "async_data (file_text s) (mode_of (as_phase s) (mon_pc (as_mon s) 2)) (as_data s)"
  shows "async_inv pe s"
  using assms by (simp add: async_inv_def)

lemma async_invD:
  assumes "async_inv pe s"
  shows "mon_ok (as_mon s)" and "t \<noteq> 2 \<Longrightarrow> front_pc (mon_pc (as_mon s) t)" and "back_pc (as_phase s) (mon_pc (as_mon s) 2)"
    and "as_phase s = BStart \<longleftrightarrow> as_file s = None" and "as_file s = Some lf \<Longrightarrow> output_ok pe lf"
    and "async_data (file_text s) (mode_of (as_phase s) (mon_pc (as_mon s) 2)) (as_data s)"
  using assms by (simp_all add: async_inv_def)

text \<open>The operations a thread can be at.\<close>

lemma inside_op:
  assumes inv: "async_inv pe s" and pc: "mon_pc (as_mon s) t = Inside op"
  obtains mem len where "t \<noteq> 2" "op = LogAppend mem len" "len \<le> length mem"
  | "t = 2" "as_phase s = BTaking" "op = LogTake \<or> op = LogSwap" "async_data (file_text s) Idle (as_data s)"
proof (cases "t = 2")
  case True
  with async_invD(3,6) [OF inv] pc that(2) show ?thesis by (auto simp: back_pc_def mode_of_def)
next
  case False
  with async_invD(2) [OF inv False] pc that(1) show ?thesis by (auto simp: front_pc_def split: log_op.splits)
qed

lemma sections_return:
  assumes inv: "async_inv pe s" and pc: "mon_pc (as_mon s) t = Inside op"
  shows "\<exists>r. log_body op t (mon_mutex (as_mon s)) (as_data s) = Inr r"
  using inv pc
proof (cases rule: inside_op)
  case (1 mem len)
  with async_append_keeps [OF async_invD(6) [OF inv] 1(3)] show ?thesis by auto
next
  case 2
  with async_swap_keeps [OF 2(4)] show ?thesis by (auto simp: async_take_def)
qed

lemma monitor_update_inv:
  assumes inv: "async_inv pe s" and ok: "mon_ok m" and pc: "mon_pc m = (mon_pc (as_mon s))(t := p)"
    and p: "if t = 2 then back_pc (as_phase s) p else front_pc p"
    and d: "async_data (file_text s) (mode_of (as_phase s) (if t = 2 then p else mon_pc (as_mon s) 2)) (mon_data m)"
  shows "async_inv pe (s\<lparr>as_mon := m\<rparr>)"
  using async_invD [OF inv] ok p d
  by (intro async_invI) (auto simp: pc file_text_def files_def as_data_def split: if_splits)

lemma within_async_inv:
  assumes inv: "async_inv pe s" and step: "mon_step log_body (as_mon s) m"
    and out: "\<forall>t. mon_pc (as_mon s) t = Outside \<longrightarrow> mon_pc m t = Outside"
  shows "async_inv pe (s\<lparr>as_mon := m\<rparr>)"
proof -
  note D = async_invD [OF inv]
  have ok: "mon_ok m" using mon_ok_step [OF D(1) step] .
  from step show ?thesis
  proof cases
    case (call t op)
    with spec [OF out, of t] show ?thesis by simp
  next
    case (lock t op mm)
    then show ?thesis
      using D(2) [of t] D(3,6)
      by (intro monitor_update_inv [OF inv ok, of t "Inside op"])
        (auto simp: front_pc_def back_pc_def mode_of_def as_data_def split: log_op.splits if_splits)
  next
    case (leave t op d ns w)
    note m = leave(1)
    show ?thesis using inv leave(2)
    proof (cases rule: inside_op)
      case (1 mem len)
      with async_append_keeps [OF D(6) 1(3)] leave(3) have "async_data (file_text s) (mode_of (as_phase s) (mon_pc (as_mon s) 2)) d"
        by (auto simp: as_data_def)
      with 1 show ?thesis by (intro monitor_update_inv [OF inv ok, of t Outside]) (simp_all add: m front_pc_def)
    next
      case 2
      with async_swap_keeps [OF 2(4)] leave(3) have "async_data (file_text s) Busy d"
        by (auto simp: as_data_def async_take_def split: if_splits)
      with 2 show ?thesis by (intro monitor_update_inv [OF inv ok, of t Outside]) (simp_all add: m back_pc_def mode_of_def)
    qed
  next
    case (wait t op c d op' mm w)
    note m = wait(1)
    show ?thesis using inv wait(2)
    proof (cases rule: inside_op)
      case (1 mem len)
      with async_append_keeps [OF D(6) 1(3)] wait(3) show ?thesis by (auto simp: as_data_def)
    next
      case 2
      with async_swap_keeps [OF 2(4)] wait(3) have "d = as_data s" "op' = LogSwap" "c = LogCond"
        by (auto simp: as_data_def async_take_def split: if_splits)
      with 2 show ?thesis by (intro monitor_update_inv [OF inv ok, of t "Sleeping c op'"]) (simp_all add: m back_pc_def mode_of_def)
    qed
  next
    case (resume t c op mm)
    then have "t = 2" using D(2) [of t] by (auto simp: front_pc_def)
    with resume D(3,6) show ?thesis
      by (intro monitor_update_inv [OF inv ok, of t "Inside op"]) (auto simp: back_pc_def mode_of_def as_data_def)
  next
    case (spurious t c)
    with D ok show ?thesis by (intro async_invI) (auto simp: file_text_def files_def as_data_def)
  qed
qed


lemma call_inv:
  assumes inv: "async_inv pe s" and t: "mon_pc (as_mon s) t = Outside" "t \<noteq> 0"
    and p: "if t = 2 then back_pc ph (Locking op) \<and> as_phase s = BTop \<and> ph = BTaking else front_pc (Locking op) \<and> ph = as_phase s"
  shows "async_inv pe (call_section t op (s\<lparr>as_phase := ph\<rparr>))"
proof -
  note D = async_invD [OF inv]
  have "mon_ok ((as_mon s)\<lparr>mon_pc := (mon_pc (as_mon s))(t := Locking op)\<rparr>)"
    using mon_ok_step [OF D(1) mon_step.call [where body = log_body, OF t]] .
  moreover have "mode_of ph (if t = 2 then Locking op else mon_pc (as_mon s) 2) = mode_of (as_phase s) (mon_pc (as_mon s) 2)"
    using p by (auto simp: mode_of_def split: if_splits)
  ultimately show ?thesis
    using D p by (intro async_invI) (auto simp: call_section_def file_text_def files_def as_data_def split: if_splits)
qed

lemma round_inv:
  assumes inv: "async_inv pe s" and out: "mon_pc (as_mon s) 2 = Outside" and ph: "ph = BTop \<or> ph = BDone"
    and lf: "output_ok pe lf" and d: "async_data (log_text lf) Idle d"
  shows "async_inv pe ((set_data d s)\<lparr>as_phase := ph, as_file := Some lf\<rparr>)"
proof -
  note D = async_invD [OF inv]
  have "mon_ok ((as_mon s)\<lparr>mon_data := d\<rparr>)" using D(1) by (simp add: mon_ok_def)
  moreover have "mode_of ph Outside = Idle" using ph by (auto simp: mode_of_def)
  ultimately show ?thesis using D ph lf d out
    by (intro async_invI) (auto simp: set_data_def file_text_Some as_data_def back_pc_def)
qed

lemma outside_unless_taking: "async_inv pe s \<Longrightarrow> as_phase s \<noteq> BTaking \<Longrightarrow> mon_pc (as_mon s) 2 = Outside"
  using async_invD(3) by (auto simp: back_pc_def)

lemma idle_at_top: "async_inv pe s \<Longrightarrow> as_phase s = BTop \<Longrightarrow> async_data (file_text s) Idle (as_data s)"
  using async_invD(6) [of pe s] by (simp add: mode_of_def)

lemma busy_after_swap:
  "async_inv pe s \<Longrightarrow> as_phase s = BTaking \<Longrightarrow> mon_pc (as_mon s) 2 = Outside \<Longrightarrow> async_data (file_text s) Busy (as_data s)"
  using async_invD(6) [of pe s] by (simp add: mode_of_def)

lemma begin_data:
  assumes inv: "async_inv pe s" and ph: "as_phase s = BStart" and t: "0 < le_roll_time env" and r: "backend_begin pe env basename roll (as_data s) = Inr (lf, d)"
  shows "output_ok pe lf \<and> segments lf = [([], [])] \<and> async_data (log_text lf) Idle d"
proof -
  note D = async_invD [OF inv]
  have T: "file_text s = []" using D(4) ph by (simp add: file_text_def files_def)
  then have absent: "async_data [] Absent (as_data s)" using D(6) ph by (simp add: mode_of_def)
  from r have lf: "LogFile_ctor pe env basename roll False 3 1024 = Inr lf"
    and d: "d = (as_data s)\<lparr>newBuffer1 := Some new_buffer, newBuffer2 := Some new_buffer, bufferToWrite := []\<rparr>"
    by (auto simp: backend_begin_def cpp_res)
  from lf have base: "CHR ''/'' \<notin> set basename" by (auto simp: LogFile_ctor_def cpp_res)
  have "le_opened env" using lf t by (auto simp: LogFile_ctor_def rollFile_def AppendFile_ctor_def Let_def cpp_res split: if_splits)
  with LogFile_ctor_ok [OF base t, of pe roll False 3 1024] lf have "output_ok pe lf" "segments lf = [([], [])]" "log_text lf = []"
    by (auto simp: output_ok_def log_text_whole)
  moreover from absent obtain b where b: "currentBuffer (as_data s) = Some b" "buf_ok b"
    "texts (filled (as_data s)) @ fb_text b = kept_lines (as_data s)" by (auto simp: async_data_def mode_ok_def)
  have "async_data [] Idle d"
    using b async_dataD [OF absent] by (intro async_dataI [where b = b]) (auto simp: d kept_lines_def mode_ok_def)
  ultimately show ?thesis by simp
qed


lemma async_inv_step:
  assumes inv: "async_inv pe s" and step: "async_step pe basename roll s s'"
  shows "async_inv pe s'"
  using step
proof cases
  case (front t len mem)
  then have "s' = call_section t (LogAppend mem len) (s\<lparr>as_phase := as_phase s\<rparr>)" by simp
  with front call_inv [OF inv front(4,2)] show ?thesis by (simp add: front_pc_def)
next
  case (within m)
  with within_async_inv [OF inv] show ?thesis by simp
next
  case (begins env lf d)
  from begin_data [OF inv begins(2,3,4)] show ?thesis
    unfolding begins(1) using outside_unless_taking [OF inv] begins(2) by (intro round_inv [OF inv]) auto
next
  case top
  show ?thesis unfolding top(1)
    using outside_unless_taking [OF inv] top(2) by (intro call_inv [OF inv]) (simp_all add: back_pc_def)
next
  case (writes lf denv env lf' d)
  from backend_write_returned [OF busy_after_swap [OF inv writes(2,3)] async_invD(5) [OF inv writes(4)] writes(5)]
  have "output_ok pe lf'" "log_text lf' = file_text s @ texts (bufferToWrite (as_data s))"
    "async_data (file_text s @ texts (bufferToWrite (as_data s))) Idle d"
    using file_text_Some [OF writes(4)] wrote_whole by (auto simp: log_text_whole)
  then show ?thesis unfolding writes(1) using writes(3) by (intro round_inv [OF inv]) auto
next
  case (finish lf lf')
  from async_invD(5) [OF inv finish(4)] have "lf_ok pe lf" by (simp add: output_ok_def)
  from with_file_flush [OF this] finish(5) have lf': "output_ok pe lf'" "log_text lf' = file_text s"
    using wrote_whole [of "[]" "segments lf" "segments lf'"] by (auto simp: output_ok_def file_text_Some [OF finish(4)] log_text_whole)
  have "s' = (set_data (as_data s) s)\<lparr>as_phase := BDone, as_file := Some lf'\<rparr>"
    using finish(1) by (simp add: set_data_def as_data_def)
  then show ?thesis
    using outside_unless_taking [OF inv] finish(2) lf' idle_at_top [OF inv finish(2)]
    by (simp only:) (intro round_inv [OF inv], auto)
next
  case (stop w)
  note D = async_invD [OF inv]
  have "mon_ok ((as_mon s)\<lparr>mon_data := async_stop (as_data s), mon_waiting := w\<rparr>)"
    using D(1) notified_subset [OF stop(2)] by (fastforce simp: mon_ok_def)
  moreover have "async_data T md (async_stop d) = async_data T md d" for T md d
    by (cases "nextBuffer d") (simp_all add: async_data_def async_stop_def kept_lines_def)
  ultimately show ?thesis unfolding stop(1)
    using D by (intro async_invI) (simp_all add: file_text_def files_def as_data_def)
qed

interpretation async_runs: transition_system async_starting "async_step pe basename roll" "async_inv pe" for pe basename roll
proof unfold_locales
  fix s
  assume "async_starting s"
  then have s: "s = \<lparr>as_mon = monitor_init (async_start AsyncLogging_ctor), as_phase = BStart, as_file = None\<rparr>"
    by (simp add: async_starting_def)
  have "async_data [] Absent (async_start AsyncLogging_ctor)"
    by (rule async_dataI [where b = new_buffer]) (auto simp: async_start_def AsyncLogging_ctor_def kept_lines_def mode_ok_def)
  then show "async_inv pe s"
    by (intro async_invI) (simp_all add: s mon_ok_init, simp_all add: monitor_init_def front_pc_def back_pc_def mode_of_def file_text_def files_def as_data_def)
qed (rule async_inv_step)

section \<open>The abstract log\<close>

text \<open>
  What the front end promises, without buffers and threads: the files of the log, each with what is on the disk and what is
  missing at its end, and the text accepted and not yet given to them. A line shorter than a buffer is accepted whole. A round moves some of
  what was accepted, in its order, to the end of the log: files that were replaced before stay as they are, the last one
  grows, and new ones may follow. When the round is over, nothing is missing in the last file (so nothing at all,
  when the round starts no file), and at most 60 KB in each other one.
\<close>

inductive log_step :: "segment list \<times> string \<Rightarrow> segment list \<times> string \<Rightarrow> bool" where
  accept: "length l < KLargeBuffer \<Longrightarrow> log_step (S, P) (S, P @ l)"
| start: "log_step ([], P) ([([], [])], P)"
| round: "concat (map (\<lambda>(kept, missing). kept @ missing) N) = d @ X \<Longrightarrow> N \<noteq> [] \<Longrightarrow> prefix d (fst (hd N)) \<Longrightarrow> snd (last N) = [] \<Longrightarrow>
    \<forall>x \<in> set N. length (snd x) \<le> 61440 \<Longrightarrow> log_step (K @ [(d, [])], X @ Q) (K @ N, Q)"

definition backlog :: "async \<Rightarrow> string" where
  "backlog d = texts (bufferToWrite d) @ texts (filled d) @ (case currentBuffer d of None \<Rightarrow> [] | Some b \<Rightarrow> fb_text b)"

definition log_view :: "async_sys \<Rightarrow> segment list \<times> string" where
  "log_view s = (files s, backlog (as_data s))"

lemma log_view_kept: "async_inv pe s \<Longrightarrow> file_text s @ backlog (as_data s) = kept_lines (as_data s)"
  using async_invD(6) [of pe s] by (auto simp: async_data_def backlog_def)

lemma append_given: "async_append mem len d = Inr (Leaves d' ns) \<Longrightarrow> as_given d' = as_given d @ [take len mem]"
  by (auto simp: async_append_def Let_def cpp_res split: option.splits if_splits)

lemma swap_given: "async_swap d = Inr (Leaves d' ns) \<Longrightarrow> as_given d' = as_given d"
  by (auto simp: async_swap_def split: option.splits)

lemma waits_given: "log_body op t m d = Inr (Waits c d' op') \<Longrightarrow> d' = d"
  by (cases op) (auto simp: async_append_def async_take_def async_swap_def Let_def cpp_res split: option.splits if_splits)

lemma leaves_given:
  assumes "log_body op t m d = Inr (Leaves d' ns)"
  shows "as_given d' = as_given d \<or> (\<exists>l. as_given d' = as_given d @ [l])"
  using assms by (cases op) (auto simp: async_take_def dest: append_given swap_given split: if_splits)

lemma within_given:
  assumes "mon_step log_body m m'"
  shows "as_given (mon_data m') = as_given (mon_data m) \<or> (\<exists>l. as_given (mon_data m') = as_given (mon_data m) @ [l])"
  using assms by cases (auto dest: leaves_given waits_given)

lemma backend_given:
  "backend_write pe denv env lf d = Inr (lf', d') \<Longrightarrow> as_given d' = as_given d"
  "backend_begin pe env' basename roll d = Inr (lf', d') \<Longrightarrow> as_given d' = as_given d"
  by (auto simp: backend_write_def backend_begin_def recycle_def Let_def cpp_res split: if_splits)

lemma round_view:
  assumes "wrote X S S'" and "S = segments lf" "S' = segments lf'" and "output_ok pe lf" "output_ok pe lf'"
  shows "log_step (S, X @ Q) (S', Q)"
proof -
  from assms(1) obtain K d t N where N: "S = K @ [(d, t)]" "S' = K @ N" "N \<noteq> []" "whole N = d @ t @ X"
    "prefix d (fst (hd N))" "short_tails N" by (auto simp: wrote_def)
  from assms(4,5) obtain f f' where f: "lf_file lf = Some f" "af_tail f = []" "lf_file lf' = Some f'" "af_tail f' = []"
    by (auto simp: output_ok_def all_flushed_def)
  have "snd (last S) = []" "snd (last S') = []" using f by (simp_all add: assms(2,3) segments_def log_files_def)
  then have "t = []" "snd (last N) = []" using N(1-3) by simp_all
  then show ?thesis
    unfolding N(1,2) using log_step.round [of N d X K Q] N(3-6) by (simp add: whole_def short_tails_def stream_size_def)
qed

text \<open>Every step of the system accepts at most one line, opens the first file, or is a round, but never two of them.\<close>

lemma async_step_effect:
  assumes inv: "async_inv pe s" and step: "async_step pe basename roll s s'"
  obtains (line) l where "files s' = files s" "as_given (as_data s') = as_given (as_data s) @ [l]"
  | (first) "files s = []" "files s' = [([], [])]" "as_given (as_data s') = as_given (as_data s)"
  | (written) X where "\<And>Q. log_step (files s, X @ Q) (files s', Q)" "file_text s' = file_text s @ X" "as_given (as_data s') = as_given (as_data s)"
  | (same) "files s' = files s" "as_given (as_data s') = as_given (as_data s)"
  using step
proof cases
  case (within m)
  with within_given [OF within(2)] line same show ?thesis by (auto simp: files_def as_data_def)
next
  case (begins env lf d)
  have "files s = []" using async_invD(4) [OF inv] begins(2) by (simp add: files_def)
  with backend_given(2) [OF begins(4)] begin_data [OF inv begins(2-4)] first show ?thesis
    by (simp add: begins(1) as_data_def set_data_def files_def)
next
  case (writes lf denv env lf' d)
  let ?X = "texts (bufferToWrite (as_data s))"
  note out = async_invD(5) [OF inv writes(4)]
  from backend_write_returned [OF busy_after_swap [OF inv writes(2,3)] out writes(5)]
  have w: "output_ok pe lf'" "wrote ?X (segments lf) (segments lf')" by auto
  have f: "files s = segments lf" "files s' = segments lf'" using writes(1,4) by (simp_all add: files_def)
  from round_view [OF w(2) refl refl out w(1)] wrote_whole [OF w(2)] backend_given(1) [OF writes(5)] written [of ?X]
  show ?thesis by (simp add: f file_text_def) (simp add: writes(1) as_data_def set_data_def)
next
  case (finish lf lf')
  from async_invD(5) [OF inv finish(4)] have out: "output_ok pe lf" "lf_ok pe lf" by (simp_all add: output_ok_def)
  from with_file_flush [OF out(2)] finish(5) have w: "output_ok pe lf'" "wrote [] (segments lf) (segments lf')"
    by (auto simp: output_ok_def)
  have f: "files s = segments lf" "files s' = segments lf'" using finish(1,4) by (simp_all add: files_def)
  from round_view [OF w(2) refl refl out(1) w(1)] wrote_whole [OF w(2)] written [of "[]"]
  show ?thesis by (simp add: f file_text_def) (simp add: finish(1) as_data_def)
qed (use same in \<open>simp_all add: files_def as_data_def call_section_def async_stop_def\<close>)

lemma async_step_simulates:
  assumes inv: "async_inv pe s" and step: "async_step pe basename roll s s'"
  shows "log_step (log_view s) (log_view s') \<or> log_view s' = log_view s"
proof -
  note kept = log_view_kept [OF inv] log_view_kept [OF async_inv_step [OF inv step]]
  have same_backlog: "backlog (as_data s') = backlog (as_data s)"
    if "file_text s' = file_text s" "as_given (as_data s') = as_given (as_data s)"
  proof -
    have "file_text s @ backlog (as_data s') = file_text s @ backlog (as_data s)" using kept that by (simp add: kept_lines_def)
    then show ?thesis by (simp only: same_append_eq)
  qed
  from inv step show ?thesis
  proof (cases rule: async_step_effect)
    case (line l)
    then have "kept_lines (as_data s') = kept_lines (as_data s) @ (if length l < KLargeBuffer then l else [])" "file_text s' = file_text s"
      by (simp_all add: kept_lines_def file_text_def)
    with kept have "file_text s @ backlog (as_data s') = (file_text s @ backlog (as_data s)) @ (if length l < KLargeBuffer then l else [])"
      by (simp only:)
    then have "backlog (as_data s') = backlog (as_data s) @ (if length l < KLargeBuffer then l else [])"
      by (simp only: append_assoc same_append_eq)
    with line log_step.accept [of l "files s" "backlog (as_data s)"] show ?thesis by (auto simp: log_view_def)
  next
    case first
    with same_backlog log_step.start [of "backlog (as_data s)"] show ?thesis by (simp add: log_view_def file_text_def)
  next
    case (written X)
    then have "kept_lines (as_data s') = kept_lines (as_data s)" by (simp add: kept_lines_def)
    with kept written(2) have "backlog (as_data s) = X @ backlog (as_data s')" by (metis append_assoc same_append_eq)
    with written(1) show ?thesis by (simp add: log_view_def)
  next
    case same
    with same_backlog show ?thesis by (simp add: log_view_def file_text_def)
  qed
qed

lemma log_view_starting: "async_starting s \<Longrightarrow> log_view s = ([], [])"
  by (simp add: async_starting_def log_view_def backlog_def files_def as_data_def monitor_init_def async_start_def AsyncLogging_ctor_def)

interpretation async_log: refinement async_starting "async_step pe basename roll" "async_inv pe" log_step log_view for pe basename roll
  by unfold_locales (rule async_step_simulates)

text \<open>After the end nothing is written any more.\<close>

lemma done_step:
  assumes "async_step pe basename roll s s'" and "as_phase s = BDone"
  shows "as_phase s' = BDone \<and> as_file s' = as_file s"
  using assms by cases (simp_all add: call_section_def)

lemma done_forever:
  assumes "(async_step pe basename roll)\<^sup>*\<^sup>* s s'" and "as_phase s = BDone"
  shows "as_phase s' = BDone \<and> as_file s' = as_file s"
  using assms
proof (induction rule: rtranclp_induct)
  case (step y z)
  then show ?case using done_step [of pe basename roll y z] by simp
qed simp

section \<open>The end of the back end\<close>

text \<open>How far the back end still has to go once it finds \<open>running_\<close> cleared.\<close>

definition backend_rank :: "async_sys \<Rightarrow> nat" where
  "backend_rank s = (case as_phase s of
     BDone \<Rightarrow> 0
   | BTop \<Rightarrow> 1
   | BTaking \<Rightarrow> (case mon_pc (as_mon s) 2 of
        Outside \<Rightarrow> 2
      | Inside op \<Rightarrow> if op = LogSwap then 3 else 6
      | Sleeping c op \<Rightarrow> if 2 \<in> mon_waiting (as_mon s) LogCond then 5 else 4
      | Locking op \<Rightarrow> 7)
   | BStart \<Rightarrow> 8)"

definition same_backend :: "async_sys \<Rightarrow> async_sys \<Rightarrow> bool" where
  "same_backend s s' \<longleftrightarrow> as_phase s' = as_phase s \<and> mon_pc (as_mon s') 2 = mon_pc (as_mon s) 2
     \<and> mon_waiting (as_mon s') LogCond \<subseteq> mon_waiting (as_mon s) LogCond"

lemma same_backend_rank: "same_backend s s' \<Longrightarrow> backend_rank s' \<le> backend_rank s"
  by (auto simp: same_backend_def backend_rank_def split: backend_phase.split mon_pc.split)

lemma append_running: "async_append mem len d = Inr (Leaves d' ns) \<Longrightarrow> running d' = running d"
  by (auto simp: async_append_def Let_def cpp_res split: option.splits if_splits)

lemma swap_running: "async_swap d = Inr (Leaves d' ns) \<Longrightarrow> running d' = running d"
  by (auto simp: async_swap_def split: option.splits)

lemma take_running: "async_take d = Inr (Leaves d' ns) \<Longrightarrow> running d' = running d"
  by (auto simp: async_take_def dest: swap_running split: if_splits)

lemma backend_write_running: "backend_write pe denv env lf d = Inr (lf', d') \<Longrightarrow> running d' = running d"
  by (auto simp: backend_write_def recycle_def Let_def cpp_res split: if_splits)

text \<open>A step inside the monitor brings the back end nearer to its end or leaves it where it is.\<close>

lemma within_rank:
  assumes inv: "async_inv pe s" and step: "mon_step log_body (as_mon s) m"
    and out: "\<forall>t. mon_pc (as_mon s) t = Outside \<longrightarrow> mon_pc m t = Outside"
  shows "running (mon_data m) = running (as_data s)
    \<and> (same_backend s (s\<lparr>as_mon := m\<rparr>) \<or> as_phase s = BTaking \<and> backend_rank (s\<lparr>as_mon := m\<rparr>) < backend_rank s)"
  using step
proof cases
  case (call t op)
  with spec [OF out, of t] show ?thesis by simp
next
  case (lock t op mm)
  with async_invD(3) [OF inv] show ?thesis
    by (cases "t = 2") (auto simp: back_pc_def same_backend_def backend_rank_def as_data_def)
next
  case (leave t op d ns w)
  note sub = notified_subset [OF leave(4), of LogCond]
  from inv leave(2) show ?thesis
  proof (cases rule: inside_op)
    case (1 mem len)
    with leave sub append_running [of mem len "as_data s" d ns] show ?thesis by (simp add: same_backend_def as_data_def)
  next
    case 2
    with leave take_running [of "as_data s" d ns] swap_running [of "as_data s" d ns] show ?thesis
      by (auto simp: backend_rank_def as_data_def)
  qed
next
  case (wait t op c d op' mm w)
  from inv wait(2) show ?thesis
  proof (cases rule: inside_op)
    case (1 mem len)
    with async_append_keeps [OF async_invD(6) [OF inv] 1(3)] wait(3) show ?thesis by (auto simp: as_data_def)
  next
    case 2
    with async_swap_keeps [OF 2(4)] wait(3) have "op = LogTake" "d = as_data s" by (auto simp: as_data_def async_take_def split: if_splits)
    with 2 wait show ?thesis by (auto simp: backend_rank_def as_data_def)
  qed
next
  case (resume t c op mm)
  then have "t = 2" using async_invD(2) [OF inv, of t] by (auto simp: front_pc_def)
  with resume async_invD(3) [OF inv] show ?thesis by (auto simp: back_pc_def backend_rank_def as_data_def)
next
  case (spurious t c)
  then show ?thesis by (auto simp: same_backend_def as_data_def)
qed

lemma stopped_step:
  assumes inv: "async_inv pe s" and stopped: "\<not> running (as_data s)" "as_phase s \<noteq> BStart"
    and step: "async_step pe basename roll s s'"
  shows "\<not> running (as_data s') \<and> as_phase s' \<noteq> BStart \<and> (same_backend s s' \<or> backend_rank s' < backend_rank s)"
  using step
proof cases
  case (front t len mem)
  with stopped show ?thesis by (simp add: same_backend_def call_section_def as_data_def)
next
  case (within m)
  with within_rank [OF inv within(2,3)] stopped show ?thesis by (auto simp: as_data_def)
next
  case (writes lf denv env lf' d)
  with backend_write_running [OF writes(5)] stopped show ?thesis by (simp add: set_data_def as_data_def backend_rank_def)
next
  case (finish lf lf')
  with stopped show ?thesis by (simp add: as_data_def backend_rank_def)
next
  case (stop w)
  with notified_subset [OF stop(2), of LogCond] stopped show ?thesis
    by (simp add: same_backend_def as_data_def async_stop_def)
qed (use stopped in simp_all)

text \<open>
  Nobody else is in a section, and the round under way has or will have at most 25 buffers. From
  there the back end can go on by itself.
\<close>

definition backend_ready :: "async_sys \<Rightarrow> bool" where
  "backend_ready s \<longleftrightarrow> (\<forall>t op. t \<noteq> 2 \<longrightarrow> mon_pc (as_mon s) t \<noteq> Inside op)
     \<and> (as_phase s = BTaking \<longrightarrow> (if mon_pc (as_mon s) 2 = Outside then length (bufferToWrite (as_data s)) \<le> 25
         else length (filled (as_data s)) < 25))"

lemma mutex_free:
  assumes "async_inv pe s" and "backend_ready s" and "\<And>op. mon_pc (as_mon s) 2 \<noteq> Inside op"
  shows "mtx_owner (mon_mutex (as_mon s)) = None"
proof (cases "mtx_owner (mon_mutex (as_mon s))")
  case (Some t)
  with mon_okD(2) [OF async_invD(1) [OF assms(1)]] obtain op where "mon_pc (as_mon s) t = Inside op" by blast
  with assms(2,3) show ?thesis by (cases "t = 2") (auto simp: backend_ready_def)
qed

text \<open>A step of the back end inside the monitor.\<close>

lemma within_progress:
  assumes "mon_step log_body (as_mon s) m" and "as_phase s = BTaking" and "mon_pc (as_mon s) 2 \<noteq> Outside"
    and "mon_pc m = (mon_pc (as_mon s))(2 := p)" and "backend_ready s"
    and "if p = Outside then length (bufferToWrite (mon_data m)) \<le> 25 else filled (mon_data m) = filled (as_data s)"
    and "backend_rank (s\<lparr>as_mon := m\<rparr>) < backend_rank s"
  shows "\<exists>s'. async_step pe basename roll s s' \<and> backend_rank s' < backend_rank s \<and> backend_ready s'"
proof -
  have "async_step pe basename roll s (s\<lparr>as_mon := m\<rparr>)"
    using assms(1,3,4) by (intro async_step.within) auto
  moreover have "backend_ready (s\<lparr>as_mon := m\<rparr>)"
    using assms(2-6) by (auto simp: backend_ready_def as_data_def split: if_splits)
  ultimately show ?thesis using assms(7) by blast
qed

lemma write_progress:
  assumes inv: "async_inv pe s" and ready: "backend_ready s" and ph: "as_phase s = BTaking" and pc: "mon_pc (as_mon s) 2 = Outside"
  shows "\<exists>s'. async_step pe basename roll s s' \<and> backend_rank s' < backend_rank s \<and> backend_ready s'"
proof -
  from async_invD(4) [OF inv] ph obtain lf where lf: "as_file s = Some lf" by fastforce
  have out: "output_ok pe lf" using async_invD(5) [OF inv lf] .
  let ?env = "\<lparr>le_time = 0, le_roll_time = 0, le_opened = True, le_answers = []\<rparr>"
  have few: "length (bufferToWrite (as_data s)) \<le> 25" using ready ph pc by (simp add: backend_ready_def)
  have "\<forall>i :: nat. env_ok ?env" by (simp add: env_ok_def)
  from backend_write_keeps [OF busy_after_swap [OF inv ph pc] out few this] obtain lf' d where
    "backend_write pe ?env (\<lambda>_. ?env) lf (as_data s) = Inr (lf', d)" by metis
  from async_step.writes [OF ph pc lf this] show ?thesis
    using ph pc ready by (intro exI [of _ "(set_data d s)\<lparr>as_phase := BTop, as_file := Some lf'\<rparr>"])
      (simp add: backend_rank_def backend_ready_def set_data_def)
qed

lemma backend_progress:
  assumes inv: "async_inv pe s" and stopped: "\<not> running (as_data s)" "as_phase s \<noteq> BStart" "as_phase s \<noteq> BDone"
    and ready: "backend_ready s"
  shows "\<exists>s'. async_step pe basename roll s s' \<and> backend_rank s' < backend_rank s \<and> backend_ready s'"
proof (cases "as_phase s")
  case BTop
  from async_invD(4) [OF inv] BTop obtain lf where lf: "as_file s = Some lf" by fastforce
  with with_file_flush [of pe lf] async_invD(5) [OF inv lf] obtain lf' where "with_file af_flush lf = Inr lf'" by (auto simp: output_ok_def)
  from async_step.finish [OF BTop stopped(1) lf this] show ?thesis
    using BTop ready by (intro exI [of _ "s\<lparr>as_phase := BDone, as_file := Some lf'\<rparr>"])
      (simp add: backend_rank_def backend_ready_def as_data_def)
next
  case ph: BTaking
  note free = mutex_free [OF inv ready] and few = ready [unfolded backend_ready_def]
  from async_invD(3) [OF inv] consider (out) "mon_pc (as_mon s) 2 = Outside" | (lock) "mon_pc (as_mon s) 2 = Locking LogTake"
    | (inside) op where "mon_pc (as_mon s) 2 = Inside op" "op = LogTake \<or> op = LogSwap" | (sleep) "mon_pc (as_mon s) 2 = Sleeping LogCond LogSwap"
    by (auto simp: back_pc_def)
  then show ?thesis
  proof cases
    case out
    with write_progress [OF inv ready ph] show ?thesis by blast
  next
    case lock
    with free obtain m where "MutexLock_lock 2 (mon_mutex (as_mon s)) = Some m" by (simp add: MutexLock_lock_def)
    from within_progress [OF mon_step.lock [OF lock this] ph, of "Inside LogTake"] lock ready show ?thesis
      by (simp add: backend_rank_def ph as_data_def)
  next
    case inside
    from inv inside(1) have idle: "async_data (file_text s) Idle (as_data s)" by (cases rule: inside_op) auto
    from async_swap_keeps [OF idle] obtain d where d: "async_swap (as_data s) = Inr (Leaves d [])" by blast
    then have len: "length (bufferToWrite d) = Suc (length (filled (as_data s)))" by (auto simp: async_swap_def split: option.splits)
    show ?thesis
    proof (cases "op = LogTake \<and> filled (as_data s) = []")
      case True
      then have "log_body op 2 (mon_mutex (as_mon s)) (mon_data (as_mon s)) = Inr (Waits LogCond (as_data s) LogSwap)"
        by (simp add: async_take_def as_data_def)
      from within_progress [OF mon_step.wait [where body = log_body, OF inside(1) this Condition_block_def] ph, of "Sleeping LogCond LogSwap"] inside(1) ready True show ?thesis
        by (simp add: backend_rank_def ph as_data_def)
    next
      case False
      then have "log_body op 2 (mon_mutex (as_mon s)) (mon_data (as_mon s)) = Inr (Leaves d [])"
        using d inside(2) by (auto simp: async_take_def as_data_def)
      from within_progress [OF mon_step.leave [where body = log_body, OF inside(1) this notified.none] ph, of Outside] inside(1) ready len few ph show ?thesis
        by (simp add: backend_rank_def)
    qed
  next
    case sleep
    show ?thesis
    proof (cases "2 \<in> mon_waiting (as_mon s) LogCond")
      case True
      from within_progress [OF mon_step.spurious [OF True] ph, of "Sleeping LogCond LogSwap"] sleep ready True show ?thesis
        by (simp add: backend_rank_def ph as_data_def fun_upd_idem)
    next
      case False
      with free sleep obtain m where "Condition_resume 2 LogCond (mon_mutex (as_mon s)) (mon_waiting (as_mon s)) = Some m"
        by (simp add: Condition_resume_def)
      from within_progress [OF mon_step.resume [OF sleep this] ph, of "Inside LogSwap"] sleep ready show ?thesis
        by (simp add: backend_rank_def ph as_data_def)
    qed
  qed
qed (use stopped in simp_all)

lemma backend_finishes:
  assumes "async_inv pe s" and "\<not> running (as_data s)" and "as_phase s \<noteq> BStart" and "backend_ready s"
  shows "\<exists>s'. (async_step pe basename roll)\<^sup>*\<^sup>* s s' \<and> as_phase s' = BDone"
  using assms
proof (induction "backend_rank s" arbitrary: s rule: less_induct)
  case less
  show ?case
  proof (cases "as_phase s = BDone")
    case False
    from backend_progress [OF less.prems(1-3) False less.prems(4)] obtain s1 where
      s1: "async_step pe basename roll s s1" "backend_rank s1 < backend_rank s" "backend_ready s1" by blast
    from stopped_step [OF less.prems(1-3) s1(1)] less.hyps [OF s1(2) async_inv_step [OF less.prems(1) s1(1)]] s1(3)
    obtain s' where "(async_step pe basename roll)\<^sup>*\<^sup>* s1 s'" "as_phase s' = BDone" by blast
    with s1(1) show ?thesis by (meson converse_rtranclp_into_rtranclp)
  qed blast
qed

section \<open>Properties\<close>

text \<open>
  C38. Asynchronous logging. In every state that threads appending lines and the back end can reach
  together: no section under the mutex fails; the text given to the log file, then the buffers being
  written, the filled buffers and the current one make up exactly the lines that were given and
  are shorter than a buffer, in their order (longer ones are dropped without notice); of the text given to the
  log file, all that is in the current file is on the disk, and each replaced file misses at most 60 KB, at its end; the
  assertions at the top of the back end's loop hold; a round that took at most 25 buffers gives
  them all to the log file, if \<open>fwrite\<close> takes them, puts them all on the disk when it does not replace the file, and gets its two spare buffers back.
  But a round with more buffers reads behind the literal \<open>"drop log!"\<close>; a \<open>stop\<close> before the back end has started aborts it;
  and after the end of the back end the file stays as it is, so lines that are still buffered are
  lost. Buffers and exchanges are invisible outside: every run, from the start and
  from any state it passes, is a run of the abstract log, which accepts whole lines and moves
  accepted text to the end of its files in order, where only what is replaced within a round can lose some of its end.
\<close>

theorem async_logging_correct:
  assumes "async_starting s0" and "(async_step pe basename roll)\<^sup>*\<^sup>* s0 s"
  shows "let d = as_data s in
      (\<forall>t op. mon_pc (as_mon s) t = Inside op \<longrightarrow> (\<exists>r. log_body op t (mon_mutex (as_mon s)) d = Inr r))
      \<and> (\<exists>b. currentBuffer d = Some b
          \<and> file_text s @ texts (bufferToWrite d) @ texts (filled d) @ fb_text b
            = concat (filter (\<lambda>l. length l < KLargeBuffer) (as_given d)))
      \<and> (\<forall>lf. as_file s = Some lf \<longrightarrow> file_text s = concat (map (\<lambda>f. af_disk f @ af_tail f) (log_files lf))
          \<and> (\<exists>f. lf_file lf = Some f \<and> af_tail f = []) \<and> (\<forall>f \<in> set (lf_left lf). af_freed f \<and> length (af_tail f) \<le> 61440))
      \<and> (as_phase s = BTop \<longrightarrow> backend_top d = Inr ())
      \<and> (as_phase s = BTaking \<and> mon_pc (as_mon s) 2 = Outside \<longrightarrow>
          (\<exists>lf. as_file s = Some lf
           \<and> (length (bufferToWrite d) \<le> 25 \<longrightarrow> (\<forall>denv env. (\<forall>i. env_ok (env i)) \<longrightarrow>
               (\<exists>lf' d'. backend_write pe denv env lf d = Inr (lf', d') \<and> log_text lf' = file_text s @ texts (bufferToWrite d)
                  \<and> (lf_left lf' = lf_left lf \<longrightarrow>
                       concat (map af_disk (log_files lf')) = concat (map af_disk (log_files lf)) @ texts (bufferToWrite d))
                  \<and> backend_top d' = Inr ())))
           \<and> (length (bufferToWrite d) > 25 \<longrightarrow> (\<forall>denv env. backend_write pe denv env lf d = Inl OutOfBounds))))
      \<and> (as_phase s = BStart \<and> \<not> running d \<longrightarrow> (\<forall>env. backend_begin pe env basename roll d = Inl AssertFailed))
      \<and> (as_phase s = BDone \<longrightarrow> (\<forall>s'. (async_step pe basename roll)\<^sup>*\<^sup>* s s' \<longrightarrow> as_file s' = as_file s))
      \<and> log_step\<^sup>*\<^sup>* ([], []) (log_view s) \<and> (\<forall>s'. (async_step pe basename roll)\<^sup>*\<^sup>* s s' \<longrightarrow> log_step\<^sup>*\<^sup>* (log_view s) (log_view s'))"
proof -
  have inv: "async_inv pe s" using async_runs.reachable_inv [OF assms] .
  note D = async_invD [OF inv]
  have top: "backend_top d = Inr ()" if "async_data T Idle d" for T d
    using async_dataD(4) [OF that] by (auto simp: backend_top_def mode_ok_def is_empty_buffer_def fb_length_def)
  have disk: "file_text s = concat (map (\<lambda>f. af_disk f @ af_tail f) (log_files lf))
          \<and> (\<exists>f. lf_file lf = Some f \<and> af_tail f = []) \<and> (\<forall>f \<in> set (lf_left lf). af_freed f \<and> length (af_tail f) \<le> 61440)"
    if "as_file s = Some lf" for lf
  proof -
    from D(5) [OF that] have ok: "lf_ok pe lf" "all_flushed lf" by (simp_all add: output_ok_def)
    from ok(1) have "\<forall>f \<in> set (lf_left lf). af_freed f \<and> length (af_tail f) \<le> 61440"
      using file_tail by (auto simp: stream_size_def elim!: lf_okD)
    with ok(2) show ?thesis by (simp add: file_text_Some [OF that] log_text_def disk_tail all_flushed_def)
  qed
  have round: "\<exists>lf. as_file s = Some lf
           \<and> (length (bufferToWrite (as_data s)) \<le> 25 \<longrightarrow> (\<forall>denv env. (\<forall>i. env_ok (env i)) \<longrightarrow>
               (\<exists>lf' d'. backend_write pe denv env lf (as_data s) = Inr (lf', d') \<and> log_text lf' = file_text s @ texts (bufferToWrite (as_data s))
                  \<and> (lf_left lf' = lf_left lf \<longrightarrow>
                       concat (map af_disk (log_files lf')) = concat (map af_disk (log_files lf)) @ texts (bufferToWrite (as_data s)))
                  \<and> backend_top d' = Inr ())))
           \<and> (length (bufferToWrite (as_data s)) > 25 \<longrightarrow> (\<forall>denv env. backend_write pe denv env lf (as_data s) = Inl OutOfBounds))"
    if t: "as_phase s = BTaking" "mon_pc (as_mon s) 2 = Outside"
  proof -
    from D(4) t(1) obtain lf where lf: "as_file s = Some lf" by fastforce
    note out = D(5) [OF lf] and busy = busy_after_swap [OF inv t]
    have "\<exists>lf' d'. backend_write pe denv env lf (as_data s) = Inr (lf', d')
        \<and> log_text lf' = file_text s @ texts (bufferToWrite (as_data s))
        \<and> (lf_left lf' = lf_left lf \<longrightarrow>
             concat (map af_disk (log_files lf')) = concat (map af_disk (log_files lf)) @ texts (bufferToWrite (as_data s)))
        \<and> backend_top d' = Inr ()"
      if few: "length (bufferToWrite (as_data s)) \<le> 25" "\<forall>i. env_ok (env i)" for denv env
    proof -
      from backend_write_keeps [OF busy out few, of denv] obtain lf' d' where
        w: "backend_write pe denv env lf (as_data s) = Inr (lf', d')" "output_ok pe lf'"
          "wrote (texts (bufferToWrite (as_data s))) (segments lf) (segments lf')"
          "async_data (file_text s @ texts (bufferToWrite (as_data s))) Idle d'" by blast
      from wrote_whole [OF w(3)] file_text_Some [OF lf] have "log_text lf' = file_text s @ texts (bufferToWrite (as_data s))"
        by (simp add: log_text_whole)
      with w(1) no_roll_disk [OF w(3) out w(2)] top [OF w(4)] show ?thesis by blast
    qed
    moreover have "lf_ok pe lf" using out by (simp add: output_ok_def)
    ultimately show ?thesis using lf drop_overreads by blast
  qed
  have "\<exists>b. currentBuffer (as_data s) = Some b
      \<and> file_text s @ texts (bufferToWrite (as_data s)) @ texts (filled (as_data s)) @ fb_text b
        = concat (filter (\<lambda>l. length l < KLargeBuffer) (as_given (as_data s)))"
    using D(6) unfolding async_data_def kept_lines_def by blast
  moreover have "backend_begin pe env basename roll (as_data s) = Inl AssertFailed" if "\<not> running (as_data s)" for env
    using that by (simp add: backend_begin_def)
  moreover have "log_step\<^sup>*\<^sup>* ([], []) (log_view s)"
    using async_log.refines [OF assms] log_view_starting [OF assms(1)] by simp
  ultimately show ?thesis
    unfolding Let_def using sections_return [OF inv] disk top idle_at_top [OF inv] round done_forever async_log.refines_from [OF _ inv] by blast
qed


text \<open>Started and stopped before the back end ran: it aborts when it does.\<close>

definition stopped_early :: async_sys where
  "stopped_early = \<lparr>as_mon = monitor_init AsyncLogging_ctor, as_phase = BStart, as_file = None\<rparr>"

theorem async_logging_correct_witness:
  "(\<exists>s0. async_starting s0 \<and> (async_step \<lparr>pe_host = None, pe_pid = 7\<rparr> ''log'' 1000)\<^sup>*\<^sup>* s0 stopped_early)
    \<and> backend_begin \<lparr>pe_host = None, pe_pid = 7\<rparr> \<lparr>le_time = 100, le_roll_time = 100, le_opened = True, le_answers = []\<rparr> ''log'' 1000
        (as_data stopped_early) = Inl AssertFailed
    \<and> (\<exists>b. currentBuffer (as_data stopped_early) = Some b \<and> fb_text b = [])"
proof -
  let ?pe = "\<lparr>pe_host = None, pe_pid = 7\<rparr>"
  let ?s0 = "\<lparr>as_mon = monitor_init (async_start AsyncLogging_ctor), as_phase = BStart, as_file = None\<rparr>"
  have st: "async_starting ?s0" by (simp add: async_starting_def)
  have "notified [NotifyOne LogCond] (\<lambda>_. {}) (\<lambda>_. {})" by (rule notified.nobody) simp_all
  then have "async_step ?pe ''log'' 1000 ?s0 stopped_early"
    using async_step.stop [of ?s0 "\<lambda>_. {}" ?pe "''log''" 1000]
    by (simp add: monitor_init_def as_data_def async_stop_def async_start_def AsyncLogging_ctor_def stopped_early_def)
  then have reach: "(async_step ?pe ''log'' 1000)\<^sup>*\<^sup>* ?s0 stopped_early" by blast
  have "as_phase stopped_early = BStart" "\<not> running (as_data stopped_early)" "as_given (as_data stopped_early) = []"
    by (simp_all add: stopped_early_def as_data_def monitor_init_def AsyncLogging_ctor_def)
  with async_logging_correct [OF st reach] st reach show ?thesis by (auto simp: Let_def)
qed

text \<open>
  C31. The back end ends after \<open>stop\<close>. Once \<open>running_\<close> is cleared and the back end has started, it
  stays cleared, and whatever any thread does, each step either leaves the back end where it is or
  brings it nearer to its end, of which it is at most seven steps away: it makes no further round.
  If no other thread is in a section and the round under way has at most 25 buffers, the back end
  gets there by itself, so that the join in \<open>stop\<close> returns.
\<close>

theorem backend_ends:
  assumes "async_starting s0" and "(async_step pe basename roll)\<^sup>*\<^sup>* s0 s"
    and "\<not> running (as_data s)" and "as_phase s \<noteq> BStart"
  shows "backend_rank s \<le> 7
    \<and> (\<forall>s'. async_step pe basename roll s s' \<longrightarrow> \<not> running (as_data s') \<and> as_phase s' \<noteq> BStart
        \<and> (backend_rank s' < backend_rank s
           \<or> backend_rank s' = backend_rank s \<and> as_phase s' = as_phase s \<and> mon_pc (as_mon s') 2 = mon_pc (as_mon s) 2))
    \<and> (backend_rank s = 0 \<longleftrightarrow> as_phase s = BDone)
    \<and> (backend_ready s \<longrightarrow> (\<exists>s'. (async_step pe basename roll)\<^sup>*\<^sup>* s s' \<and> as_phase s' = BDone))"
proof -
  have inv: "async_inv pe s" using async_runs.reachable_inv [OF assms(1,2)] .
  have "backend_rank s \<le> 7" "backend_rank s = 0 \<longleftrightarrow> as_phase s = BDone"
    using assms(4) by (auto simp: backend_rank_def split: backend_phase.split mon_pc.split)
  moreover have "\<not> running (as_data s') \<and> as_phase s' \<noteq> BStart
        \<and> (backend_rank s' < backend_rank s
           \<or> backend_rank s' = backend_rank s \<and> as_phase s' = as_phase s \<and> mon_pc (as_mon s') 2 = mon_pc (as_mon s) 2)"
    if "async_step pe basename roll s s'" for s'
    using stopped_step [OF inv assms(3,4) that] same_backend_rank [of s s'] by (auto simp: same_backend_def)
  ultimately show ?thesis using backend_finishes [OF inv assms(3,4)] by blast
qed

theorem backend_ends_witness:
  "\<exists>s0 s s'. async_starting s0 \<and> (async_step \<lparr>pe_host = None, pe_pid = 7\<rparr> ''log'' 1000)\<^sup>*\<^sup>* s0 s \<and> \<not> running (as_data s)
    \<and> as_phase s = BTop \<and> (async_step \<lparr>pe_host = None, pe_pid = 7\<rparr> ''log'' 1000)\<^sup>*\<^sup>* s s' \<and> as_phase s' = BDone"
proof -
  let ?pe = "\<lparr>pe_host = None, pe_pid = 7\<rparr>"
  let ?env = "\<lparr>le_time = 100, le_roll_time = 100, le_opened = True, le_answers = []\<rparr>"
  let ?init = "\<lparr>as_mon = monitor_init (async_start AsyncLogging_ctor), as_phase = BStart, as_file = None\<rparr>"
  have st: "async_starting ?init" by (simp add: async_starting_def)
  from LogFile_ctor_ok [of "''log''" ?env ?pe 1000 False 3 1024] obtain lf where "LogFile_ctor ?pe ?env ''log'' 1000 False 3 1024 = Inr lf" by auto
  then obtain d where b: "backend_begin ?pe ?env ''log'' 1000 (as_data ?init) = Inr (lf, d)"
    by (simp add: backend_begin_def as_data_def monitor_init_def async_start_def)
  let ?mid = "(set_data d ?init)\<lparr>as_phase := BTop, as_file := Some lf\<rparr>"
  let ?fin = "?mid\<lparr>as_mon := (as_mon ?mid)\<lparr>mon_data := async_stop (as_data ?mid), mon_waiting := \<lambda>_. {}\<rparr>\<rparr>"
  have "async_step ?pe ''log'' 1000 ?init ?mid" by (rule async_step.begins [OF _ _ b]) simp_all
  moreover have "notified [NotifyOne LogCond] (mon_waiting (as_mon ?mid)) (\<lambda>_. {})"
    by (simp add: set_data_def monitor_init_def notified.nobody notified.none)
  then have "async_step ?pe ''log'' 1000 ?mid ?fin" by (rule async_step.stop)
  ultimately have reach: "(async_step ?pe ''log'' 1000)\<^sup>*\<^sup>* ?init ?fin" by (meson converse_rtranclp_into_rtranclp r_into_rtranclp)
  have s: "\<not> running (as_data ?fin)" "as_phase ?fin = BTop" "backend_ready ?fin"
    by (simp_all add: as_data_def async_stop_def backend_ready_def set_data_def monitor_init_def)
  with backend_ends [OF st reach] obtain s' where "(async_step ?pe ''log'' 1000)\<^sup>*\<^sup>* ?fin s'" "as_phase s' = BDone" by auto
  with st reach s(1,2) show ?thesis by blast
qed

end
