(* ===== verification/Spec2Isabelle.thy ===== *)
theory Spec2Isabelle
  imports Echo_Server Thread_Pool Loop_Thread Async_Logging
begin

text \<open>
  A verification of \<open>muduo_hhl\<close>, a C++ network library in the style of muduo: reactor loops, one per
  thread, with channels, timers, buffers and TCP connections on top.

  \<^bold>\<open>The program.\<close> An \<open>EventLoop\<close> (\<open>net/EventLoop\<close>) waits in its \<open>Epoller\<close> (\<open>net/Epoller\<close>) for events on
  descriptors. Each descriptor has a \<open>Channel\<close> (\<open>net/Channel\<close>) that holds the interest mask and the
  callbacks; the loop hands ready channels their events, then runs the functors other code queued
  with \<open>runInLoop\<close> and \<open>queneInLoop\<close>, from the same or another thread. \<open>TimerQueue\<close> keeps the timers
  of a loop behind one timer descriptor. \<open>TcpConnection\<close> drives one connected socket with an input and
  an output \<open>Buffer\<close>. On the server side \<open>Acceptor\<close> accepts, \<open>EventLoopThreadPool\<close> picks a loop and
  \<open>TcpServer\<close> keeps the map of connections; on the client side \<open>Connector\<close> connects with retries and
  \<open>TcpClient\<close> holds the one connection it made. Below them are the thread classes (mutex, condition,
  latch, \<open>thread\<close>, \<open>EventLoopThread\<close>, \<open>ThreadPool\<close>) and the logging classes (\<open>Logger\<close>, \<open>LogFile\<close> and the
  back-end thread of \<open>AsyncLogging\<close>).

  \<^bold>\<open>Theories and source.\<close>
  \<^item> \<open>Muduo_Prelude\<close>: the errors a run can end with (failed assertion, out-of-bounds access, use after
    free, uncaught exception, undefined behaviour), the result type with \<open>bindR\<close>, \<open>cassert\<close> and
    \<open>foldR\<close>, arithmetic of \<open>size_t\<close> with its wrap-around, searches, decimal text, the locale
    \<open>transition_system\<close> that gives an invariant in every reachable state, the locale \<open>refinement\<close>
    that makes every run a run of an abstract system, and the abstract queue \<open>fifo_step\<close>.
  \<^item> \<open>Byte_Buffer\<close>: \<open>net/Buffer\<close>, \<open>net/Endian.h\<close>. The vector with its two indices; C1 to C5.
  \<^item> \<open>Reactor\<close>: \<open>net/Channel\<close>, \<open>net/Epoller\<close>, \<open>net/poller\<close> and the registration functions of
    \<open>EventLoop\<close>. Channels live on an explicit heap, so that dangling pointers can be expressed; the
    calls of \<open>epoll_ctl\<close> are a log that is replayed on a documented kernel; C6, C8, C9.
  \<^item> \<open>Event_Loop\<close>: the rest of \<open>net/EventLoop\<close>: functor queue, wakeup, one round, the loop,
    construction and destruction, and the interleavings of the loop's thread with any number of
    others (\<open>queue_step\<close>: each critical section is one step); C10 to C14.
  \<^item> \<open>Timers\<close>: \<open>net/TimerQueue\<close>, \<open>net/Timer\<close>, \<open>net/TimerId.h\<close>, \<open>base/TimeStamp\<close>, \<open>base/Atomic.h\<close>. Timer
    objects live on a heap; callbacks are scripts of calls (locale \<open>timer_client\<close>); C15 to C20.
  \<^item> \<open>Tcp_Connection\<close>: \<open>net/TcpConnection\<close> and the socket functions it calls. The locale \<open>conn_user\<close> says
    what a user callback must keep. It is interpreted on callbacks that are scripts of calls on the
    connection and on callbacks that make any \<open>request\<close> (\<open>send\<close>, \<open>shutdown\<close>, \<open>forceClose\<close>, \<open>startRead\<close>,
    \<open>stopRead\<close>, the setters). \<open>conn_step\<close> lets events, all queued functors and requests of any thread come in
    any order; with its parameter \<open>lax\<close> also those after which a closed connection may wait for events or be
    out of the poller (\<open>startRead\<close> once it is closed, \<open>connectDestroyed\<close>), which weakens the invariant
    to what is then still true. A request is one step: the races between \<open>send\<close> of another thread
    and the loop on \<open>state_\<close>, which has no lock, are left out; C22 to C26.
  \<^item> \<open>Inet_Address\<close>: \<open>net/InetAddress\<close> and the address functions of \<open>net/SocketOps\<close>; C27.
  \<^item> \<open>Tcp_Server\<close>: \<open>net/EventLoopThreadPool\<close>, \<open>net/Acceptor\<close>, \<open>net/TcpServer\<close>; C28 to C30.
  \<^item> \<open>Connector\<close>: \<open>net/Connector\<close>. \<open>con_step\<close> lets starts, stops, restarts, timers, functors and events come in any
    order; with its parameter \<open>strict\<close> no attempt starts while another is under way, which is what the
    assertion that the code has commented out asked for; C32 to C34.
  \<^item> \<open>Tcp_Client\<close>: \<open>net/TcpClient\<close> on top of \<open>Connector\<close> and \<open>Tcp_Connection\<close>; C40.
  \<^item> \<open>Loop_Round\<close>: no code of its own; one pass of \<open>EventLoop::loop\<close> over a readable connection, put
    together from \<open>Event_Loop\<close>, \<open>Reactor\<close> and \<open>Tcp_Connection\<close>.
  \<^item> \<open>Echo_Server\<close>: the echo server of \<open>main.cpp\<close> on top of the server and the connections, and the
    object factory there; C7 follows a message through all layers.
  \<^item> \<open>Threads\<close>: \<open>src/mutex.h\<close>, \<open>src/Condition\<close>, \<open>src/countDownLatch\<close>, \<open>src/thread\<close>, \<open>src/CurrentThread\<close>. A
    class that guards its members with one mutex is a monitor: \<open>mon_step\<close> interleaves the sections of
    all threads, with spurious wakeups. The locales \<open>monitor_client\<close> (every section keeps the
    members' invariant) and \<open>signalling\<close> (no wakeup is lost) are interpreted by the latch, the pool
    and, for the invariant of its runs, every class below; \<open>monitor_refinement\<close> adds that each section
    is one operation of an abstract object and is a sublocale of \<open>refinement\<close>; C35.
  \<^item> \<open>Thread_Pool\<close>: \<open>net/ThreadPool\<close>; C36, C37.
  \<^item> \<open>Loop_Thread\<close>: \<open>net/EventLoopThread\<close>, the handshake of the starter with the new thread; C21.
  \<^item> \<open>Log_File\<close>: \<open>src/FixedBuffer.h\<close>, \<open>src/FileUtil\<close>, \<open>src/LogFile\<close>, \<open>src/Logging\<close>, \<open>base/Processinfo\<close>,
    \<open>base/timeMethod\<close>, \<open>base/chrMethod\<close>. A file is the text given to its stream and the length of the part that is on
    the disk; the rest is in the stream's 60 KB buffer, a member of \<open>AppendFile\<close>, and is lost when the object is
    replaced; C39.
  \<^item> \<open>Async_Logging\<close>: \<open>src/AsyncLogging\<close>, threads that append and the back end as one step relation; C31, C38.

  \<^bold>\<open>Conventions.\<close> A class is a record, its methods are functions on the state that return an error or
  the new state; a failed \<open>assert\<close> is the error \<open>AssertFailed\<close>, since the build keeps assertions.
  \<open>assertInLoopThread\<close> only logs, so it has no effect here. Log output is left out. What the kernel
  answers (bytes read, bytes written, accepted descriptors, error numbers, ready events), what the
  allocator returns, the clock and the calling thread are arguments. \<open>size_t\<close> is a natural number
  with the wrap-around written out, fixed-width integers are words, \<open>int64_t\<close> times are integers
  with overflow as an error; only a reading of the clock is taken to fit. The integer that the \<open>snprintf\<close> in
  \<open>TcpClient::newConnection\<close> prints without having been given one is an argument.

  \<^bold>\<open>Loops and bounds.\<close> No definition needs fuel: loops run over the data they consume. \<open>loop()\<close> itself
  may run forever; it consumes the list of what its polls return, and a run that is still going on
  at the end of that list returns with the flag False. C14 speaks of runs that return, C11 gives
  the liveness of one round; C31 bounds what the back end of the log still does after \<open>stop\<close>.

  \<^bold>\<open>Groups of lemmas.\<close> For every component: its invariant holds after construction and is kept by every
  operation (\<open>registry_inv\<close>, \<open>queue_inv\<close>, \<open>tq_inv\<close>, \<open>conn_ok\<close>, \<open>srv_inv\<close>, \<open>con_inv\<close>, \<open>client_inv\<close>, \<open>mon_ok\<close>, \<open>latch_inv\<close>,
  \<open>tp_inv\<close>, \<open>elt_inv\<close>, \<open>lf_ok\<close>, \<open>async_inv\<close>), so that it holds in
  every reachable state; the behaviour of each operation on every branch; refinements of an abstract
  description (a byte queue for \<open>Buffer\<close>, the kernel's interest list for \<open>Epoller\<close>, a first-in first-out
  queue for the functors of a loop and for the pool, a counter with a gate for the latch, for the log
  accepted text that moves to the end of a list of files); and the
  places where the code departs from what it means to do, stated as theorems about what it does.

  \<^bold>\<open>Not modelled.\<close> Of \<open>main.cpp\<close> the classes and functions that only print; \<open>net/Callbacks.h\<close>,
  \<open>base/types.h\<close> and \<open>src/noncopyable.h\<close>, which hold type names and deleted functions; the casts between
  address types, \<open>strerror_tl\<close> and \<open>Buffer::internalCapacity\<close>. Writing a log line is taken to leave
  \<open>errno\<close> alone. The data races on members that are read without their mutex (\<open>running_\<close> of the pool,
  \<open>loop_\<close> in the destructor of \<open>EventLoopThread\<close>) are not modelled: reads there see the value at that
  moment. What the C library does at exit with the streams of replaced log files, whose buffers no longer
  exist, is not modelled either.
\<close>

end
